(* ===== verification/Prelude.thy ===== *)
theory Prelude
  imports Main "HOL-Library.Word" "HOL-Library.Monad_Syntax" "HOL-Library.Multiset"
begin

text \<open>
  Shared ground of the development: the fact collections the component proofs pass to the
  simplifier, and the generic lemmas on lists and machine words that several components use.
\<close>

named_theorems heap_defs \<open>definitions of the primitive heap accesses\<close>
named_theorems heap_frame \<open>what an operation leaves untouched\<close>

section \<open>Lists\<close>

lemma butlast_nth_eq: "i < length xs - 1 \<Longrightarrow> butlast xs ! i = xs ! i"
  by (simp add: nth_butlast)

lemma split_at_nth: "i < length xs \<Longrightarrow> xs = take i xs @ xs ! i # drop (Suc i) xs"
  by (rule id_take_nth_drop)

lemma last_conv_nth_pred: "xs \<noteq> [] \<Longrightarrow> last xs = xs ! (length xs - 1)"
  by (rule last_conv_nth)

lemma in_set_tl: "x \<in> set (tl xs) \<Longrightarrow> x \<in> set xs"
  by (cases xs) auto

section \<open>Machine words\<close>

lemma unat_of_nat_32: "n < 2 ^ 32 \<Longrightarrow> unat (of_nat n :: 32 word) = n"
  by (simp add: unat_of_nat)

lemma of_nat_32_eq: "m < 2 ^ 32 \<Longrightarrow> n < 2 ^ 32 \<Longrightarrow> (of_nat m :: 32 word) = of_nat n \<longleftrightarrow> m = n"
  by (simp add: word_unat_eq_iff unat_of_nat)

lemma of_nat_32_eq_0: "n < 2 ^ 32 \<Longrightarrow> (of_nat n :: 32 word) = 0 \<longleftrightarrow> n = 0"
  using of_nat_32_eq [of n 0] by simp

lemma of_nat_32_less: "m < 2 ^ 32 \<Longrightarrow> n < 2 ^ 32 \<Longrightarrow> (of_nat m :: 32 word) < of_nat n \<longleftrightarrow> m < n"
  by (simp add: word_less_nat_alt unat_of_nat)

lemma of_nat_32_le: "m < 2 ^ 32 \<Longrightarrow> n < 2 ^ 32 \<Longrightarrow> (of_nat m :: 32 word) \<le> of_nat n \<longleftrightarrow> m \<le> n"
  by (simp add: word_le_nat_alt unat_of_nat)

lemma sint_eq_0_iff: "sint (w :: 'a::len word) = 0 \<longleftrightarrow> w = 0"
  by (rule signed_eq_0_iff)

lemma unat_less_32: "unat (w :: 32 word) < 4294967296"
  using unsigned_less [of w, where ?'a = nat] by simp

lemma unat_add_1_32: "Suc (unat w) < 2 ^ 32 \<Longrightarrow> unat (w + 1 :: 32 word) = Suc (unat w)"
  by (simp add: unat_word_ariths)

lemma of_nat_Suc_32: "(of_nat (Suc n) :: 32 word) = of_nat n + 1"
  by simp

end
