(* ===== verification/CHeap.thy ===== *)
theory CHeap
  imports Prelude
begin

text \<open>
  The C heap. An address is a natural number, 0 is \<open>NULL\<close>; a struct of the program lives in a
  map from addresses to records, one map per struct type, added to this record by extension in
  the theory of the component that owns the struct. A result of \<open>None\<close> is undefined behaviour
  (a null, dangling or wild access, a double free, an access out of bounds) or a call that
  never returns; an error the code reports itself is an ordinary value.

  \<open>calloc\<close> hands out addresses in increasing order and never reuses one, so a dangling
  pointer never becomes valid again. Which allocations fail is not determined: \<open>oom h n\<close> says
  whether allocation number \<open>n\<close> fails, for an arbitrary \<open>oom\<close>.
\<close>

type_synonym ptr = nat
type_synonym fptr = nat

abbreviation NULL :: nat where "NULL \<equiv> 0"

record heap =
  brk :: nat
  allocs :: nat
  oom :: "nat \<Rightarrow> bool"

definition calloc :: "nat \<Rightarrow> 'z heap_scheme \<Rightarrow> ptr \<times> 'z heap_scheme" where
  "calloc sz h =
     (if oom h (allocs h) then (NULL, h\<lparr>allocs := Suc (allocs h)\<rparr>)
      else (brk h, h\<lparr>allocs := Suc (allocs h), brk := brk h + sz\<rparr>))"

abbreviation can_alloc :: "'z heap_scheme \<Rightarrow> bool" where
  "can_alloc h \<equiv> \<not> oom h (allocs h)"

definition modify :: "ptr \<Rightarrow> ('a \<Rightarrow> 'a) \<Rightarrow> (ptr \<rightharpoonup> 'a) \<Rightarrow> (ptr \<rightharpoonup> 'a) option" where
  "modify p f m = (case m p of None \<Rightarrow> None | Some x \<Rightarrow> Some (m(p \<mapsto> f x)))"

definition release :: "ptr \<Rightarrow> (ptr \<rightharpoonup> 'a) \<Rightarrow> (ptr \<rightharpoonup> 'a) option" where
  "release p m = (case m p of None \<Rightarrow> None | Some _ \<Rightarrow> Some (m(p := None)))"

lemma modify_Some [simp]: "m p = Some x \<Longrightarrow> modify p f m = Some (m(p \<mapsto> f x))"
  by (simp add: modify_def)

lemma modify_None [simp]: "m p = None \<Longrightarrow> modify p f m = None"
  by (simp add: modify_def)

lemma release_Some [simp]: "m p = Some x \<Longrightarrow> release p m = Some (m(p := None))"
  by (simp add: release_def)

lemma release_None [simp]: "m p = None \<Longrightarrow> release p m = None"
  by (simp add: release_def)

end
