(* ===== verification/CList.thy ===== *)
theory CList
  imports CHeap
begin

text \<open>
  The circular singly linked list of ChatRoom/src/list.c, statement by statement on the heap.
  \<open>list_node_t\<close> and \<open>list_t\<close> are the structs of list.h; a function takes the heap last and
  returns its C result with the new heap. The counter of each \<open>for\<close> loop that runs
  \<open>size\<close> times is the argument \<open>k\<close> (iterations left); \<open>CMP_F\<close> and \<open>FREE_F\<close> values are code
  addresses, and calling one is the argument \<open>call_cmp\<close> or \<open>call_free\<close> applied to it.
\<close>

record list_node_t =
  n_data :: ptr
  n_next :: ptr
  n_free :: fptr

record list_t =
  l_size :: "32 word"
  l_head :: ptr
  l_tail :: ptr
  l_comp :: fptr

record list_heap = heap +
  nodes :: "ptr \<rightharpoonup> list_node_t"
  lists :: "ptr \<rightharpoonup> list_t"

type_synonym 'z cmp_call = "fptr \<Rightarrow> ptr \<Rightarrow> ptr \<Rightarrow> 'z list_heap_scheme \<Rightarrow> int option"
type_synonym 'z free_call = "fptr \<Rightarrow> ptr \<Rightarrow> 'z list_heap_scheme \<Rightarrow> 'z list_heap_scheme option"

section \<open>Accesses\<close>

definition calloc_node :: "'z list_heap_scheme \<Rightarrow> ptr \<times> 'z list_heap_scheme" where
  "calloc_node h =
     (let (p, h') = calloc 24 h
      in if p = NULL then (NULL, h')
         else (p, h'\<lparr>nodes := (nodes h')(p \<mapsto> \<lparr>n_data = NULL, n_next = NULL, n_free = NULL\<rparr>)\<rparr>))"

definition calloc_list :: "'z list_heap_scheme \<Rightarrow> ptr \<times> 'z list_heap_scheme" where
  "calloc_list h =
     (let (p, h') = calloc 32 h
      in if p = NULL then (NULL, h')
         else (p, h'\<lparr>lists := (lists h')
                 (p \<mapsto> \<lparr>l_size = 0, l_head = NULL, l_tail = NULL, l_comp = NULL\<rparr>)\<rparr>))"

definition upd_node ::
  "ptr \<Rightarrow> (list_node_t \<Rightarrow> list_node_t) \<Rightarrow> 'z list_heap_scheme \<Rightarrow> 'z list_heap_scheme option" where
  "upd_node p f h = map_option (\<lambda>m. h\<lparr>nodes := m\<rparr>) (modify p f (nodes h))"

definition upd_list ::
  "ptr \<Rightarrow> (list_t \<Rightarrow> list_t) \<Rightarrow> 'z list_heap_scheme \<Rightarrow> 'z list_heap_scheme option" where
  "upd_list p f h = map_option (\<lambda>m. h\<lparr>lists := m\<rparr>) (modify p f (lists h))"

definition free_node :: "ptr \<Rightarrow> 'z list_heap_scheme \<Rightarrow> 'z list_heap_scheme option" where
  "free_node p h =
     (if p = NULL then Some h else map_option (\<lambda>m. h\<lparr>nodes := m\<rparr>) (release p (nodes h)))"

definition free_list :: "ptr \<Rightarrow> 'z list_heap_scheme \<Rightarrow> 'z list_heap_scheme option" where
  "free_list p h =
     (if p = NULL then Some h else map_option (\<lambda>m. h\<lparr>lists := m\<rparr>) (release p (lists h)))"

lemmas [heap_defs] = upd_node_def upd_list_def free_node_def free_list_def

section \<open>Creation, size, insertion\<close>

definition list_create :: "fptr \<Rightarrow> 'z list_heap_scheme \<Rightarrow> (ptr \<times> 'z list_heap_scheme) option" where
  "list_create comp_f h =
     (let (p_cll, h) = calloc_list h
      in if p_cll = NULL then Some (NULL, h)
         else do {
           h \<leftarrow> upd_list p_cll (\<lambda>l. l\<lparr>l_head := NULL, l_tail := NULL, l_size := 0, l_comp := comp_f\<rparr>) h;
           Some (p_cll, h)
         })"

text \<open>The result is \<open>int32_t\<close>: the unsigned field is read as a signed number.\<close>

definition list_size :: "ptr \<Rightarrow> 'z list_heap_scheme \<Rightarrow> int option" where
  "list_size p_cll h =
     (if p_cll = NULL then Some 0
      else do { l \<leftarrow> lists h p_cll; Some (sint (l_size l)) })"

definition list_append ::
  "ptr \<Rightarrow> ptr \<Rightarrow> fptr \<Rightarrow> 'z list_heap_scheme \<Rightarrow> (bool \<times> 'z list_heap_scheme) option" where
  "list_append p_cll p_data free_f h =
     (if p_cll = NULL \<or> p_data = NULL then Some (False, h)
      else
        let (p_node, h) = calloc_node h
        in if p_node = NULL then Some (False, h)
           else do {
             h \<leftarrow> upd_node p_node (\<lambda>n. n\<lparr>n_data := p_data, n_free := free_f\<rparr>) h;
             size \<leftarrow> list_size p_cll h;
             if size = 0 then do {
               h \<leftarrow> upd_list p_cll (\<lambda>l. l\<lparr>l_head := p_node, l_tail := p_node, l_size := l_size l + 1\<rparr>) h;
               l \<leftarrow> lists h p_cll;
               h \<leftarrow> upd_node p_node (\<lambda>n. n\<lparr>n_next := l_head l\<rparr>) h;
               Some (True, h)
             } else do {
               l \<leftarrow> lists h p_cll;
               h \<leftarrow> upd_node (l_tail l) (\<lambda>n. n\<lparr>n_next := p_node\<rparr>) h;
               h \<leftarrow> upd_list p_cll (\<lambda>l. l\<lparr>l_tail := p_node\<rparr>) h;
               h \<leftarrow> upd_node p_node (\<lambda>n. n\<lparr>n_next := l_head l\<rparr>) h;
               h \<leftarrow> upd_list p_cll (\<lambda>l. l\<lparr>l_size := l_size l + 1\<rparr>) h;
               Some (True, h)
             }
           })"

definition list_prepend ::
  "ptr \<Rightarrow> ptr \<Rightarrow> fptr \<Rightarrow> 'z list_heap_scheme \<Rightarrow> (bool \<times> 'z list_heap_scheme) option" where
  "list_prepend p_cll p_data free_f h =
     (if p_data = NULL \<or> p_cll = NULL then Some (False, h)
      else
        let (p_node, h) = calloc_node h
        in if p_node = NULL then Some (False, h)
           else do {
             h \<leftarrow> upd_node p_node (\<lambda>n. n\<lparr>n_data := p_data, n_free := free_f\<rparr>) h;
             size \<leftarrow> list_size p_cll h;
             if size = 0 then do {
               h \<leftarrow> upd_list p_cll (\<lambda>l. l\<lparr>l_head := p_node, l_tail := p_node, l_size := l_size l + 1\<rparr>) h;
               l \<leftarrow> lists h p_cll;
               h \<leftarrow> upd_node p_node (\<lambda>n. n\<lparr>n_next := l_head l\<rparr>) h;
               Some (True, h)
             } else do {
               l \<leftarrow> lists h p_cll;
               h \<leftarrow> upd_node p_node (\<lambda>n. n\<lparr>n_next := l_head l\<rparr>) h;
               h \<leftarrow> upd_list p_cll (\<lambda>l. l\<lparr>l_head := p_node\<rparr>) h;
               l \<leftarrow> lists h p_cll;
               h \<leftarrow> upd_node (l_tail l) (\<lambda>n. n\<lparr>n_next := l_head l\<rparr>) h;
               h \<leftarrow> upd_list p_cll (\<lambda>l. l\<lparr>l_size := l_size l + 1\<rparr>) h;
               Some (True, h)
             }
           })"

text \<open>The loop of \<open>list_insert\<close>: it returns \<open>p_curr_node\<close> when it ends.\<close>

fun insert_loop ::
  "nat \<Rightarrow> ptr \<Rightarrow> ptr \<Rightarrow> 32 word \<Rightarrow> 32 word \<Rightarrow> ptr \<Rightarrow> 'z list_heap_scheme
     \<Rightarrow> (ptr \<times> 'z list_heap_scheme) option" where
  "insert_loop 0 p_cll p_node idx iter p_curr h = Some (p_curr, h)"
| "insert_loop (Suc k) p_cll p_node idx iter p_curr h =
     (if idx = iter + 1 then do {
        c \<leftarrow> nodes h p_curr;
        h \<leftarrow> upd_node p_node (\<lambda>n. n\<lparr>n_next := n_next c\<rparr>) h;
        h \<leftarrow> upd_list p_cll (\<lambda>l. l\<lparr>l_size := l_size l + 1\<rparr>) h;
        Some (p_curr, h)
      } else do {
        c \<leftarrow> nodes h p_curr;
        insert_loop k p_cll p_node idx (iter + 1) (n_next c) h
      })"

definition list_insert ::
  "ptr \<Rightarrow> ptr \<Rightarrow> 32 word \<Rightarrow> fptr \<Rightarrow> 'z list_heap_scheme \<Rightarrow> (bool \<times> 'z list_heap_scheme) option" where
  "list_insert p_cll p_data idx free_f h =
     (if p_cll = NULL \<or> p_data = NULL then Some (False, h)
      else do {
        l \<leftarrow> lists h p_cll;
        let p_curr = l_head l;
        if idx = 0 \<or> p_curr = NULL then list_prepend p_cll p_data free_f h
        else if l_size l \<le> idx then list_append p_cll p_data free_f h
        else
          let (p_node, h) = calloc_node h
          in if p_node = NULL then Some (False, h)
             else do {
               h \<leftarrow> upd_node p_node (\<lambda>n. n\<lparr>n_data := p_data, n_free := free_f, n_next := NULL\<rparr>) h;
               (p_curr, h) \<leftarrow> insert_loop (unat (l_size l)) p_cll p_node idx 0 p_curr h;
               h \<leftarrow> upd_node p_curr (\<lambda>n. n\<lparr>n_next := p_node\<rparr>) h;
               Some (True, h)
             }
      })"

section \<open>Removal\<close>

fun pop_tail_loop ::
  "nat \<Rightarrow> ptr \<Rightarrow> ptr \<Rightarrow> 'z list_heap_scheme \<Rightarrow> (ptr \<times> 'z list_heap_scheme) option" where
  "pop_tail_loop 0 p_cll p_curr h = Some (NULL, h)"
| "pop_tail_loop (Suc k) p_cll p_curr h = do {
     c \<leftarrow> nodes h p_curr;
     l \<leftarrow> lists h p_cll;
     if n_next c = l_tail l then do {
       t \<leftarrow> nodes h (l_tail l);
       let p_val = n_data t;
       let p_temp = l_tail l;
       h \<leftarrow> upd_list p_cll (\<lambda>l. l\<lparr>l_tail := p_curr\<rparr>) h;
       h \<leftarrow> upd_node p_curr (\<lambda>n. n\<lparr>n_next := l_head l\<rparr>) h;
       h \<leftarrow> upd_list p_cll (\<lambda>l. l\<lparr>l_size := l_size l - 1\<rparr>) h;
       h \<leftarrow> upd_node p_temp (\<lambda>n. n\<lparr>n_data := NULL\<rparr>) h;
       h \<leftarrow> free_node p_temp h;
       Some (p_val, h)
     } else pop_tail_loop k p_cll (n_next c) h
   }"

definition list_pop_tail :: "ptr \<Rightarrow> 'z list_heap_scheme \<Rightarrow> (ptr \<times> 'z list_heap_scheme) option" where
  "list_pop_tail p_cll h = do {
     size \<leftarrow> list_size p_cll h;
     if p_cll = NULL \<or> size = 0 then Some (NULL, h)
     else do {
       l \<leftarrow> lists h p_cll;
       pop_tail_loop (unat (l_size l)) p_cll (l_head l) h
     }
   }"

definition list_pop_head :: "ptr \<Rightarrow> 'z list_heap_scheme \<Rightarrow> (ptr \<times> 'z list_heap_scheme) option" where
  "list_pop_head p_cll h = do {
     size \<leftarrow> list_size p_cll h;
     if p_cll = NULL \<or> size = 0 then Some (NULL, h)
     else do {
       l \<leftarrow> lists h p_cll;
       hd \<leftarrow> nodes h (l_head l);
       let p_val = n_data hd;
       let p_temp = l_head l;
       h \<leftarrow> upd_list p_cll (\<lambda>l. l\<lparr>l_head := n_next hd\<rparr>) h;
       h \<leftarrow> upd_node (l_tail l) (\<lambda>n. n\<lparr>n_next := n_next hd\<rparr>) h;
       h \<leftarrow> upd_list p_cll (\<lambda>l. l\<lparr>l_size := l_size l - 1\<rparr>) h;
       h \<leftarrow> free_node p_temp h;
       Some (p_val, h)
     }
   }"

fun remove_loop ::
  "nat \<Rightarrow> ptr \<Rightarrow> 32 word \<Rightarrow> 32 word \<Rightarrow> ptr \<Rightarrow> 'z list_heap_scheme
     \<Rightarrow> (ptr \<times> 'z list_heap_scheme) option" where
  "remove_loop 0 p_cll idx iter p_curr h = Some (NULL, h)"
| "remove_loop (Suc k) p_cll idx iter p_curr h = do {
     c \<leftarrow> nodes h p_curr;
     if idx = iter + 1 then do {
       t \<leftarrow> nodes h (n_next c);
       let p_val = n_data t;
       let p_temp = n_next c;
       h \<leftarrow> upd_node p_curr (\<lambda>n. n\<lparr>n_next := n_next t\<rparr>) h;
       h \<leftarrow> upd_list p_cll (\<lambda>l. l\<lparr>l_size := l_size l - 1\<rparr>) h;
       h \<leftarrow> upd_node p_temp (\<lambda>n. n\<lparr>n_next := NULL, n_data := NULL\<rparr>) h;
       h \<leftarrow> free_node p_temp h;
       Some (p_val, h)
     } else remove_loop k p_cll idx (iter + 1) (n_next c) h
   }"

definition list_remove ::
  "ptr \<Rightarrow> 32 word \<Rightarrow> 'z list_heap_scheme \<Rightarrow> (ptr \<times> 'z list_heap_scheme) option" where
  "list_remove p_cll idx h = do {
     size \<leftarrow> list_size p_cll h;
     if p_cll = NULL \<or> size = 0 then Some (NULL, h)
     else if idx = 0 then list_pop_head p_cll h
     else do {
       l \<leftarrow> lists h p_cll;
       if idx = l_size l - 1 then list_pop_tail p_cll h
       else if l_size l \<le> idx then Some (NULL, h)
       else remove_loop (unat (l_size l)) p_cll idx 0 (l_head l) h
     }
   }"

section \<open>Lookup\<close>

fun index_loop ::
  "nat \<Rightarrow> 32 word \<Rightarrow> 32 word \<Rightarrow> ptr \<Rightarrow> ptr \<Rightarrow> 'z list_heap_scheme \<Rightarrow> ptr option" where
  "index_loop 0 idx iter p_curr p_val h = Some p_val"
| "index_loop (Suc k) idx iter p_curr p_val h = do {
     c \<leftarrow> nodes h p_curr;
     index_loop k idx (iter + 1) (n_next c) (if idx = iter then n_data c else p_val) h
   }"

definition list_index :: "ptr \<Rightarrow> 32 word \<Rightarrow> 'z list_heap_scheme \<Rightarrow> ptr option" where
  "list_index p_cll idx h =
     (if p_cll = NULL then Some NULL
      else do {
        l \<leftarrow> lists h p_cll;
        if l_size l \<le> idx then Some NULL
        else index_loop (Suc (unat idx)) idx 0 (l_head l) NULL h
      })"

fun first_occurrence_loop ::
  "'z cmp_call \<Rightarrow> fptr \<Rightarrow> nat \<Rightarrow> ptr \<Rightarrow> 32 word \<Rightarrow> ptr \<Rightarrow> 'z list_heap_scheme \<Rightarrow> int option" where
  "first_occurrence_loop call_cmp comp_f 0 p_item iter p_curr h = Some (-1)"
| "first_occurrence_loop call_cmp comp_f (Suc k) p_item iter p_curr h = do {
     c \<leftarrow> nodes h p_curr;
     comp \<leftarrow> call_cmp comp_f (n_data c) p_item h;
     if comp = 0 then Some (sint iter)
     else first_occurrence_loop call_cmp comp_f k p_item (iter + 1) (n_next c) h
   }"

definition list_first_occurrence ::
  "'z cmp_call \<Rightarrow> ptr \<Rightarrow> ptr \<Rightarrow> 'z list_heap_scheme \<Rightarrow> int option" where
  "list_first_occurrence call_cmp p_cll p_item h =
     (if p_cll = NULL \<or> p_item = NULL then Some (-1)
      else do {
        l \<leftarrow> lists h p_cll;
        if l_comp l = NULL then Some (-1)
        else first_occurrence_loop call_cmp (l_comp l) (unat (l_size l)) p_item 0 (l_head l) h
      })"

fun remove_val_loop ::
  "'z cmp_call \<Rightarrow> fptr \<Rightarrow> nat \<Rightarrow> ptr \<Rightarrow> ptr \<Rightarrow> ptr \<Rightarrow> 'z list_heap_scheme
     \<Rightarrow> (ptr \<times> 'z list_heap_scheme) option" where
  "remove_val_loop call_cmp comp_f 0 p_cll p_item p_curr h = Some (NULL, h)"
| "remove_val_loop call_cmp comp_f (Suc k) p_cll p_item p_curr h = do {
     c \<leftarrow> nodes h p_curr;
     t \<leftarrow> nodes h (n_next c);
     let p_val = n_data t;
     comp \<leftarrow> call_cmp comp_f p_val p_item h;
     if comp = 0 then do {
       let p_rm_node = n_next c;
       h \<leftarrow> upd_node p_curr (\<lambda>n. n\<lparr>n_next := n_next t\<rparr>) h;
       h \<leftarrow> upd_list p_cll (\<lambda>l. l\<lparr>l_size := l_size l - 1\<rparr>) h;
       h \<leftarrow> upd_node p_rm_node (\<lambda>n. n\<lparr>n_data := NULL, n_next := NULL\<rparr>) h;
       h \<leftarrow> free_node p_rm_node h;
       Some (p_val, h)
     } else remove_val_loop call_cmp comp_f k p_cll p_item (n_next c) h
   }"

definition list_remove_val ::
  "'z cmp_call \<Rightarrow> ptr \<Rightarrow> ptr \<Rightarrow> 'z list_heap_scheme \<Rightarrow> (ptr \<times> 'z list_heap_scheme) option" where
  "list_remove_val call_cmp p_cll p_item h =
     (if p_cll = NULL \<or> p_item = NULL then Some (NULL, h)
      else do {
        l \<leftarrow> lists h p_cll;
        if l_comp l = NULL then Some (NULL, h)
        else do {
          hd \<leftarrow> nodes h (l_head l);
          c1 \<leftarrow> call_cmp (l_comp l) (n_data hd) p_item h;
          if c1 = 0 then list_pop_head p_cll h
          else do {
            tl \<leftarrow> nodes h (l_tail l);
            c2 \<leftarrow> call_cmp (l_comp l) (n_data tl) p_item h;
            if c2 = 0 then list_pop_tail p_cll h
            else remove_val_loop call_cmp (l_comp l) (unat (l_size l - 1)) p_cll p_item (l_head l) h
          }
        }
      })"

section \<open>Destruction\<close>

text \<open>
  The loop reads \<open>size\<close> again before each iteration: the callback runs in between. It is
  defined without a bound; \<open>None\<close> also stands for a loop that does not end.
\<close>

partial_function (option) destroy_loop ::
  "'z free_call \<Rightarrow> ptr \<Rightarrow> 32 word \<Rightarrow> ptr \<Rightarrow> 'z list_heap_scheme \<Rightarrow> 'z list_heap_scheme option" where
  "destroy_loop call_free p_cll iter p_node h = do {
     l \<leftarrow> lists h p_cll;
     if iter < l_size l then do {
       let p_temp = p_node;
       n \<leftarrow> nodes h p_node;
       let p_node = n_next n;
       h \<leftarrow> (if n_free n \<noteq> NULL then call_free (n_free n) (n_data n) h else Some h);
       h \<leftarrow> free_node p_temp h;
       destroy_loop call_free p_cll (iter + 1) p_node h
     } else Some h
   }"

definition list_destroy_items ::
  "'z free_call \<Rightarrow> ptr \<Rightarrow> 'z list_heap_scheme \<Rightarrow> (bool \<times> 'z list_heap_scheme) option" where
  "list_destroy_items call_free p_cll h =
     (if p_cll = NULL then Some (False, h)
      else do {
        size \<leftarrow> list_size p_cll h;
        if size = 0 then Some (True, h)
        else do {
          l \<leftarrow> lists h p_cll;
          h \<leftarrow> destroy_loop call_free p_cll 0 (l_head l) h;
          h \<leftarrow> upd_list p_cll (\<lambda>l. l\<lparr>l_head := NULL, l_tail := NULL, l_size := 0\<rparr>) h;
          Some (True, h)
        }
      })"

text \<open>
  \<open>list_destroy\<close> takes the address of the caller's list pointer. The argument here is that
  pointer's value and the second result its value afterwards.
\<close>

definition list_destroy ::
  "'z free_call \<Rightarrow> ptr \<Rightarrow> 'z list_heap_scheme \<Rightarrow> (bool \<times> ptr \<times> 'z list_heap_scheme) option" where
  "list_destroy call_free p_cll h =
     (if p_cll = NULL then Some (False, p_cll, h)
      else do {
        (des, h) \<leftarrow> list_destroy_items call_free p_cll h;
        if \<not> des then Some (False, p_cll, h)
        else do {
          h \<leftarrow> free_list p_cll h;
          Some (True, NULL, h)
        }
      })"

end
