(* ===== verification/CListRep.thy ===== *)
theory CListRep
  imports CList
begin

text \<open>
  What a heap has to look like for a \<open>list_t\<close> to represent a sequence of (data, free function)
  pairs: the nodes form a ring without repetition, \<open>p_head\<close> and \<open>p_tail\<close> are its ends and
  \<open>size\<close> its length. \<open>lframe\<close> says what an operation may change.
\<close>

section \<open>Chains of nodes\<close>

primrec path :: "(ptr \<rightharpoonup> list_node_t) \<Rightarrow> ptr \<Rightarrow> ptr list \<Rightarrow> ptr \<Rightarrow> bool" where
  "path m p [] q \<longleftrightarrow> p = q"
| "path m p (a # as) q \<longleftrightarrow> p = a \<and> (\<exists>n. m a = Some n \<and> path m (n_next n) as q)"

lemma path_append [simp]: "path m p (as @ bs) q \<longleftrightarrow> (\<exists>r. path m p as r \<and> path m r bs q)"
  by (induction as arbitrary: p) auto

lemma path_upd_other [simp]: "a \<notin> set ps \<Longrightarrow> path (m(a := x)) p ps q = path m p ps q"
  by (induction ps arbitrary: p) auto

lemma path_mapped: "path m p ps q \<Longrightarrow> a \<in> set ps \<Longrightarrow> \<exists>n. m a = Some n"
  by (induction ps arbitrary: p) auto

lemma path_cong: "(\<And>a. a \<in> set ps \<Longrightarrow> m a = m' a) \<Longrightarrow> path m p ps q = path m' p ps q"
  by (induction ps arbitrary: p) auto

lemma path_head: "path m p ps q \<Longrightarrow> ps \<noteq> [] \<Longrightarrow> p = hd ps"
  by (cases ps) auto

lemma path_nth:
  "path m p ps q \<Longrightarrow> i < length ps
     \<Longrightarrow> \<exists>n. m (ps ! i) = Some n \<and> n_next n = (ps @ [q]) ! Suc i"
proof (induction ps arbitrary: p i)
  case Nil
  then show ?case by simp
next
  case (Cons a as)
  then obtain n where n: "m a = Some n" "path m (n_next n) as q" by auto
  show ?case
  proof (cases i)
    case 0
    with n show ?thesis by (cases as) auto
  next
    case (Suc j)
    with Cons.prems Cons.IH [OF n(2), of j] show ?thesis by simp
  qed
qed

definition node_item :: "(ptr \<rightharpoonup> list_node_t) \<Rightarrow> ptr \<Rightarrow> ptr \<times> fptr" where
  "node_item m a = (case m a of None \<Rightarrow> (NULL, NULL) | Some n \<Rightarrow> (n_data n, n_free n))"

abbreviation items :: "(ptr \<rightharpoonup> list_node_t) \<Rightarrow> ptr list \<Rightarrow> (ptr \<times> fptr) list" where
  "items m ps \<equiv> map (node_item m) ps"

lemma node_item_upd_next [simp]:
  "m t = Some n \<Longrightarrow> node_item (m(t \<mapsto> n\<lparr>n_next := q\<rparr>)) a = node_item m a"
  by (auto simp: node_item_def)

lemma node_item_Some [simp]: "m a = Some n \<Longrightarrow> node_item m a = (n_data n, n_free n)"
  by (simp add: node_item_def)

lemma node_item_upd_other [simp]: "a \<noteq> b \<Longrightarrow> node_item (m(b := x)) a = node_item m a"
  by (simp add: node_item_def)

lemma items_upd_other [simp]: "b \<notin> set ps \<Longrightarrow> items (m(b := x)) ps = items m ps"
  by (auto simp: node_item_def)

lemma items_cong: "(\<And>a. a \<in> set ps \<Longrightarrow> m a = m' a) \<Longrightarrow> items m ps = items m' ps"
  by (auto simp: node_item_def)

section \<open>Representation of a list\<close>

definition lheap_ok :: "'z list_heap_scheme \<Rightarrow> bool" where
  "lheap_ok h \<longleftrightarrow> 0 < brk h
     \<and> (\<forall>q. q \<in> dom (nodes h) \<longrightarrow> 0 < q \<and> q < brk h)
     \<and> (\<forall>q. q \<in> dom (lists h) \<longrightarrow> 0 < q \<and> q < brk h)"

definition list_at :: "'z list_heap_scheme \<Rightarrow> ptr \<Rightarrow> fptr \<Rightarrow> ptr list \<Rightarrow> bool" where
  "list_at h p comp_f ps \<longleftrightarrow>
     (\<exists>l. lists h p = Some l \<and> l_comp l = comp_f \<and> l_size l = of_nat (length ps)
        \<and> length ps < 2 ^ 32 \<and> distinct ps
        \<and> (ps \<noteq> [] \<longrightarrow> l_head l = hd ps \<and> l_tail l = last ps
                        \<and> path (nodes h) (hd ps) ps (hd ps)))"

definition lrep ::
  "'z list_heap_scheme \<Rightarrow> ptr \<Rightarrow> fptr \<Rightarrow> ptr set \<Rightarrow> (ptr \<times> fptr) list \<Rightarrow> bool" where
  "lrep h p comp_f A xs \<longleftrightarrow>
     (\<exists>ps. list_at h p comp_f ps \<and> A = set ps \<and> xs = items (nodes h) ps
        \<and> (\<forall>x \<in> set xs. fst x \<noteq> NULL))"

definition lframe ::
  "'z list_heap_scheme \<Rightarrow> 'z list_heap_scheme \<Rightarrow> ptr set \<Rightarrow> ptr set \<Rightarrow> bool" where
  "lframe h h' P A \<longleftrightarrow> brk h \<le> brk h' \<and> oom h' = oom h
     \<and> list_heap.more h' = list_heap.more h
     \<and> (\<forall>q. q \<notin> P \<and> q < brk h \<longrightarrow> lists h' q = lists h q)
     \<and> (\<forall>q. q \<notin> A \<and> q < brk h \<longrightarrow> nodes h' q = nodes h q)"

lemma lframe_refl [simp]: "lframe h h P A"
  by (simp add: lframe_def)

lemma lframe_trans:
  "lframe h h' P A \<Longrightarrow> lframe h' h'' P' A'
     \<Longrightarrow> P' \<subseteq> P \<union> {brk h..} \<Longrightarrow> A' \<subseteq> A \<union> {brk h..} \<Longrightarrow> lframe h h'' P A"
  unfolding lframe_def by (auto simp: subset_iff) (metis linorder_not_le order.strict_trans2)+

lemma lframe_mono: "lframe h h' P A \<Longrightarrow> P \<subseteq> P' \<Longrightarrow> A \<subseteq> A' \<Longrightarrow> lframe h h' P' A'"
  by (auto simp: lframe_def)

lemma lheap_ok_NULL [simp]: "lheap_ok h \<Longrightarrow> nodes h NULL = None" "lheap_ok h \<Longrightarrow> lists h NULL = None"
  unfolding lheap_ok_def by (metis domI less_irrefl not_None_eq)+

lemma lheap_ok_brk [simp]: "lheap_ok h \<Longrightarrow> 0 < brk h"
  by (simp add: lheap_ok_def)

lemma lheap_ok_below:
  "lheap_ok h \<Longrightarrow> nodes h q = Some n \<Longrightarrow> 0 < q \<and> q < brk h"
  "lheap_ok h \<Longrightarrow> lists h q = Some l \<Longrightarrow> 0 < q \<and> q < brk h"
  unfolding lheap_ok_def by blast+

lemma lheap_ok_fresh [simp]:
  "lheap_ok h \<Longrightarrow> nodes h (brk h) = None" "lheap_ok h \<Longrightarrow> lists h (brk h) = None"
  unfolding lheap_ok_def by (metis domI less_irrefl not_None_eq)+

lemma list_at_header: "list_at h p c ps \<Longrightarrow> \<exists>l. lists h p = Some l"
  by (auto simp: list_at_def)

lemma list_at_nonnull: "lheap_ok h \<Longrightarrow> list_at h p c ps \<Longrightarrow> p \<noteq> NULL"
  by (metis list_at_header lheap_ok_NULL(2) option.distinct(1))

lemma list_at_below: "lheap_ok h \<Longrightarrow> list_at h p c ps \<Longrightarrow> a \<in> set ps \<Longrightarrow> 0 < a \<and> a < brk h"
  unfolding list_at_def by (metis lheap_ok_below(1) path_mapped empty_iff list.set(1))

lemma list_at_frame:
  assumes "lframe h h' P A" "lheap_ok h" "list_at h p c ps" "p \<notin> P" "set ps \<inter> A = {}"
  shows "list_at h' p c ps \<and> items (nodes h') ps = items (nodes h) ps"
proof -
  have n: "nodes h a = nodes h' a" if "a \<in> set ps" for a
    using assms that list_at_below [OF assms(2,3) that] by (auto simp: lframe_def)
  have l: "lists h' p = lists h p"
    using assms lheap_ok_below(2) [OF assms(2)] by (auto simp: lframe_def list_at_def)
  have "path (nodes h) (hd ps) ps (hd ps) = path (nodes h') (hd ps) ps (hd ps)"
    using n by (rule path_cong)
  then have "list_at h' p c ps" using assms(3) l by (simp add: list_at_def)
  then show ?thesis using items_cong [of ps "nodes h'" "nodes h"] n by auto
qed

lemma lrep_frame:
  assumes "lframe h h' P A" "lheap_ok h" "lrep h p c B xs" "p \<notin> P" "B \<inter> A = {}"
  shows "lrep h' p c B xs"
  using assms list_at_frame [OF assms(1,2)] unfolding lrep_def by metis

lemma lrep_nonnull: "lheap_ok h \<Longrightarrow> lrep h p c A xs \<Longrightarrow> p \<noteq> NULL"
  using list_at_nonnull unfolding lrep_def by blast

lemma lrep_below: "lheap_ok h \<Longrightarrow> lrep h p c A xs \<Longrightarrow> A \<subseteq> {0<..<brk h}"
  using list_at_below unfolding lrep_def by fastforce

lemma lrep_header_below: "lheap_ok h \<Longrightarrow> lrep h p c A xs \<Longrightarrow> 0 < p \<and> p < brk h"
  unfolding lrep_def using list_at_header lheap_ok_below(2) by blast

lemma lrep_card: "lrep h p c A xs \<Longrightarrow> card A = length xs \<and> finite A"
  unfolding lrep_def list_at_def by (auto simp: distinct_card)

lemma lrep_length: "lrep h p c A xs \<Longrightarrow> length xs < 2 ^ 32"
  unfolding lrep_def list_at_def by auto

lemma lrep_size_field:
  "lrep h p c A xs \<Longrightarrow> \<exists>l. lists h p = Some l \<and> l_size l = of_nat (length xs) \<and> l_comp l = c"
  unfolding lrep_def list_at_def by auto

end
