(* ===== verification/CListInsert.thy ===== *)
theory CListInsert
  imports CListRep
begin

text \<open>
  The insertions of list.c refine insertions into the represented sequence: creation, append,
  prepend and insert at an index, each with what it leaves untouched, and each with its
  failures (null arguments, no memory).
\<close>

section \<open>Single accesses\<close>

lemma upd_node_Some [simp]:
  "nodes h p = Some n \<Longrightarrow> upd_node p f h = Some (h\<lparr>nodes := (nodes h)(p \<mapsto> f n)\<rparr>)"
  by (simp add: heap_defs)

lemma upd_list_Some [simp]:
  "lists h p = Some l \<Longrightarrow> upd_list p f h = Some (h\<lparr>lists := (lists h)(p \<mapsto> f l)\<rparr>)"
  by (simp add: heap_defs)

lemma free_node_Some [simp]:
  "nodes h p = Some n \<Longrightarrow> p \<noteq> NULL \<Longrightarrow> free_node p h = Some (h\<lparr>nodes := (nodes h)(p := None)\<rparr>)"
  by (simp add: heap_defs)

lemma free_list_Some [simp]:
  "lists h p = Some l \<Longrightarrow> p \<noteq> NULL \<Longrightarrow> free_list p h = Some (h\<lparr>lists := (lists h)(p := None)\<rparr>)"
  by (simp add: heap_defs)

definition blank_node :: list_node_t where
  "blank_node = \<lparr>n_data = NULL, n_next = NULL, n_free = NULL\<rparr>"

lemma calloc_node_ok:
  "lheap_ok h \<Longrightarrow> can_alloc h
     \<Longrightarrow> calloc_node h = (brk h, h\<lparr>allocs := Suc (allocs h), brk := brk h + 24,
                               nodes := (nodes h)(brk h \<mapsto> blank_node)\<rparr>)"
  by (auto simp: calloc_node_def calloc_def lheap_ok_def blank_node_def)

lemma calloc_node_oom:
  "\<not> can_alloc h \<Longrightarrow> calloc_node h = (NULL, h\<lparr>allocs := Suc (allocs h)\<rparr>)"
  by (simp add: calloc_node_def calloc_def)

lemma calloc_list_ok:
  "lheap_ok h \<Longrightarrow> can_alloc h
     \<Longrightarrow> calloc_list h = (brk h, h\<lparr>allocs := Suc (allocs h), brk := brk h + 32,
           lists := (lists h)(brk h \<mapsto> \<lparr>l_size = 0, l_head = NULL, l_tail = NULL, l_comp = NULL\<rparr>)\<rparr>)"
  by (auto simp: calloc_list_def calloc_def lheap_ok_def)

lemma calloc_list_oom:
  "\<not> can_alloc h \<Longrightarrow> calloc_list h = (NULL, h\<lparr>allocs := Suc (allocs h)\<rparr>)"
  by (simp add: calloc_list_def calloc_def)

lemma lframe_allocs [simp]: "lframe h (h\<lparr>allocs := n\<rparr>) P A"
  by (simp add: lframe_def)

lemma lheap_ok_allocs [simp]: "lheap_ok (h\<lparr>allocs := n\<rparr>) = lheap_ok h"
  by (simp add: lheap_ok_def)

lemma list_size_eq:
  "lists h p = Some l \<Longrightarrow> p \<noteq> NULL \<Longrightarrow> list_size p h = Some (sint (l_size l))"
  by (simp add: list_size_def)

section \<open>\<open>list_create\<close>\<close>

lemma list_create_spec:
  assumes "lheap_ok h" "can_alloc h"
  shows "\<exists>h'. list_create c h = Some (brk h, h') \<and> lrep h' (brk h) c {} []
           \<and> lheap_ok h' \<and> lframe h h' {} {}"
  using assms
  by (fastforce simp: list_create_def calloc_list_ok lrep_def list_at_def lheap_ok_def lframe_def)

lemma list_create_oom:
  "\<not> can_alloc h \<Longrightarrow> list_create c h = Some (NULL, h\<lparr>allocs := Suc (allocs h)\<rparr>)"
  by (simp add: list_create_def calloc_list_oom)

section \<open>\<open>list_append\<close> and \<open>list_prepend\<close>\<close>

text \<open>The heap after a fresh node \<open>b\<close> is linked in as the only node of an empty list.\<close>

lemma first_node_list_at:
  assumes "lists h p = Some l" "l_comp l = c" "l_size l = 0"
  shows "list_at (h\<lparr>allocs := a, brk := b', nodes := (nodes h)(b \<mapsto> n\<lparr>n_next := b\<rparr>),
                    lists := (lists h)(p \<mapsto> l\<lparr>l_head := b, l_tail := b, l_size := 1\<rparr>)\<rparr>) p c [b]"
  using assms by (auto simp: list_at_def)

lemma list_append_at:
  assumes ok: "lheap_ok h" and at: "list_at h p c ps" and d: "d \<noteq> NULL"
    and mem: "can_alloc h" and len: "Suc (length ps) < 2 ^ 32"
  shows "\<exists>h'. list_append p d f h = Some (True, h') \<and> list_at h' p c (ps @ [brk h])
           \<and> items (nodes h') (ps @ [brk h]) = items (nodes h) ps @ [(d, f)]
           \<and> lheap_ok h' \<and> lframe h h' {p} (set ps)"
proof -
  obtain l where l: "lists h p = Some l" "l_comp l = c" "l_size l = of_nat (length ps)"
    and dist: "distinct ps"
    and ring: "ps \<noteq> [] \<Longrightarrow> l_head l = hd ps \<and> l_tail l = last ps \<and> path (nodes h) (hd ps) ps (hd ps)"
    using at by (auto simp: list_at_def)
  have p: "p \<noteq> NULL" using list_at_nonnull [OF ok at] .
  have fresh: "brk h \<notin> set ps" using list_at_below [OF ok at] by auto
  show ?thesis
  proof (cases "ps = []")
    case True
    then show ?thesis using l p d mem ok
      by (auto simp: list_append_def calloc_node_ok blank_node_def list_size_eq list_at_def
            lheap_ok_def lframe_def)
  next
    case False
    then obtain qs t where ps: "ps = qs @ [t]" by (metis rev_exhaust)
    have t: "t \<noteq> brk h" "t \<notin> set qs" using fresh dist ps by auto
    obtain n where n: "nodes h t = Some n" and pq: "path (nodes h) (hd ps) qs t"
      using ring [OF False] ps by (auto simp: path_append)
    have sz: "sint (l_size l) \<noteq> 0"
      using l(3) False len by (simp add: sint_eq_0_iff of_nat_32_eq_0)
    have hdps: "hd (qs @ [t]) = hd (qs @ [t, brk h])" by (cases qs) auto
    show ?thesis
      using l p d mem ok sz ring [OF False] n t fresh dist len pq hdps
      by (auto simp: ps list_append_def calloc_node_ok blank_node_def list_size_eq list_at_def
            lheap_ok_def lframe_def node_item_def)
  qed
qed

lemma list_prepend_at:
  assumes ok: "lheap_ok h" and at: "list_at h p c ps" and d: "d \<noteq> NULL"
    and mem: "can_alloc h" and len: "Suc (length ps) < 2 ^ 32"
  shows "\<exists>h'. list_prepend p d f h = Some (True, h') \<and> list_at h' p c (brk h # ps)
           \<and> items (nodes h') (brk h # ps) = (d, f) # items (nodes h) ps
           \<and> lheap_ok h' \<and> lframe h h' {p} (set ps)"
proof -
  obtain l where l: "lists h p = Some l" "l_comp l = c" "l_size l = of_nat (length ps)"
    and dist: "distinct ps"
    and ring: "ps \<noteq> [] \<Longrightarrow> l_head l = hd ps \<and> l_tail l = last ps \<and> path (nodes h) (hd ps) ps (hd ps)"
    using at by (auto simp: list_at_def)
  have p: "p \<noteq> NULL" using list_at_nonnull [OF ok at] .
  have fresh: "brk h \<notin> set ps" using list_at_below [OF ok at] by auto
  show ?thesis
  proof (cases "ps = []")
    case True
    then show ?thesis using l p d mem ok
      by (auto simp: list_prepend_def calloc_node_ok blank_node_def list_size_eq list_at_def
            lheap_ok_def lframe_def)
  next
    case False
    then obtain qs t where ps: "ps = qs @ [t]" by (metis rev_exhaust)
    have t: "t \<noteq> brk h" "t \<notin> set qs" using fresh dist ps by auto
    obtain n where n: "nodes h t = Some n" and pq: "path (nodes h) (hd ps) qs t"
      using ring [OF False] ps by (auto simp: path_append)
    have sz: "sint (l_size l) \<noteq> 0"
      using l(3) False len by (simp add: sint_eq_0_iff of_nat_32_eq_0)
    show ?thesis
      using l p d mem ok sz ring [OF False] n t fresh dist len pq
      by (auto simp: ps list_prepend_def calloc_node_ok blank_node_def list_size_eq list_at_def
            lheap_ok_def lframe_def node_item_def)
  qed
qed

section \<open>\<open>list_insert\<close>\<close>

text \<open>The loop stops at the node before index \<open>idx\<close>.\<close>

lemma insert_loop_eval:
  assumes "path (nodes h) cur (cs @ [a]) q" "length cs < k" "length cs < 2 ^ 32"
    and "idx = iter + of_nat (length cs) + 1"
    and "nodes h a = Some na" "nodes h b = Some nb" "lists h p = Some l"
  shows "insert_loop k p b idx iter cur h
     = Some (a, h\<lparr>nodes := (nodes h)(b \<mapsto> nb\<lparr>n_next := n_next na\<rparr>),
                  lists := (lists h)(p \<mapsto> l\<lparr>l_size := l_size l + 1\<rparr>)\<rparr>)"
  using assms
proof (induction cs arbitrary: k iter cur)
  case Nil
  then show ?case by (cases k) (auto simp: fun_upd_def)
next
  case (Cons c cs)
  obtain j where k: "k = Suc j" using Cons.prems(2) by (cases k) auto
  obtain nc where nc: "nodes h c = Some nc" "cur = c" "path (nodes h) (n_next nc) (cs @ [a]) q"
    using Cons.prems(1) by auto
  have step: "insert_loop j p b idx (iter + 1) (n_next nc) h
     = Some (a, h\<lparr>nodes := (nodes h)(b \<mapsto> nb\<lparr>n_next := n_next na\<rparr>),
                  lists := (lists h)(p \<mapsto> l\<lparr>l_size := l_size l + 1\<rparr>)\<rparr>)"
    using Cons.prems nc k by (intro Cons.IH) auto
  have "of_nat (length (c # cs)) \<noteq> (0 :: 32 word)"
    using Cons.prems(3) of_nat_32_eq_0 by (metis length_0_conv list.distinct(1))
  then have "idx \<noteq> iter + 1" using Cons.prems(4) by (auto simp: add.assoc)
  then show ?case using step nc k by (simp add: fun_upd_def)
qed

lemma list_insert_at:
  assumes ok: "lheap_ok h" and at: "list_at h p c ps" and d: "d \<noteq> NULL"
    and mem: "can_alloc h" and len: "Suc (length ps) < 2 ^ 32"
  shows "\<exists>h'. list_insert p d idx f h = Some (True, h')
           \<and> list_at h' p c (take (unat idx) ps @ brk h # drop (unat idx) ps)
           \<and> items (nodes h') (take (unat idx) ps @ brk h # drop (unat idx) ps)
               = take (unat idx) (items (nodes h) ps) @ (d, f) # drop (unat idx) (items (nodes h) ps)
           \<and> lheap_ok h' \<and> lframe h h' {p} (set ps)"
proof -
  obtain l where l: "lists h p = Some l" "l_comp l = c" "l_size l = of_nat (length ps)"
    and dist: "distinct ps"
    and ring: "ps \<noteq> [] \<Longrightarrow> l_head l = hd ps \<and> l_tail l = last ps \<and> path (nodes h) (hd ps) ps (hd ps)"
    using at by (auto simp: list_at_def)
  have p: "p \<noteq> NULL" using list_at_nonnull [OF ok at] .
  show ?thesis
  proof (cases "ps = [] \<or> idx = 0 \<or> length ps \<le> unat idx")
    case True
    have "l_head l \<noteq> NULL" if "ps \<noteq> []"
      using list_at_below [OF ok at, of "hd ps"] ring that by auto
    moreover have "l_size l \<le> idx \<longleftrightarrow> length ps \<le> unat idx"
      using l(3) len by (simp add: word_le_nat_alt unat_of_nat_32)
    ultimately show ?thesis
      using True l(1) p d list_append_at [OF assms, of f] list_prepend_at [OF assms, of f]
      by (cases "idx = 0 \<or> l_head l = NULL"; cases "ps = []") (auto simp: list_insert_def Let_def)
  next
    case False
    then have i: "0 < unat idx" "unat idx < length ps" by (auto simp: unat_gt_0)
    define cs a bs where "cs = take (unat idx - 1) ps" and "a = ps ! (unat idx - 1)"
      and "bs = drop (unat idx) ps"
    have ps: "ps = cs @ a # bs"
      using split_at_nth [of "unat idx - 1" ps] i by (simp add: cs_def a_def bs_def)
    have lcs: "Suc (length cs) = unat idx" using i by (simp add: cs_def)
    have bs: "bs \<noteq> []" using i by (simp add: bs_def)
    have td: "take (unat idx) ps = cs @ [a]" "drop (unat idx) ps = bs"
      using ps lcs [symmetric] by auto
    let ?b = "brk h"
    have fresh: "?b \<notin> set ps" using list_at_below [OF ok at] by auto
    obtain na where na: "nodes h a = Some na" and pa: "path (nodes h) (hd ps) cs a"
      and pb: "path (nodes h) (n_next na) bs (hd ps)"
      using ring False ps by auto
    have nx: "n_next na = hd bs" using path_head [OF pb bs] .
    then have pc: "path (nodes h) (hd ps) (cs @ [a]) (hd bs)" "path (nodes h) (hd bs) bs (hd ps)"
        "n_next na = hd bs"
      using pa pb na by auto
    let ?nb = "blank_node\<lparr>n_data := d, n_free := f, n_next := NULL\<rparr>"
    let ?h1 = "h\<lparr>allocs := Suc (allocs h), brk := brk h + 24, nodes := (nodes h)(?b \<mapsto> ?nb)\<rparr>"
    have idx: "idx = 0 + of_nat (length cs) + 1"
    proof -
      have "idx = of_nat (unat idx)" by simp
      then show ?thesis unfolding lcs [symmetric] by (simp add: add.commute)
    qed
    have k: "length cs < unat (l_size l)" "length cs < 2 ^ 32"
      using l(3) len lcs i by (simp_all add: unat_of_nat_32)
    have "path (nodes ?h1) (hd ps) (cs @ [a]) (hd bs)" using pc fresh ps by auto
    then have loop: "insert_loop (unat (l_size l)) p ?b idx 0 (hd ps) ?h1
       = Some (a, ?h1\<lparr>nodes := (nodes ?h1)(?b \<mapsto> ?nb\<lparr>n_next := n_next na\<rparr>),
                      lists := (lists ?h1)(p \<mapsto> l\<lparr>l_size := l_size l + 1\<rparr>)\<rparr>)"
      using k idx l(1) na fresh ps by (intro insert_loop_eval) auto
    have l1: "lists h p = Some l" "l_head l = hd ps" "\<not> (idx = 0 \<or> hd ps = NULL)" "\<not> l_size l \<le> idx"
      using l ring False i len list_at_below [OF ok at, of "hd ps"]
      by (auto simp: word_le_nat_alt unat_of_nat_32)
    let ?h2 = "?h1\<lparr>nodes := (nodes h)(?b \<mapsto> ?nb\<lparr>n_next := hd bs\<rparr>, a \<mapsto> na\<lparr>n_next := ?b\<rparr>),
                  lists := (lists h)(p \<mapsto> l\<lparr>l_size := l_size l + 1\<rparr>)\<rparr>"
    have run: "list_insert p d idx f h = Some (True, ?h2)"
      using l(1) l1 loop p d mem ok na fresh pc(3)
      by (auto simp: ps list_insert_def calloc_node_ok Let_def)
    have hd: "hd (cs @ a # brk h # bs) = hd ps" "last (cs @ a # brk h # bs) = last ps"
      using ps bs by (cases cs; simp)+
    have ab: "a \<noteq> ?b" "a \<notin> set cs" "a \<notin> set bs" using fresh dist ps by auto
    have "list_at ?h2 p c (cs @ a # ?b # bs)"
      using l ring False hd pc pa fresh dist ps len ab na unfolding list_at_def by auto
    moreover have "items (nodes ?h2) (cs @ a # ?b # bs) = items (nodes h) (cs @ [a]) @ (d, f) # items (nodes h) bs"
      using na ab fresh ps by (auto simp: node_item_def)
    moreover have "lheap_ok ?h2" "lframe h ?h2 {p} (set ps)"
      using ok na l(1) ps by (auto simp: lheap_ok_def lframe_def)
    ultimately show ?thesis unfolding td using run ps lcs [symmetric] by auto
  qed
qed

section \<open>The sequence-level specifications\<close>

lemma list_append_spec:
  assumes "lheap_ok h" "lrep h p c A xs" "d \<noteq> NULL" "can_alloc h" "Suc (length xs) < 2 ^ 32"
  shows "\<exists>h'. list_append p d f h = Some (True, h') \<and> lrep h' p c (insert (brk h) A) (xs @ [(d, f)])
           \<and> lheap_ok h' \<and> lframe h h' {p} A"
proof -
  obtain ps where at: "list_at h p c ps" "A = set ps" "xs = items (nodes h) ps" "\<forall>x \<in> set xs. fst x \<noteq> NULL"
    using assms(2) by (auto simp: lrep_def)
  then have "Suc (length ps) < 2 ^ 32" using assms(5) by simp
  from list_append_at [OF assms(1) at(1) assms(3,4) this, of f] at assms(3) show ?thesis
    unfolding lrep_def by (elim exE) (rule exI, auto intro!: exI [of _ "ps @ [brk h]"])
qed

lemma list_prepend_spec:
  assumes "lheap_ok h" "lrep h p c A xs" "d \<noteq> NULL" "can_alloc h" "Suc (length xs) < 2 ^ 32"
  shows "\<exists>h'. list_prepend p d f h = Some (True, h') \<and> lrep h' p c (insert (brk h) A) ((d, f) # xs)
           \<and> lheap_ok h' \<and> lframe h h' {p} A"
proof -
  obtain ps where at: "list_at h p c ps" "A = set ps" "xs = items (nodes h) ps" "\<forall>x \<in> set xs. fst x \<noteq> NULL"
    using assms(2) by (auto simp: lrep_def)
  then have "Suc (length ps) < 2 ^ 32" using assms(5) by simp
  from list_prepend_at [OF assms(1) at(1) assms(3,4) this, of f] at assms(3) show ?thesis
    unfolding lrep_def by (elim exE) (rule exI, auto intro!: exI [of _ "brk h # ps"])
qed

lemma list_insert_spec:
  assumes "lheap_ok h" "lrep h p c A xs" "d \<noteq> NULL" "can_alloc h" "Suc (length xs) < 2 ^ 32"
  shows "\<exists>h'. list_insert p d idx f h = Some (True, h')
           \<and> lrep h' p c (insert (brk h) A) (take (unat idx) xs @ (d, f) # drop (unat idx) xs)
           \<and> lheap_ok h' \<and> lframe h h' {p} A"
proof -
  obtain ps where at: "list_at h p c ps" "A = set ps" "xs = items (nodes h) ps" "\<forall>x \<in> set xs. fst x \<noteq> NULL"
    using assms(2) by (auto simp: lrep_def)
  let ?qs = "take (unat idx) ps @ brk h # drop (unat idx) ps"
  have "set (take (unat idx) ps) \<union> set (drop (unat idx) ps) = set ps"
    by (metis append_take_drop_id set_append)
  then have s: "set ?qs = insert (brk h) (set ps)" by auto
  have nn: "\<forall>x \<in> set (take (unat idx) xs @ (d, f) # drop (unat idx) xs). fst x \<noteq> NULL"
    using at(4) assms(3) by (auto dest: in_set_takeD in_set_dropD)
  have "Suc (length ps) < 2 ^ 32" using assms(5) at(3) by simp
  from list_insert_at [OF assms(1) at(1) assms(3,4) this, of idx f] at(2,3) s nn show ?thesis
    unfolding lrep_def by (metis (no_types, lifting))
qed

text \<open>What the insertions report when they cannot insert.\<close>

lemma list_add_null [simp]:
  "list_append NULL d f h = Some (False, h)" "list_append p NULL f h = Some (False, h)"
  "list_prepend NULL d f h = Some (False, h)" "list_prepend p NULL f h = Some (False, h)"
  "list_insert NULL d idx f h = Some (False, h)" "list_insert p NULL idx f h = Some (False, h)"
  by (simp_all add: list_append_def list_prepend_def list_insert_def)

lemma list_add_oom:
  assumes "p \<noteq> NULL" "d \<noteq> NULL" "\<not> can_alloc h"
  shows "list_append p d f h = Some (False, h\<lparr>allocs := Suc (allocs h)\<rparr>)"
    and "list_prepend p d f h = Some (False, h\<lparr>allocs := Suc (allocs h)\<rparr>)"
    and "lists h p = Some l \<Longrightarrow> list_insert p d idx f h = Some (False, h\<lparr>allocs := Suc (allocs h)\<rparr>)"
  using assms
  by (auto simp: list_append_def list_prepend_def list_insert_def calloc_node_oom Let_def)

end
