(* ===== verification/CListRemove.thy ===== *)
theory CListRemove
  imports CListInsert
begin

text \<open>
  Removal and lookup of list.c: pop at either end, removal by index and by value, indexing and
  the search for the first occurrence, each as the operation on the represented sequence.
\<close>

lemma list_atE:
  assumes "list_at h p c ps"
  obtains l where "lists h p = Some l" "l_comp l = c" "l_size l = of_nat (length ps)"
    "length ps < 2 ^ 32" "distinct ps"
    "ps \<noteq> [] \<Longrightarrow> l_head l = hd ps \<and> l_tail l = last ps \<and> path (nodes h) (hd ps) ps (hd ps)"
  using assms by (auto simp: list_at_def)

lemma size_nonzero:
  "l_size l = of_nat (length ps) \<Longrightarrow> length ps < 2 ^ 32 \<Longrightarrow> sint (l_size l) = 0 \<longleftrightarrow> ps = []"
  by (simp add: sint_eq_0_iff of_nat_32_eq_0)

text \<open>Taking a node out of the middle, after its predecessor \<open>a\<close>.\<close>

lemma unlink_at:
  assumes ok: "lheap_ok h" and at: "list_at h p c (cs @ a # t # bs)" and bs: "bs \<noteq> []"
    and na: "nodes h a = Some na" and nt: "nodes h t = Some nt" and l: "lists h p = Some l"
  defines "h' \<equiv> h\<lparr>nodes := (nodes h)(a \<mapsto> na\<lparr>n_next := n_next nt\<rparr>, t := None),
                  lists := (lists h)(p \<mapsto> l\<lparr>l_size := l_size l - 1\<rparr>)\<rparr>"
  shows "list_at h' p c (cs @ a # bs) \<and> items (nodes h') (cs @ a # bs) = items (nodes h) (cs @ a # bs)
       \<and> lheap_ok h' \<and> lframe h h' {p} (set (cs @ a # t # bs))"
proof -
  let ?ps = "cs @ a # t # bs"
  have l': "l_comp l = c" "l_size l = of_nat (length ?ps)" "length ?ps < 2 ^ 32" "distinct ?ps"
    "l_head l = hd ?ps \<and> l_tail l = last ?ps \<and> path (nodes h) (hd ?ps) ?ps (hd ?ps)"
    using at l by (simp_all add: list_at_def)
  have pa: "path (nodes h) (hd ?ps) cs a" "path (nodes h) (n_next nt) bs (hd ?ps)"
    using l'(5) na nt by auto
  have hd: "hd (cs @ a # bs) = hd ?ps" "last (cs @ a # bs) = last ?ps"
    using bs by (cases cs; simp)+
  have "path (nodes h') (hd ?ps) cs a" "path (nodes h') (n_next nt) bs (hd ?ps)"
    using pa l'(4) by (simp_all add: h'_def)
  moreover have "nodes h' a = Some (na\<lparr>n_next := n_next nt\<rparr>)"
    using l'(4) by (simp add: h'_def)
  ultimately have "path (nodes h') (hd ?ps) (cs @ a # bs) (hd ?ps)" by auto
  moreover have "distinct (cs @ a # bs)" "length (cs @ a # bs) < 2 ^ 32" using l'(3,4) by auto
  moreover have "lists h' p = Some (l\<lparr>l_size := of_nat (length (cs @ a # bs))\<rparr>)"
    using l'(2) by (simp add: h'_def)
  ultimately have "list_at h' p c (cs @ a # bs)"
    unfolding list_at_def using l'(1,5) hd by simp
  moreover have "items (nodes h') (cs @ a # bs) = items (nodes h) (cs @ a # bs)"
    using l'(4) na by (auto simp: h'_def node_item_def)
  moreover have "lheap_ok h'" "lframe h h' {p} (set ?ps)"
    using ok na l by (auto simp: h'_def lheap_ok_def lframe_def)
  ultimately show ?thesis by blast
qed

section \<open>\<open>list_pop_head\<close> and \<open>list_pop_tail\<close>\<close>

lemma list_pop_head_at:
  assumes ok: "lheap_ok h" and at: "list_at h p c (a # as)"
  shows "\<exists>h'. list_pop_head p h = Some (fst (node_item (nodes h) a), h') \<and> list_at h' p c as
           \<and> items (nodes h') as = items (nodes h) as \<and> nodes h' a = None
           \<and> lheap_ok h' \<and> lframe h h' {p} (insert a (set as))"
proof -
  obtain l where l: "lists h p = Some l" "l_comp l = c" "l_size l = of_nat (length (a # as))"
    "length (a # as) < 2 ^ 32" "distinct (a # as)" "l_head l = a" "l_tail l = last (a # as)"
    and path: "path (nodes h) a (a # as) a"
    by (rule list_atE [OF at]) auto
  obtain na where na: "nodes h a = Some na" "path (nodes h) (n_next na) as a"
    using path by auto
  have p: "p \<noteq> NULL" and a0: "a \<noteq> NULL"
    using list_at_nonnull [OF ok at] list_at_below [OF ok at, of a] by auto
  have sz: "sint (l_size l) \<noteq> 0" using size_nonzero [OF l(3,4)] by simp
  show ?thesis
  proof (cases "as = []")
    case True
    then show ?thesis using l na p a0 sz ok
      by (auto simp: list_pop_head_def list_size_eq Let_def list_at_def lheap_ok_def lframe_def)
  next
    case False
    then obtain qs t where as: "as = qs @ [t]" by (metis rev_exhaust)
    obtain nt where nt: "nodes h t = Some nt" "path (nodes h) (n_next na) qs t" "n_next nt = a"
      using na(2) as by auto
    have hd: "n_next na = hd as" using path_head [OF na(2) False] .
    let ?h' = "h\<lparr>nodes := (nodes h)(t \<mapsto> nt\<lparr>n_next := hd as\<rparr>, a := None),
                 lists := (lists h)(p \<mapsto> l\<lparr>l_head := hd as, l_size := l_size l - 1\<rparr>)\<rparr>"
    have run: "list_pop_head p h = Some (n_data na, ?h')"
      using l na p a0 sz nt hd as by (auto simp: list_pop_head_def list_size_eq Let_def)
    have "list_at ?h' p c as" using l nt hd as unfolding list_at_def by auto
    moreover have "items (nodes ?h') as = items (nodes h) as"
      using l(5) nt as by (auto simp: node_item_def)
    moreover have "lheap_ok ?h'" "lframe h ?h' {p} (insert a (set as))"
      using ok nt l(1) as by (auto simp: lheap_ok_def lframe_def)
    ultimately show ?thesis using run na(1) by auto
  qed
qed

lemma pop_tail_loop_eval:
  assumes "path (nodes h) cur (cs @ [a]) t" "length cs < k" "t \<notin> set (tl (cs @ [a]))"
    and "nodes h a = Some na" "nodes h t = Some nt" "lists h p = Some l" "l_tail l = t" "t \<noteq> NULL"
  shows "pop_tail_loop k p cur h
     = Some (n_data nt, h\<lparr>nodes := (nodes h)(a \<mapsto> na\<lparr>n_next := l_head l\<rparr>, t := None),
                         lists := (lists h)(p \<mapsto> l\<lparr>l_tail := a, l_size := l_size l - 1\<rparr>)\<rparr>)"
  using assms
proof (induction cs arbitrary: k cur)
  case Nil
  then obtain j where "k = Suc j" by (cases k) auto
  with Nil show ?case
    by (cases "a = t") (auto simp: Let_def fun_eq_iff intro!: list_heap.equality)
next
  case (Cons c cs)
  obtain j where k: "k = Suc j" using Cons.prems(2) by (cases k) auto
  obtain nc where nc: "nodes h c = Some nc" "cur = c" "path (nodes h) (n_next nc) (cs @ [a]) t"
    using Cons.prems(1) by auto
  have "n_next nc = hd (cs @ [a])" using path_head [OF nc(3)] by simp
  then have "n_next nc \<noteq> t" using Cons.prems(3) by (cases cs) auto
  moreover have "t \<notin> set (tl (cs @ [a]))" using Cons.prems(3) by (cases cs) auto
  then have "pop_tail_loop j p (n_next nc) h
     = Some (n_data nt, h\<lparr>nodes := (nodes h)(a \<mapsto> na\<lparr>n_next := l_head l\<rparr>, t := None),
                         lists := (lists h)(p \<mapsto> l\<lparr>l_tail := a, l_size := l_size l - 1\<rparr>)\<rparr>)"
    using Cons.prems nc k by (intro Cons.IH) auto
  ultimately show ?case using nc k Cons.prems by (simp add: fun_upd_def)
qed

lemma list_pop_tail_at:
  assumes ok: "lheap_ok h" and at: "list_at h p c (as @ [t])"
  shows "\<exists>h'. list_pop_tail p h = Some (fst (node_item (nodes h) t), h') \<and> list_at h' p c as
           \<and> items (nodes h') as = items (nodes h) as \<and> nodes h' t = None
           \<and> lheap_ok h' \<and> lframe h h' {p} (set (as @ [t]))"
proof -
  let ?ps = "as @ [t]"
  obtain l where l: "lists h p = Some l" "l_comp l = c" "l_size l = of_nat (length ?ps)"
    "length ?ps < 2 ^ 32" "distinct ?ps" "l_head l = hd ?ps" "l_tail l = t"
    and path: "path (nodes h) (hd ?ps) ?ps (hd ?ps)"
    by (rule list_atE [OF at]) auto
  obtain nt where nt: "nodes h t = Some nt" "path (nodes h) (hd ?ps) as t" "n_next nt = hd ?ps"
    using path by auto
  have p: "p \<noteq> NULL" and t0: "t \<noteq> NULL"
    using list_at_nonnull [OF ok at] list_at_below [OF ok at, of t] by auto
  have sz: "sint (l_size l) \<noteq> 0" and k: "length as < unat (l_size l)"
    using size_nonzero [OF l(3,4)] unat_of_nat_32 [OF l(4)] l(3) by simp_all
  show ?thesis
  proof (cases "as = []")
    case True
    then have loop: "pop_tail_loop (unat (l_size l)) p (hd ?ps) h
       = Some (n_data nt, h\<lparr>nodes := (nodes h)(t \<mapsto> nt\<lparr>n_next := l_head l\<rparr>, t := None),
                           lists := (lists h)(p \<mapsto> l\<lparr>l_tail := t, l_size := l_size l - 1\<rparr>)\<rparr>)"
      using k nt l t0 by (intro pop_tail_loop_eval [where cs = "[]"]) auto
    then show ?thesis using True l nt p sz ok
      by (auto simp: list_pop_tail_def list_size_eq list_at_def lheap_ok_def lframe_def)
  next
    case False
    then obtain qs b where as: "as = qs @ [b]" by (metis rev_exhaust)
    obtain nb where nb: "nodes h b = Some nb" "path (nodes h) (hd ?ps) qs b" "n_next nb = t"
      using nt(2) as by auto
    have bt: "b \<noteq> t" "t \<notin> set qs" "b \<notin> set qs" using l(5) as by auto
    have hd: "hd ?ps = hd as" using False by simp
    let ?h' = "h\<lparr>nodes := (nodes h)(b \<mapsto> nb\<lparr>n_next := hd as\<rparr>, t := None),
                 lists := (lists h)(p \<mapsto> l\<lparr>l_tail := b, l_size := l_size l - 1\<rparr>)\<rparr>"
    have "t \<notin> set (tl (qs @ [b]))" using bt by (cases qs) auto
    moreover have "path (nodes h) (hd ?ps) (qs @ [b]) t" using nb by auto
    moreover have "length qs < unat (l_size l)" using k as by simp
    moreover have "l_head l = hd as" using l(6) hd by simp
    ultimately have "pop_tail_loop (unat (l_size l)) p (hd ?ps) h = Some (n_data nt, ?h')"
      using pop_tail_loop_eval [of h "hd ?ps" qs b t _ nb nt] nb(1) nt(1) l(1,7) t0 by simp
    then have run: "list_pop_tail p h = Some (n_data nt, ?h')"
      using l p sz by (auto simp: list_pop_tail_def list_size_eq)
    have "list_at ?h' p c as" using l nb hd as bt unfolding list_at_def by auto
    moreover have "items (nodes ?h') as = items (nodes h) as"
      using bt nb as by (auto simp: node_item_def)
    moreover have "lheap_ok ?h'" "lframe h ?h' {p} (set ?ps)"
      using ok nb l(1) as by (auto simp: lheap_ok_def lframe_def)
    ultimately show ?thesis using run nt(1) bt by auto
  qed
qed

end
