(* ===== verification/CListLookup.thy ===== *)
theory CListLookup
  imports CListRemove
begin

text \<open>
  Removal at an index or by value, indexing and the search for the first occurrence of
  list.c, and the sequence-level specifications of all removals.
\<close>

section \<open>\<open>list_index\<close>\<close>

lemma index_loop_eval:
  assumes "path (nodes h) cur ps q" "length ps < 2 ^ 32" "unat iter + length ps \<le> Suc (unat idx)"
    and "unat idx < unat iter + length ps \<or> ps = []"
  shows "index_loop (length ps) idx iter cur v h
    = Some (if ps = [] then v else fst (node_item (nodes h) (last ps)))"
  using assms
proof (induction ps arbitrary: cur iter v)
  case Nil
  then show ?case by simp
next
  case (Cons a as)
  obtain n where n: "nodes h a = Some n" "cur = a" "path (nodes h) (n_next n) as q"
    using Cons.prems(1) by auto
  show ?case
  proof (cases "as = []")
    case True
    then have "idx = iter" using Cons.prems(3,4) by (simp add: word_unat_eq_iff)
    with True n show ?thesis by simp
  next
    case False
    then have "Suc (unat iter) < 2 ^ 32"
      using Cons.prems(3) unat_less_32 [of idx] by (cases as) auto
    then have u: "unat (iter + 1) = Suc (unat iter)" by (rule unat_add_1_32)
    have "idx \<noteq> iter" using Cons.prems(4) False Cons.prems(3) by (cases as) auto
    then show ?thesis
      using n False Cons.prems u Cons.IH [of "n_next n" "iter + 1" v] by simp
  qed
qed

lemma list_index_spec:
  assumes ok: "lheap_ok h" and rep: "lrep h p c A xs"
  shows "list_index p idx h = Some (if unat idx < length xs then fst (xs ! unat idx) else NULL)"
proof -
  obtain ps where at: "list_at h p c ps" "xs = items (nodes h) ps" using rep by (auto simp: lrep_def)
  obtain l where l0: "lists h p = Some l" "l_comp l = c" "l_size l = of_nat (length ps)" "length ps < 2 ^ 32"
    "distinct ps" "ps \<noteq> [] \<Longrightarrow> l_head l = hd ps \<and> l_tail l = last ps \<and> path (nodes h) (hd ps) ps (hd ps)"
    by (rule list_atE [OF at(1)]) auto
  note l = l0(1,3,4,6)
  have p: "p \<noteq> NULL" using lrep_nonnull [OF ok rep] .
  have le: "l_size l \<le> idx \<longleftrightarrow> length ps \<le> unat idx"
    using l(2,3) by (simp add: word_le_nat_alt unat_of_nat_32)
  show ?thesis
  proof (cases "unat idx < length ps")
    case True
    let ?qs = "take (Suc (unat idx)) ps"
    have q: "length ?qs = Suc (unat idx)" "last ?qs = ps ! unat idx"
      using True by (simp_all add: take_Suc_conv_app_nth)
    have "?qs @ drop (Suc (unat idx)) ps = ps" by simp
    then obtain r where "path (nodes h) (hd ps) ?qs r"
      using l(4) True path_append by (metis list.size(3) not_less_zero)
    then have "index_loop (length ?qs) idx 0 (hd ps) NULL h
       = Some (if ?qs = [] then NULL else fst (node_item (nodes h) (last ?qs)))"
      using q(1) l(3) True by (intro index_loop_eval) simp_all
    moreover have "l_head l = hd ps" using l(4) True by (cases ps) auto
    moreover have "?qs \<noteq> []" using True by auto
    ultimately show ?thesis
      using True l p le q at(2) by (simp add: list_index_def del: index_loop.simps)
  next
    case False
    then show ?thesis using l p le at(2) by (simp add: list_index_def)
  qed
qed

section \<open>\<open>list_first_occurrence\<close>\<close>

text \<open>
  The index of the first element satisfying \<open>P\<close>, the length of the list when there is none.
\<close>

definition first_index :: "('a \<Rightarrow> bool) \<Rightarrow> 'a list \<Rightarrow> nat" where
  "first_index P xs = length (takeWhile (\<lambda>x. \<not> P x) xs)"

lemma first_index_simps [simp]:
  "first_index P [] = 0"
  "first_index P (x # xs) = (if P x then 0 else Suc (first_index P xs))"
  by (simp_all add: first_index_def)

lemma first_index_less: "first_index P xs < length xs \<longleftrightarrow> (\<exists>x \<in> set xs. P x)"
  by (induction xs) auto

lemma first_index_nth: "\<exists>x \<in> set xs. P x \<Longrightarrow> P (xs ! first_index P xs)"
  by (induction xs) auto

lemma first_index_before: "i < first_index P xs \<Longrightarrow> \<not> P (xs ! i)"
proof (induction xs arbitrary: i)
  case Nil
  then show ?case by simp
next
  case (Cons x xs)
  then show ?case by (cases i) (auto split: if_splits)
qed

lemma first_index_le: "first_index P xs \<le> length xs"
  by (induction xs) auto

text \<open>The outcome of the comparison of each element with the item, when all of them return.\<close>

definition cmp_total ::
  "'z cmp_call \<Rightarrow> fptr \<Rightarrow> ptr \<Rightarrow> 'z list_heap_scheme \<Rightarrow> (ptr \<times> fptr) list \<Rightarrow> bool" where
  "cmp_total call_cmp c item h xs \<longleftrightarrow> (\<forall>x \<in> set xs. call_cmp c (fst x) item h \<noteq> None)"

definition cmp_eq ::
  "'z cmp_call \<Rightarrow> fptr \<Rightarrow> ptr \<Rightarrow> 'z list_heap_scheme \<Rightarrow> ptr \<times> fptr \<Rightarrow> bool" where
  "cmp_eq call_cmp c item h x \<longleftrightarrow> call_cmp c (fst x) item h = Some 0"

lemma first_occurrence_loop_eval:
  assumes "path (nodes h) cur ps q" "cmp_total call_cmp c item h (items (nodes h) ps)"
  shows "first_occurrence_loop call_cmp c (length ps) item iter cur h
    = (let i = first_index (cmp_eq call_cmp c item h) (items (nodes h) ps)
       in Some (if i < length ps then sint (iter + of_nat i) else -1))"
  using assms
proof (induction ps arbitrary: cur iter)
  case Nil
  then show ?case by simp
next
  case (Cons a as)
  obtain n where n: "nodes h a = Some n" "cur = a" "path (nodes h) (n_next n) as q"
    using Cons.prems(1) by auto
  obtain v where v: "call_cmp c (n_data n) item h = Some v"
    using Cons.prems(2) n by (auto simp: cmp_total_def)
  show ?case
  proof (cases "v = 0")
    case True
    then show ?thesis using n v by (simp add: cmp_eq_def)
  next
    case False
    then have "first_occurrence_loop call_cmp c (length (a # as)) item iter cur h
      = first_occurrence_loop call_cmp c (length as) item (iter + 1) (n_next n) h"
      using n v by simp
    moreover have "first_occurrence_loop call_cmp c (length as) item (iter + 1) (n_next n) h
      = (let i = first_index (cmp_eq call_cmp c item h) (items (nodes h) as)
       in Some (if i < length as then sint (iter + 1 + of_nat i) else -1))"
      using n Cons.prems(2) by (intro Cons.IH) (simp_all add: cmp_total_def)
    moreover have "\<not> cmp_eq call_cmp c item h (n_data n, n_free n)"
      using False v by (simp add: cmp_eq_def)
    ultimately show ?thesis using n by (simp add: Let_def add.assoc)
  qed
qed

lemma list_first_occurrence_spec:
  assumes ok: "lheap_ok h" and rep: "lrep h p c A xs" and "c \<noteq> NULL" "item \<noteq> NULL"
    and tot: "cmp_total call_cmp c item h xs"
  shows "list_first_occurrence call_cmp p item h
    = (let i = first_index (cmp_eq call_cmp c item h) xs
       in Some (if i < length xs then sint (of_nat i :: 32 word) else -1))"
proof -
  obtain ps where at: "list_at h p c ps" "xs = items (nodes h) ps" using rep by (auto simp: lrep_def)
  obtain l where l: "lists h p = Some l" "l_comp l = c" "l_size l = of_nat (length ps)" "length ps < 2 ^ 32"
    "distinct ps" "ps \<noteq> [] \<Longrightarrow> l_head l = hd ps \<and> l_tail l = last ps \<and> path (nodes h) (hd ps) ps (hd ps)"
    by (rule list_atE [OF at(1)]) auto
  have p: "p \<noteq> NULL" using lrep_nonnull [OF ok rep] .
  have u: "unat (l_size l) = length ps" using l(3,4) by (simp only: unat_of_nat_32)
  show ?thesis
  proof (cases "ps = []")
    case True
    then show ?thesis using l assms(3,4) p at by (simp add: list_first_occurrence_def)
  next
    case False
    then have "path (nodes h) (l_head l) ps (hd ps)" using l(6) by auto
    from first_occurrence_loop_eval [OF this, of call_cmp c item 0] tot at(2) show ?thesis
      using u l(1-4) assms(3,4) p by (simp add: list_first_occurrence_def Let_def)
  qed
qed

section \<open>Removal\<close>

lemma lrepE:
  assumes "lrep h p c A xs"
  obtains ps where "list_at h p c ps" "A = set ps" "xs = items (nodes h) ps" "\<forall>y \<in> set xs. fst y \<noteq> NULL"
  using assms unfolding lrep_def by auto

text \<open>The specifications of the two pops on the represented sequence.\<close>

lemma list_pop_head_spec:
  assumes ok: "lheap_ok h" and rep: "lrep h p c A (x # xs)"
  shows "\<exists>h' a. list_pop_head p h = Some (fst x, h') \<and> a \<in> A \<and> lrep h' p c (A - {a}) xs
           \<and> nodes h' a = None \<and> lheap_ok h' \<and> lframe h h' {p} A"
proof -
  obtain ps where at: "list_at h p c ps" "A = set ps" "x # xs = items (nodes h) ps"
      "\<forall>y \<in> set (x # xs). fst y \<noteq> NULL"
    by (rule lrepE [OF rep])
  then obtain a as where ps: "ps = a # as" by (cases ps) auto
  have "a \<notin> set as" using at(1) ps by (auto simp: list_at_def)
  then have "A - {a} = set as" using at(2) ps by auto
  moreover from list_pop_head_at [OF ok at(1) [unfolded ps]] obtain h' where
    "list_pop_head p h = Some (fst (node_item (nodes h) a), h')" "list_at h' p c as"
    "items (nodes h') as = items (nodes h) as" "nodes h' a = None" "lheap_ok h'"
    "lframe h h' {p} (insert a (set as))" by blast
  ultimately show ?thesis using at ps unfolding lrep_def by (intro exI [of _ h'] exI [of _ a]) auto
qed

lemma list_pop_tail_spec:
  assumes ok: "lheap_ok h" and rep: "lrep h p c A (xs @ [x])"
  shows "\<exists>h' a. list_pop_tail p h = Some (fst x, h') \<and> a \<in> A \<and> lrep h' p c (A - {a}) xs
           \<and> nodes h' a = None \<and> lheap_ok h' \<and> lframe h h' {p} A"
proof -
  obtain ps where at: "list_at h p c ps" "A = set ps" "xs @ [x] = items (nodes h) ps"
      "\<forall>y \<in> set (xs @ [x]). fst y \<noteq> NULL"
    by (rule lrepE [OF rep])
  then obtain a as where ps: "ps = as @ [a]" by (cases ps rule: rev_cases) auto
  have "a \<notin> set as" using at(1) ps by (auto simp: list_at_def)
  then have "A - {a} = set as" using at(2) ps by auto
  moreover from list_pop_tail_at [OF ok at(1) [unfolded ps]] obtain h' where
    "list_pop_tail p h = Some (fst (node_item (nodes h) a), h')" "list_at h' p c as"
    "items (nodes h') as = items (nodes h) as" "nodes h' a = None" "lheap_ok h'"
    "lframe h h' {p} (set (as @ [a]))" by blast
  ultimately show ?thesis using at ps unfolding lrep_def by (intro exI [of _ h'] exI [of _ a]) auto
qed

lemma list_pops_empty:
  assumes "lheap_ok h" "lrep h p c A []"
  shows "list_pop_head p h = Some (NULL, h)" "list_pop_tail p h = Some (NULL, h)"
    "list_remove p idx h = Some (NULL, h)"
  using lrep_nonnull [OF assms] lrep_size_field [OF assms(2)]
  by (auto simp: list_pop_head_def list_pop_tail_def list_remove_def list_size_eq)

text \<open>
  Removal from the middle, shared by removal at an index and by value: the heap once \<open>a\<close> is
  linked past \<open>t\<close> and \<open>t\<close> is freed.
\<close>

abbreviation unlinked ::
  "'z list_heap_scheme \<Rightarrow> ptr \<Rightarrow> list_t \<Rightarrow> ptr \<Rightarrow> list_node_t \<Rightarrow> ptr \<Rightarrow> list_node_t
     \<Rightarrow> 'z list_heap_scheme" where
  "unlinked h p l a na t nt \<equiv>
     h\<lparr>nodes := (nodes h)(a \<mapsto> na\<lparr>n_next := n_next nt\<rparr>, t := None),
       lists := (lists h)(p \<mapsto> l\<lparr>l_size := l_size l - 1\<rparr>)\<rparr>"

lemma unlink_spec:
  assumes ok: "lheap_ok h" and at: "list_at h p c (cs @ a # t # bs)" and bs: "bs \<noteq> []"
    and na: "nodes h a = Some na" and nt: "nodes h t = Some nt" and l: "lists h p = Some l"
    and nn: "\<forall>y \<in> set (items (nodes h) (cs @ a # t # bs)). fst y \<noteq> NULL"
  defines "h' \<equiv> unlinked h p l a na t nt"
  shows "lrep h' p c (set (cs @ a # t # bs) - {t}) (items (nodes h) (cs @ a # bs))
       \<and> nodes h' t = None \<and> lheap_ok h' \<and> lframe h h' {p} (set (cs @ a # t # bs))"
proof -
  have "distinct (cs @ a # t # bs)" using at by (auto simp: list_at_def)
  then have "set (cs @ a # t # bs) - {t} = set (cs @ a # bs)" by auto
  then show ?thesis using unlink_at [OF ok at bs na nt l] nn
    unfolding lrep_def h'_def by (intro conjI exI [of _ "cs @ a # bs"]) auto
qed

lemma remove_loop_eval:
  assumes "path (nodes h) cur (cs @ [a]) t" "length cs < k" "length cs < 2 ^ 32"
    and "idx = iter + of_nat (length cs) + 1"
    and "nodes h a = Some na" "nodes h t = Some nt" "lists h p = Some l" "t \<noteq> NULL" "a \<noteq> t"
  shows "remove_loop k p idx iter cur h
     = Some (n_data nt, unlinked h p l a na t nt)"
  using assms
proof (induction cs arbitrary: k iter cur)
  case Nil
  then obtain j where "k = Suc j" by (cases k) auto
  with Nil show ?case by (auto simp: Let_def fun_eq_iff intro!: list_heap.equality)
next
  case (Cons c cs)
  obtain j where k: "k = Suc j" using Cons.prems(2) by (cases k) auto
  obtain nc where nc: "nodes h c = Some nc" "cur = c" "path (nodes h) (n_next nc) (cs @ [a]) t"
    using Cons.prems(1) by auto
  have step: "remove_loop j p idx (iter + 1) (n_next nc) h
     = Some (n_data nt, unlinked h p l a na t nt)"
    using Cons.prems nc k by (intro Cons.IH) auto
  have "of_nat (length (c # cs)) \<noteq> (0 :: 32 word)"
    using Cons.prems(3) of_nat_32_eq_0 by (metis length_0_conv list.distinct(1))
  then have "idx \<noteq> iter + 1" using Cons.prems(4) by (auto simp: add.assoc)
  then show ?case using step nc k by (simp add: fun_upd_def)
qed

text \<open>
  The nodes around position \<open>i\<close> when it is neither the first nor the last: \<open>a\<close> before \<open>t\<close>,
  which holds element \<open>i\<close>; and what removing \<open>t\<close> by relinking \<open>a\<close> gives.
\<close>

lemma middle_nodes:
  assumes ok: "lheap_ok h" and rep: "lrep h p c A xs" and i: "0 < i" "Suc i < length xs"
  obtains l cs a t na nt where "lists h p = Some l" "path (nodes h) (l_head l) (cs @ [a]) t"
    "Suc (length cs) = i" "nodes h a = Some na" "nodes h t = Some nt" "t \<noteq> NULL" "a \<noteq> t"
    "items (nodes h) (cs @ [a]) = take i xs" "xs ! i = (n_data nt, n_free nt)" "t \<in> A"
    "lrep (unlinked h p l a na t nt)
       p c (A - {t}) (take i xs @ drop (Suc i) xs)"
    "lheap_ok (unlinked h p l a na t nt)"
    "lframe h (unlinked h p l a na t nt) {p} A"
proof -
  obtain l where l: "lists h p = Some l" using lrep_size_field [OF rep] by auto
  obtain ps where at: "list_at h p c ps" "A = set ps" "xs = items (nodes h) ps"
      "\<forall>y \<in> set xs. fst y \<noteq> NULL"
    by (rule lrepE [OF rep])
  define cs a t bs where "cs = take (i - 1) ps" and "a = ps ! (i - 1)" and "t = ps ! i"
    and "bs = drop (Suc i) ps"
  have i': "0 < i" "Suc i < length ps" using i at(3) by auto
  have ps: "ps = cs @ a # t # bs" and cs: "Suc (length cs) = i"
    using i' split_at_nth [of "i - 1" ps] Cons_nth_drop_Suc [of i ps]
    by (auto simp: cs_def a_def t_def bs_def)
  have bs: "bs \<noteq> []" using i' by (simp add: bs_def)
  obtain na nt where n: "nodes h a = Some na" "nodes h t = Some nt"
      and path: "path (nodes h) (l_head l) (cs @ [a]) t"
    using at(1) l ps by (auto simp: list_at_def)
  have t: "t \<noteq> NULL" "a \<noteq> t"
    using list_at_below [OF ok at(1), of t] at(1) ps by (auto simp: list_at_def)
  have nn: "\<forall>y \<in> set (items (nodes h) (cs @ a # t # bs)). fst y \<noteq> NULL"
    using at(3,4) unfolding ps by simp
  have e: "items (nodes h) (cs @ [a]) = take i xs" "xs ! i = (n_data nt, n_free nt)"
    "take i xs @ drop (Suc i) xs = items (nodes h) (cs @ a # bs)" "t \<in> A"
    using at(2) n unfolding at(3) ps cs [symmetric] by (simp_all add: nth_append)
  show thesis
    using that [OF l path cs n t e(1,2,4)] unlink_spec [OF ok at(1) [unfolded ps] bs n l nn] e(3)
      at(2) ps by simp
qed

lemma list_remove_spec:
  assumes ok: "lheap_ok h" and rep: "lrep h p c A xs"
  shows "if unat idx < length xs
    then \<exists>h' a. list_remove p idx h = Some (fst (xs ! unat idx), h') \<and> a \<in> A
           \<and> lrep h' p c (A - {a}) (take (unat idx) xs @ drop (Suc (unat idx)) xs)
           \<and> nodes h' a = None \<and> lheap_ok h' \<and> lframe h h' {p} A
    else list_remove p idx h = Some (NULL, h)"
proof -
  obtain l where l: "lists h p = Some l" "l_size l = of_nat (length xs)"
    using lrep_size_field [OF rep] by auto
  have p: "p \<noteq> NULL" using lrep_nonnull [OF ok rep] .
  have len: "length xs < 2 ^ 32" using lrep_length [OF rep] .
  have u: "unat (l_size l) = length xs" using l(2) len by (simp only: unat_of_nat_32)
  let ?i = "unat idx"
  show ?thesis
  proof (cases "xs = []")
    case True
    then show ?thesis using list_pops_empty [OF ok] rep by auto
  next
    case ne: False
    then have sz: "sint (l_size l) \<noteq> 0" using u by (auto simp: sint_eq_0_iff)
    have um: "unat (l_size l - 1) = length xs - 1"
    proof -
      have "l_size l \<noteq> 0" using sz by auto
      then show ?thesis by (simp add: unat_minus_one u)
    qed
    consider "idx = 0" | "idx \<noteq> 0" "?i = length xs - 1" | "length xs \<le> ?i" | "idx \<noteq> 0" "?i < length xs - 1"
      by linarith
    then show ?thesis
    proof cases
      case 1
      then show ?thesis using list_pop_head_spec [OF ok, of p c A "hd xs" "tl xs"] rep ne l sz p
        by (cases xs) (auto simp: list_remove_def list_size_eq)
    next
      case 2
      then have eq: "idx = l_size l - 1" using um by (simp add: word_unat_eq_iff)
      have bl: "butlast xs @ [last xs] = xs" using ne by simp
      have xs: "xs ! ?i = last xs" "take ?i xs = butlast xs" "?i < length xs"
        using ne 2 by (simp_all add: last_conv_nth butlast_conv_take)
      then have "lrep h p c A (butlast xs @ [last xs])" using rep bl by simp
      from list_pop_tail_spec [OF ok this] show ?thesis
        using 2 eq l sz p xs by (auto simp: list_remove_def list_size_eq)
    next
      case 3
      then have "idx \<noteq> 0" "idx \<noteq> l_size l - 1" "l_size l \<le> idx"
      proof -
        have "0 < length xs" using ne by simp
        then have "?i \<noteq> 0" "?i \<noteq> unat (l_size l - 1)" "unat (l_size l) \<le> ?i"
          using um u 3 by linarith+
        then show "idx \<noteq> 0" "idx \<noteq> l_size l - 1" "l_size l \<le> idx"
          by (auto simp: word_le_nat_alt)
      qed
      then show ?thesis using 3 l sz p by (simp add: list_remove_def list_size_eq)
    next
      case 4
      then have ne': "idx \<noteq> l_size l - 1" "\<not> l_size l \<le> idx"
        using um u 4 by (auto simp: word_le_nat_alt)
      have i: "0 < ?i" "Suc ?i < length xs" using 4 by (auto simp: unat_gt_0)
      obtain l cs a t na nt where m: "lists h p = Some l" "path (nodes h) (l_head l) (cs @ [a]) t"
          "Suc (length cs) = ?i" "nodes h a = Some na" "nodes h t = Some nt" "t \<noteq> NULL" "a \<noteq> t"
          "items (nodes h) (cs @ [a]) = take ?i xs" "xs ! ?i = (n_data nt, n_free nt)" "t \<in> A"
        and fin: "lrep (unlinked h p l a na t nt)
            p c (A - {t}) (take ?i xs @ drop (Suc ?i) xs)"
          "lheap_ok (unlinked h p l a na t nt)"
          "lframe h (unlinked h p l a na t nt) {p} A"
        by (rule middle_nodes [OF ok rep i])
      have idx: "idx = 0 + of_nat (length cs) + 1"
      proof -
        have "idx = of_nat ?i" by simp
        then show ?thesis unfolding m(3) [symmetric] by (simp add: add.commute)
      qed
      have "length cs < length xs" "length cs < 2 ^ 32" using m(3) 4 len by auto
      note loop = remove_loop_eval [OF m(2) this idx m(4,5,1,6,7)]
      show ?thesis using loop ne' u sz p m 4 fin \<open>lists h p = Some l\<close> l
        by (auto simp: list_remove_def list_size_eq intro!: exI [of _ t])
    qed
  qed
qed

section \<open>\<open>list_remove_val\<close>\<close>

lemma remove_val_loop_none:
  assumes "path (nodes h) cur (a # ps) q" "cmp_total call_cmp c item h (items (nodes h) ps)"
    and "\<forall>x \<in> set (items (nodes h) ps). \<not> cmp_eq call_cmp c item h x"
  shows "remove_val_loop call_cmp c (length ps) p item cur h = Some (NULL, h)"
  using assms
proof (induction ps arbitrary: cur a)
  case Nil
  then show ?case by simp
next
  case (Cons b bs)
  obtain na nb where n: "nodes h a = Some na" "cur = a" "n_next na = b" "nodes h b = Some nb"
      "path (nodes h) b (b # bs) q"
    using Cons.prems(1) by auto
  have "remove_val_loop call_cmp c (length bs) p item b h = Some (NULL, h)"
    using Cons.prems n(5) by (intro Cons.IH) (auto simp: cmp_total_def)
  then show ?case using n Cons.prems(2,3) by (auto simp: cmp_total_def cmp_eq_def Let_def)
qed

lemma remove_val_loop_eval:
  assumes "path (nodes h) cur (cs @ [a]) t" "length cs < k"
    and "cmp_total call_cmp c item h (items (nodes h) (cs @ [a]))"
    and "\<forall>x \<in> set (tl (items (nodes h) (cs @ [a]))). \<not> cmp_eq call_cmp c item h x"
    and "nodes h a = Some na" "nodes h t = Some nt" "lists h p = Some l" "t \<noteq> NULL" "a \<noteq> t"
    and "cmp_eq call_cmp c item h (n_data nt, n_free nt)"
  shows "remove_val_loop call_cmp c k p item cur h
     = Some (n_data nt, unlinked h p l a na t nt)"
  using assms
proof (induction cs arbitrary: k cur)
  case Nil
  then obtain j where "k = Suc j" by (cases k) auto
  with Nil show ?case
    by (auto simp: Let_def cmp_eq_def fun_eq_iff intro!: list_heap.equality)
next
  case (Cons b cs)
  obtain j where k: "k = Suc j" using Cons.prems(2) by (cases k) auto
  obtain nb where nb: "nodes h b = Some nb" "cur = b" "path (nodes h) (n_next nb) (cs @ [a]) t"
    using Cons.prems(1) by auto
  define d where "d = hd (cs @ [a])"
  have d: "n_next nb = d" "d \<in> set (cs @ [a])"
    using path_head [OF nb(3)] hd_in_set [of "cs @ [a]"] by (simp_all add: d_def del: set_append)
  obtain nd where nd: "nodes h d = Some nd" using path_mapped [OF nb(3) d(2)] by auto
  have "node_item (nodes h) d \<in> set (items (nodes h) (cs @ [a]))"
    using imageI [OF d(2), of "node_item (nodes h)"] by (simp only: set_map)
  then have "\<not> cmp_eq call_cmp c item h (node_item (nodes h) d)"
      "call_cmp c (fst (node_item (nodes h) d)) item h \<noteq> None"
    using Cons.prems(3,4) by (auto simp: cmp_total_def)
  moreover have "set (tl (items (nodes h) (cs @ [a]))) \<subseteq> set (items (nodes h) (cs @ [a]))"
    by (auto dest: in_set_tl)
  then have "remove_val_loop call_cmp c j p item (n_next nb) h
     = Some (n_data nt, unlinked h p l a na t nt)"
    using Cons.prems nb k by (intro Cons.IH) (auto simp: cmp_total_def)
  ultimately show ?case using nb nd d k by (auto simp: cmp_eq_def Let_def fun_upd_def)
qed

text \<open>
  The order in which \<open>list_remove_val\<close> looks for the item: the head, then the tail, then the
  others from the front.
\<close>

definition remove_val_index :: "('a \<Rightarrow> bool) \<Rightarrow> 'a list \<Rightarrow> nat" where
  "remove_val_index P xs =
     (if P (hd xs) then 0 else if P (last xs) then length xs - 1 else first_index P xs)"

lemma list_remove_val_spec:
  assumes ok: "lheap_ok h" and rep: "lrep h p c A xs" and ne: "xs \<noteq> []"
    and c: "c \<noteq> NULL" and item: "item \<noteq> NULL" and tot: "cmp_total call_cmp c item h xs"
  defines "P \<equiv> cmp_eq call_cmp c item h"
  defines "i \<equiv> remove_val_index P xs"
  shows "if \<exists>x \<in> set xs. P x
    then \<exists>h' a. list_remove_val call_cmp p item h = Some (fst (xs ! i), h') \<and> a \<in> A
           \<and> lrep h' p c (A - {a}) (take i xs @ drop (Suc i) xs)
           \<and> nodes h' a = None \<and> lheap_ok h' \<and> lframe h h' {p} A
    else list_remove_val call_cmp p item h = Some (NULL, h)"
proof -
  obtain ps where at: "list_at h p c ps" "A = set ps" "xs = items (nodes h) ps"
      "\<forall>y \<in> set xs. fst y \<noteq> NULL"
    by (rule lrepE [OF rep])
  have psne: "ps \<noteq> []" using ne at(3) by simp
  obtain l where l: "lists h p = Some l" "l_comp l = c" "l_size l = of_nat (length ps)"
      "length ps < 2 ^ 32" "distinct ps" "l_head l = hd ps" "l_tail l = last ps"
      and path: "path (nodes h) (hd ps) ps (hd ps)"
    by (rule list_atE [OF at(1)]) (use psne in auto)
  have p: "p \<noteq> NULL" using lrep_nonnull [OF ok rep] .
  obtain nh nl where n: "nodes h (hd ps) = Some nh" "nodes h (last ps) = Some nl"
    using path_mapped [OF path] psne by (metis hd_in_set last_in_set)
  have hl: "hd xs = (n_data nh, n_free nh)" "last xs = (n_data nl, n_free nl)"
    using n psne by (simp_all add: at(3) hd_map last_map)
  obtain c1 c2 where cc: "call_cmp c (n_data nh) item h = Some c1" "call_cmp c (n_data nl) item h = Some c2"
    using tot hl ne by (metis cmp_total_def fst_conv hd_in_set last_in_set not_Some_eq)
  have P12: "P (hd xs) \<longleftrightarrow> c1 = 0" "P (last xs) \<longleftrightarrow> c2 = 0" using cc hl by (simp_all add: P_def cmp_eq_def)
  show ?thesis
  proof (cases "c1 = 0")
    case True
    then have "i = 0" "\<exists>x \<in> set xs. P x" using P12 ne by (auto simp: i_def remove_val_index_def)
    moreover have "lrep h p c A (hd xs # tl xs)" using rep ne by simp
    from list_pop_head_spec [OF ok this] have "\<exists>h' a. list_remove_val call_cmp p item h = Some (fst (hd xs), h')
        \<and> a \<in> A \<and> lrep h' p c (A - {a}) (tl xs) \<and> nodes h' a = None \<and> lheap_ok h' \<and> lframe h h' {p} A"
      using True l n cc p c item by (simp add: list_remove_val_def)
    ultimately show ?thesis using ne by (simp add: hd_conv_nth drop_Suc)
  next
    case c1: False
    show ?thesis
    proof (cases "c2 = 0")
      case True
      then have "i = length xs - 1" "\<exists>x \<in> set xs. P x"
        using P12 ne c1 by (auto simp: i_def remove_val_index_def)
      moreover have "lrep h p c A (butlast xs @ [last xs])" using rep ne by simp
      from list_pop_tail_spec [OF ok this] have "\<exists>h' a. list_remove_val call_cmp p item h = Some (fst (last xs), h')
          \<and> a \<in> A \<and> lrep h' p c (A - {a}) (butlast xs) \<and> nodes h' a = None \<and> lheap_ok h' \<and> lframe h h' {p} A"
        using True c1 l n cc p c item by (simp add: list_remove_val_def)
      ultimately show ?thesis using ne by (simp add: last_conv_nth butlast_conv_take)
    next
      case c2: False
      have u: "unat (l_size l - 1) = length ps - 1"
        using l(3,4) psne of_nat_32_eq_0 [OF l(4)] by (simp add: unat_minus_one unat_of_nat_32)
      have run: "list_remove_val call_cmp p item h
          = remove_val_loop call_cmp c (length ps - 1) p item (hd ps) h"
        using c1 c2 l n cc p c item u by (simp add: list_remove_val_def)
      have i: "i = first_index P xs" using c1 c2 P12 by (simp add: i_def remove_val_index_def)
      show ?thesis
      proof (cases "\<exists>x \<in> set xs. P x")
        case False
        obtain a as where ps: "ps = a # as" using psne by (cases ps) auto
        have "remove_val_loop call_cmp c (length as) p item (hd ps) h = Some (NULL, h)"
          using path tot False unfolding ps at(3) P_def
          by (intro remove_val_loop_none [where q = a and a = a]) (auto simp: cmp_total_def)
        then show ?thesis using False run ps by simp
      next
        case True
        have Pi: "P (xs ! i)" and il: "i < length xs"
          using first_index_nth [OF True] True by (simp_all add: i first_index_less)
        have "i \<noteq> 0" "i \<noteq> length xs - 1"
          using Pi c1 c2 P12 ne by (metis hd_conv_nth, metis last_conv_nth)
        then have ii: "0 < i" "Suc i < length xs" using il by auto
        obtain l' cs a t na nt where m: "lists h p = Some l'" "path (nodes h) (l_head l') (cs @ [a]) t"
          "Suc (length cs) = i" "nodes h a = Some na" "nodes h t = Some nt" "t \<noteq> NULL" "a \<noteq> t"
          "items (nodes h) (cs @ [a]) = take i xs" "xs ! i = (n_data nt, n_free nt)" "t \<in> A"
          and fin: "lrep (unlinked h p l' a na t nt) p c (A - {t}) (take i xs @ drop (Suc i) xs)"
          "lheap_ok (unlinked h p l' a na t nt)" "lframe h (unlinked h p l' a na t nt) {p} A"
          by (rule middle_nodes [OF ok rep ii])
        have "\<not> P x" if x: "x \<in> set (take i xs)" for x
        proof -
          obtain j where "j < i" "x = xs ! j" using x il by (auto simp: in_set_conv_nth)
          then show ?thesis using first_index_before [of j P xs] i by simp
        qed
        then have "\<forall>x \<in> set (tl (take i xs)). \<not> P x" by (meson in_set_tl)
        moreover have "cmp_total call_cmp c item h (take i xs)"
          using tot by (auto simp: cmp_total_def dest: in_set_takeD)
        moreover have "length cs < length ps - 1" using m(3) ii at(3) by simp
        ultimately have "remove_val_loop call_cmp c (length ps - 1) p item (l_head l') h
            = Some (n_data nt, unlinked h p l' a na t nt)"
          using m(1,2,4-9) Pi unfolding P_def by (intro remove_val_loop_eval [where cs = cs]) simp_all
        then have "list_remove_val call_cmp p item h = Some (fst (xs ! i), unlinked h p l' a na t nt)"
          using run m(1,9) l(1,6) by simp
        then show ?thesis using True fin m(10) by (auto intro!: exI [of _ t])
      qed
    qed
  qed
qed

text \<open>
  On an empty list, \<open>list_remove_val\<close> reads the data of \<open>p_head\<close> before it looks at
  \<open>size\<close>: with \<open>p_head\<close> not a live node, as after \<open>list_create\<close>, this is undefined behaviour.
\<close>

lemma list_remove_val_dead_head:
  assumes "p \<noteq> NULL" "item \<noteq> NULL" "lists h p = Some l" "l_comp l \<noteq> NULL" "nodes h (l_head l) = None"
  shows "list_remove_val call_cmp p item h = None"
  using assms by (simp add: list_remove_val_def)

end
