(* ===== verification/CListSortSpec.thy ===== *)
theory CListSortSpec
  imports CListSort
begin

text \<open>
  The merge sort of list.c relinks the nodes of a chain in the order of \<open>msort\<close> and leaves data
  and free functions in place; \<open>list_merge_sort\<close> on a ring of two or more nodes gives a ring.
\<close>

text \<open>
  A comparison function that is total on the data \<open>D\<close> and whose result does not depend on the
  links between list nodes.
\<close>

definition cmp_fun ::
  "'z cmp_call \<Rightarrow> fptr \<Rightarrow> 'z list_heap_scheme \<Rightarrow> (ptr \<Rightarrow> ptr \<Rightarrow> int) \<Rightarrow> ptr set \<Rightarrow> bool" where
  "cmp_fun call_cmp c h f D \<longleftrightarrow>
     (\<forall>h' x y. list_heap.more h' = list_heap.more h \<longrightarrow> x \<in> D \<longrightarrow> y \<in> D
        \<longrightarrow> call_cmp c x y h' = Some (f x y))"

lemma cmp_fun_nodes [simp]:
  "cmp_fun call_cmp c (h\<lparr>nodes := m\<rparr>) f D = cmp_fun call_cmp c h f D"
  by (simp add: cmp_fun_def)

lemma cmp_funD: "cmp_fun call_cmp c h f D \<Longrightarrow> x \<in> D \<Longrightarrow> y \<in> D \<Longrightarrow> call_cmp c x y h = Some (f x y)"
  by (simp add: cmp_fun_def)

abbreviation data_of :: "(ptr \<rightharpoonup> list_node_t) \<Rightarrow> ptr \<Rightarrow> ptr" where
  "data_of m a \<equiv> fst (node_item m a)"

text \<open>\<open>m'\<close> is \<open>m\<close> with the links of the nodes in \<open>A\<close> changed.\<close>

definition relinked :: "ptr set \<Rightarrow> (ptr \<rightharpoonup> list_node_t) \<Rightarrow> (ptr \<rightharpoonup> list_node_t) \<Rightarrow> bool" where
  "relinked A m m' \<longleftrightarrow> (\<forall>a. a \<notin> A \<longrightarrow> m' a = m a)
     \<and> (\<forall>a. node_item m' a = node_item m a) \<and> dom m' = dom m"

lemma relinked_refl [simp]: "relinked A m m"
  by (simp add: relinked_def)

lemma relinked_other: "relinked A m m' \<Longrightarrow> a \<notin> A \<Longrightarrow> m' a = m a"
  by (simp add: relinked_def)

lemma relinked_trans: "relinked A m m' \<Longrightarrow> relinked B m' m'' \<Longrightarrow> A \<union> B \<subseteq> C \<Longrightarrow> relinked C m m''"
  unfolding relinked_def by (metis Un_iff subsetD)

lemma relinked_upd:
  "relinked A m m' \<Longrightarrow> m' a = Some n \<Longrightarrow> a \<in> A \<Longrightarrow> relinked A m (m'(a \<mapsto> n\<lparr>n_next := q\<rparr>))"
  by (auto simp: relinked_def)

lemma relinked_mapped: "relinked A m m' \<Longrightarrow> m a = Some n \<Longrightarrow> \<exists>n'. m' a = Some n'"
  by (auto simp: relinked_def)

lemma relinked_path: "relinked A m m' \<Longrightarrow> set ps \<inter> A = {} \<Longrightarrow> path m' p ps q = path m p ps q"
  by (rule path_cong) (auto simp: relinked_def)

lemma relinked_item: "relinked A m m' \<Longrightarrow> node_item m' a = node_item m a"
  by (simp add: relinked_def)

lemma last_node_eval:
  "path (nodes h) p ps NULL \<Longrightarrow> ps \<noteq> [] \<Longrightarrow> NULL \<notin> set ps \<Longrightarrow> last_node p h = Some (last ps)"
proof (induction ps arbitrary: p)
  case Nil
  then show ?case by simp
next
  case (Cons a as)
  then obtain n where n: "nodes h a = Some n" "p = a" "path (nodes h) (n_next n) as NULL" by auto
  show ?case
  proof (cases "as = []")
    case True
    with n show ?thesis by (simp add: last_node.simps)
  next
    case False
    have "n_next n = hd as" using path_head [OF n(3) False] .
    then have "n_next n \<noteq> NULL" using False Cons.prems(3) by (cases as) auto
    then show ?thesis using n False Cons by (subst last_node.simps) auto
  qed
qed

lemma merge_eval:
  assumes "path (nodes h) p ps NULL" "path (nodes h) q qs NULL" "distinct (ps @ qs)"
    and "NULL \<notin> set (ps @ qs)" "ps \<noteq> [] \<or> qs \<noteq> []"
    and "cmp_fun call_cmp c h f D" "data_of (nodes h) ` set (ps @ qs) \<subseteq> D"
  defines "rs \<equiv> amerge (\<lambda>a b. f (data_of (nodes h) a) (data_of (nodes h) b) \<le> 0) ps qs"
  shows "\<exists>m. merge call_cmp c p q tail h = Some (hd rs, last rs, h\<lparr>nodes := m\<rparr>)
     \<and> path m (hd rs) rs NULL \<and> relinked (set (ps @ qs)) (nodes h) m"
  using assms(1-7) unfolding rs_def
proof (induction "\<lambda>a b. f (data_of (nodes h) a) (data_of (nodes h) b) \<le> 0" ps qs arbitrary: p q
    rule: amerge.induct)
  case (1 qs)
  then have "p = NULL" "qs \<noteq> []" "q = hd qs" using path_head by auto
  moreover have "last_node q h = Some (last qs)" using 1 calculation(2) by (intro last_node_eval) auto
  ultimately show ?case using 1
    by (subst merge.simps) (auto intro!: exI [of _ "nodes h"])
next
  case (2 x xs)
  then have "q = NULL" "p = x" "x \<noteq> NULL" by auto
  moreover have "last_node p h = Some (last (x # xs))" using 2 by (intro last_node_eval) auto
  ultimately show ?case using 2
    by (subst merge.simps) (auto intro!: exI [of _ "nodes h"])
next
  case (3 x xs y ys)
  let ?le = "\<lambda>a b. f (data_of (nodes h) a) (data_of (nodes h) b) \<le> 0"
  obtain nx ny where n: "nodes h x = Some nx" "p = x" "path (nodes h) (n_next nx) xs NULL"
      "nodes h y = Some ny" "q = y" "path (nodes h) (n_next ny) ys NULL"
    using 3(3,4) by auto
  have D: "n_data nx \<in> D" "n_data ny \<in> D" using 3(9) n by auto
  have cmp: "call_cmp c (n_data nx) (n_data ny) h = Some (f (n_data nx) (n_data ny))"
    using cmp_funD [OF 3(8) D] .
  have nn: "x \<noteq> NULL" "y \<noteq> NULL" using 3(6) by auto
  show ?case
  proof (cases "f (n_data nx) (n_data ny) \<le> 0")
    case True
    then have le: "?le x y" using n by simp
    let ?rs = "amerge ?le xs (y # ys)"
    have "\<exists>m. merge call_cmp c (n_next nx) q tail h = Some (hd ?rs, last ?rs, h\<lparr>nodes := m\<rparr>)
       \<and> path m (hd ?rs) ?rs NULL \<and> relinked (set (xs @ y # ys)) (nodes h) m"
      using 3(5,6,7,9) by (intro 3(1) [OF le n(3) 3(4) _ _ _ 3(8)]) simp_all
    then obtain m where m: "merge call_cmp c (n_next nx) q tail h = Some (hd ?rs, last ?rs, h\<lparr>nodes := m\<rparr>)"
       "path m (hd ?rs) ?rs NULL" "relinked (set (xs @ y # ys)) (nodes h) m" by blast
    have x: "x \<notin> set (xs @ y # ys)" using 3(5) by auto
    have mx: "m x = Some nx" using relinked_other [OF m(3) x] n(1) by simp
    have "relinked (set (x # xs @ y # ys)) (nodes h) m"
      by (rule relinked_trans [OF m(3) relinked_refl [of "{}"]]) auto
    then have rl: "relinked (set (x # xs @ y # ys)) (nodes h) (m(x \<mapsto> nx\<lparr>n_next := hd ?rs\<rparr>))"
      using mx by (rule relinked_upd) simp
    have ev: "merge call_cmp c p q tail h
        = Some (x, last ?rs, h\<lparr>nodes := m(x \<mapsto> nx\<lparr>n_next := hd ?rs\<rparr>)\<rparr>)"
      using m(1) n nn cmp True mx by (subst merge.simps) (simp add: heap_defs)
    have "x \<notin> set ?rs" using x by simp
    then have "path (m(x \<mapsto> nx\<lparr>n_next := hd ?rs\<rparr>)) x (x # ?rs) NULL" using m(2) by simp
    then show ?thesis using le ev rl by (intro exI [of _ "m(x \<mapsto> nx\<lparr>n_next := hd ?rs\<rparr>)"]) simp
  next
    case False
    then have le: "\<not> ?le x y" using n by simp
    let ?rs = "amerge ?le ys (x # xs)"
    have "\<exists>m. merge call_cmp c (n_next ny) p tail h = Some (hd ?rs, last ?rs, h\<lparr>nodes := m\<rparr>)
       \<and> path m (hd ?rs) ?rs NULL \<and> relinked (set (ys @ x # xs)) (nodes h) m"
      using 3(5,6,7,9) by (intro 3(2) [OF le n(6) 3(3) _ _ _ 3(8)]) auto
    then obtain m where m: "merge call_cmp c (n_next ny) p tail h = Some (hd ?rs, last ?rs, h\<lparr>nodes := m\<rparr>)"
       "path m (hd ?rs) ?rs NULL" "relinked (set (ys @ x # xs)) (nodes h) m" by blast
    have y: "y \<notin> set (ys @ x # xs)" using 3(5) by auto
    have my: "m y = Some ny" using relinked_other [OF m(3) y] n(4) by simp
    have "relinked (set (x # xs @ y # ys)) (nodes h) m"
      by (rule relinked_trans [OF m(3) relinked_refl [of "{}"]]) auto
    then have rl: "relinked (set (x # xs @ y # ys)) (nodes h) (m(y \<mapsto> ny\<lparr>n_next := hd ?rs\<rparr>))"
      using my by (rule relinked_upd) simp
    have ev: "merge call_cmp c p q tail h
        = Some (y, last ?rs, h\<lparr>nodes := m(y \<mapsto> ny\<lparr>n_next := hd ?rs\<rparr>)\<rparr>)"
      using m(1) n nn cmp False my by (subst merge.simps) (simp add: heap_defs)
    have "y \<notin> set ?rs" using y by simp
    then have "path (m(y \<mapsto> ny\<lparr>n_next := hd ?rs\<rparr>)) y (y # ?rs) NULL" using m(2) by simp
    then show ?thesis using le ev rl by (intro exI [of _ "m(y \<mapsto> ny\<lparr>n_next := hd ?rs\<rparr>)"]) simp
  qed
qed


lemma of_nat_pred_32: "0 < n \<Longrightarrow> (of_nat n - 1 :: 32 word) = of_nat (n - 1)"
  by (simp add: of_nat_diff)

lemma split_loop_tail:
  assumes "path (nodes h) p ps NULL" "ps \<noteq> []" "n = i + length ps" "n < 2 ^ 32" "hf \<le> i" "0 < hf"
    and "length ps \<le> k"
  shows "split_loop k (of_nat n) (of_nat hf) (of_nat i) p pr tail h = Some (pr, last ps, h)"
  using assms
proof (induction ps arbitrary: k i p)
  case Nil
  then show ?case by simp
next
  case (Cons a as)
  then obtain j where k: "k = Suc j" by (cases k) auto
  obtain na where na: "nodes h a = Some na" "p = a" "path (nodes h) (n_next na) as NULL"
    using Cons.prems(1) by auto
  have w: "of_nat n = of_nat i + (1 :: 32 word) \<longleftrightarrow> n = Suc i"
    using of_nat_32_eq [of n "Suc i"] Cons.prems(3,4) by simp
  show ?case
  proof (cases "as = []")
    case True
    then have "h\<lparr>nodes := (nodes h)(a \<mapsto> na\<lparr>n_next := NULL\<rparr>)\<rparr> = h"
      using na by (simp add: fun_upd_idem)
    with True show ?thesis using na w Cons.prems(3) by (simp add: k heap_defs)
  next
    case False
    then have ne: "n \<noteq> Suc i" using Cons.prems(3) by (cases as) auto
    have "\<not> (of_nat i :: 32 word) < of_nat hf - 1"
      unfolding of_nat_pred_32 [OF Cons.prems(6)]
      using of_nat_32_less [of i "hf - 1"] Cons.prems(3-6) by simp
    moreover have "(of_nat hf :: 32 word) \<noteq> of_nat i + 1"
      using of_nat_32_eq [of hf "Suc i"] Cons.prems(3-6) by (simp add: add.commute [of 1])
    moreover have "split_loop j (of_nat n) (of_nat hf) (of_nat (Suc i)) (n_next na) pr tail h
        = Some (pr, last as, h)"
      using Cons.prems False k na by (intro Cons.IH) auto
    ultimately show ?thesis using na w ne False
      by (simp add: k add.commute [of 1] del: word_less_nat_alt)
  qed
qed

lemma split_loop_head:
  assumes "path (nodes h) p (ls @ rs) NULL" "distinct (ls @ rs)" "ls \<noteq> []" "rs \<noteq> []"
    and "n = i + length ls + length rs" "hf = i + length ls" "n < 2 ^ 32" "length (ls @ rs) \<le> k"
    and "nodes h (last ls) = Some nl"
  shows "split_loop k (of_nat n) (of_nat hf) (of_nat i) p pr tail h
     = Some (hd rs, last rs, h\<lparr>nodes := (nodes h)(last ls \<mapsto> nl\<lparr>n_next := NULL\<rparr>)\<rparr>)"
  using assms
proof (induction ls arbitrary: k i p)
  case Nil
  then show ?case by simp
next
  case (Cons a as)
  then obtain j where k: "k = Suc j" by (cases k) auto
  obtain na where na: "nodes h a = Some na" "p = a" "path (nodes h) (n_next na) (as @ rs) NULL"
    using Cons.prems(1) by auto
  have hf: "0 < hf" using Cons.prems(6) by simp
  have ne: "(of_nat n :: 32 word) \<noteq> of_nat i + 1"
    using of_nat_32_eq [of n "Suc i"] Cons.prems(4,5,7) by (cases rs) auto
  have lt: "(of_nat i :: 32 word) < of_nat hf - 1 \<longleftrightarrow> as \<noteq> []"
    unfolding of_nat_pred_32 [OF hf]
    using of_nat_32_less [of i "hf - 1"] Cons.prems(5-7) by (cases as) auto
  show ?case
  proof (cases "as = []")
    case True
    let ?h = "h\<lparr>nodes := (nodes h)(a \<mapsto> na\<lparr>n_next := NULL\<rparr>)\<rparr>"
    have a: "a \<notin> set rs" using Cons.prems(2) by auto
    have "(of_nat hf :: 32 word) = of_nat i + 1" using Cons.prems(6) True by simp
    moreover have "n_next na = hd rs" using path_head [OF na(3)] Cons.prems(4) True by simp
    moreover have "split_loop j (of_nat n) (of_nat hf) (of_nat (Suc i)) (hd rs) (hd rs) tail ?h
        = Some (hd rs, last rs, ?h)"
      using Cons.prems(4-8) na(3) True k a calculation(2) by (intro split_loop_tail) auto
    moreover have "nl = na" using Cons.prems(9) na(1) True by simp
    ultimately show ?thesis using na ne lt True
      by (simp add: k heap_defs fun_upd_def add.commute [of 1] del: word_less_nat_alt)
  next
    case False
    have "split_loop j (of_nat n) (of_nat hf) (of_nat (Suc i)) (n_next na) pr tail h
      = Some (hd rs, last rs, h\<lparr>nodes := (nodes h)(last as \<mapsto> nl\<lparr>n_next := NULL\<rparr>)\<rparr>)"
      using Cons.prems(2-9) na(3) False k by (intro Cons.IH) auto
    then show ?thesis using na ne lt False
      by (simp add: k fun_upd_def add.commute [of 1] del: word_less_nat_alt)
  qed
qed


lemma distinct_msort [simp]: "distinct (msort le xs) = distinct xs"
  by (metis mset_msort mset_eq_imp_distinct_iff)

lemma msort_Nil_iff [simp]: "msort le xs = [] \<longleftrightarrow> xs = []"
  by (metis length_msort length_0_conv)

lemma path_snoc_cut:
  fixes q' :: ptr
  assumes "path m p (ls @ rs) q" "distinct (ls @ rs)" "ls \<noteq> []" "m (last ls) = Some nl"
  defines "m' \<equiv> m(last ls \<mapsto> nl\<lparr>n_next := q'\<rparr>)"
  shows "path m' p ls q'" "rs \<noteq> [] \<Longrightarrow> path m' (hd rs) rs q"
proof -
  obtain bs b where ls: "ls = bs @ [b]" using assms(3) by (cases ls rule: rev_cases) auto
  show "path m' p ls q'" using assms(1,2,4) by (auto simp: ls m'_def)
  assume rs: "rs \<noteq> []"
  obtain r where "path m r rs q" using assms(1) by auto
  then have "path m (hd rs) rs q" using path_head [OF _ rs] by metis
  then show "path m' (hd rs) rs q" using assms(2) by (auto simp: ls m'_def)
qed

lemma node_merge_sort_eval:
  assumes "path (nodes h) p ps NULL" "distinct ps" "NULL \<notin> set ps" "ps \<noteq> []" "length ps < 2 ^ 32"
    and "cmp_fun call_cmp c h f D" "data_of (nodes h) ` set ps \<subseteq> D"
    and "le = (\<lambda>a b. f (data_of (nodes h) a) (data_of (nodes h) b) \<le> 0)"
  defines "rs \<equiv> msort le ps"
  shows "\<exists>m. node_merge_sort call_cmp c p (of_nat (length ps)) tail h
       = Some (hd rs, if length ps = 1 then tail else last rs, h\<lparr>nodes := m\<rparr>)
     \<and> path m (hd rs) rs NULL \<and> relinked (set ps) (nodes h) m"
  using assms(1-8) unfolding rs_def
proof (induction "length ps" arbitrary: p ps tail h rule: less_induct)
  case less
  have p: "p = hd ps" "p \<noteq> NULL" using path_head [OF less.prems(1,4)] less.prems(3,4)
    by (metis list.set_sel(1))+
  show ?case
  proof (cases "length ps = 1")
    case True
    then obtain a where "ps = [a]" by (auto simp: length_Suc_conv)
    then show ?thesis using p less.prems(1)
      by (subst node_merge_sort.simps) (auto simp: msort.simps intro!: exI [of _ "nodes h"])
  next
    case False
    define k where "k = length ps div 2"
    define ls where "ls = take k ps"
    define us where "us = drop k ps"
    have n2: "2 \<le> length ps" using False less.prems(4) by (cases ps) (auto simp: Suc_le_eq)
    have ps: "ps = ls @ us" and k: "length ls = k" "ls \<noteq> []" "us \<noteq> []" "length us = length ps - k"
        "k < length ps" "0 < k"
      using n2 by (auto simp: ls_def us_def k_def)
    obtain nl where nl: "nodes h (last ls) = Some nl"
      using path_mapped [OF less.prems(1), of "last ls"] ps k(2) by auto
    let ?m0 = "(nodes h)(last ls \<mapsto> nl\<lparr>n_next := NULL\<rparr>)"
    let ?h0 = "h\<lparr>nodes := ?m0\<rparr>"
    have size1: "(of_nat (length ps) :: 32 word) \<noteq> 1"
      using of_nat_32_eq [of "length ps" 1] less.prems(5) False by simp
    have half: "(of_nat (length ps) :: 32 word) div 2 = of_nat k"
      using less.prems(5) by (simp add: k_def word_arith_nat_div unat_of_nat_32)
    have rest: "(of_nat (length ps) - of_nat k :: 32 word) = of_nat (length us)"
      using k by (simp add: of_nat_diff)
    have split: "split_loop (unat (of_nat (length ps) :: 32 word)) (of_nat (length ps)) (of_nat k) 0 p NULL tail h
        = Some (hd us, last us, ?h0)"
    proof -
      have "unat (of_nat (length ps) :: 32 word) = length ps" using less.prems(5) by (rule unat_of_nat_32)
      moreover have "length ps = 0 + length ls + length us" "k = 0 + length ls" "length (ls @ us) \<le> length ps"
        using ps k(1) by simp_all
      moreover have "path (nodes h) p (ls @ us) NULL" "distinct (ls @ us)"
        using less.prems(1,2) ps by simp_all
      ultimately show ?thesis
        using split_loop_head [of h p ls us "length ps" 0 k "length ps" nl NULL tail, OF _ _ k(2,3) _ _ less.prems(5) _ nl]
        by simp
    qed
    have r0: "relinked (set ps) (nodes h) ?m0"
      using relinked_refl nl by (rule relinked_upd) (use ps k(2) in simp)
    have cut: "path ?m0 p ls NULL" "path ?m0 (hd us) us NULL"
      using path_snoc_cut [of "nodes h" p ls us NULL nl NULL] less.prems(1,2) ps k(2,3) nl by auto
    have le0: "node_item ?m0 = node_item (nodes h)" using relinked_item [OF r0] by (rule ext)
    have len_us: "length us < length ps" using ps k(2) by simp
    let ?ls = "msort le ls"
    let ?us = "msort le us"
    obtain m1 where m1: "node_merge_sort call_cmp c p (of_nat k) (last us) ?h0
         = Some (hd ?ls, if k = 1 then last us else last ?ls, h\<lparr>nodes := m1\<rparr>)"
       "path m1 (hd ?ls) ?ls NULL" "relinked (set ls) ?m0 m1"
      using less.hyps [of ls ?h0 p "last us"] cut(1) less.prems(2,3,5,6,7,8) ps k(1,2,5) le0 by auto
    have disj: "set us \<inter> set ls = {}" using less.prems(2) ps by auto
    have us1: "path m1 (hd us) us NULL" using cut(2) relinked_path [OF m1(3) disj] by simp
    have r1: "relinked (set ps) (nodes h) m1"
      using ps by (intro relinked_trans [OF r0 m1(3)]) auto
    have le1: "node_item m1 = node_item (nodes h)" using relinked_item [OF r1] by (rule ext)
    obtain m2 t2 where m2: "node_merge_sort call_cmp c (hd us) (of_nat (length us))
           (if k = 1 then last us else last ?ls) (h\<lparr>nodes := m1\<rparr>)
         = Some (hd ?us, t2, h\<lparr>nodes := m2\<rparr>)"
       "path m2 (hd ?us) ?us NULL" "relinked (set us) m1 m2"
      using less.hyps [of us "h\<lparr>nodes := m1\<rparr>" "hd us" "if k = 1 then last us else last ?ls"]
        us1 less.prems(2,3,5,6,7,8) ps k(3) len_us le1 by auto
    have ls2: "path m2 (hd ?ls) ?ls NULL" using m1(2) relinked_path [OF m2(3), of ?ls] disj
      by (simp add: Int_commute)
    have r2: "relinked (set ps) (nodes h) m2"
      using ps by (intro relinked_trans [OF r1 m2(3)]) auto
    have le2: "node_item m2 = node_item (nodes h)" using relinked_item [OF r2] by (rule ext)
    let ?rs = "amerge le ?ls ?us"
    have ms: "distinct (?ls @ ?us)" "set (?ls @ ?us) = set ps" "?ls \<noteq> []"
      using less.prems(2) ps k(2) disj by (auto simp: Int_commute)
    obtain m3 where m3: "merge call_cmp c (hd ?ls) (hd ?us) t2 (h\<lparr>nodes := m2\<rparr>)
         = Some (hd ?rs, last ?rs, h\<lparr>nodes := m3\<rparr>)"
       "path m3 (hd ?rs) ?rs NULL" "relinked (set ps) m2 m3"
      using merge_eval [of "h\<lparr>nodes := m2\<rparr>" "hd ?ls" ?ls "hd ?us" ?us call_cmp c f D t2]
        ls2 m2(2) ms less.prems(3,6,7,8) le2 by auto
    have "relinked (set ps) (nodes h) m3" by (rule relinked_trans [OF r2 m3(3)]) simp
    moreover have "msort le ps = ?rs" using n2 by (simp add: msort.simps [of _ ps] ls_def us_def k_def)
    moreover have "node_merge_sort call_cmp c p (of_nat (length ps)) tail h
       = Some (hd ?rs, last ?rs, h\<lparr>nodes := m3\<rparr>)"
      using p(2) size1 split m1(1) m2(1) m3(1)
      by (subst node_merge_sort.simps) (simp add: half rest Let_def)
    ultimately show ?thesis using m3(2) False by auto
  qed
qed


lemma list_merge_sort_spec:
  assumes ok: "lheap_ok h" and rep: "lrep h p c A xs" and c: "c \<noteq> NULL" and two: "2 \<le> length xs"
    and cmp: "cmp_fun call_cmp c h f (fst ` set xs)"
  shows "\<exists>h'. list_merge_sort call_cmp p h = Some (True, h')
     \<and> lrep h' p c A (msort (\<lambda>x y. f (fst x) (fst y) \<le> 0) xs) \<and> lheap_ok h' \<and> lframe h h' {p} A"
proof -
  obtain ps where at: "list_at h p c ps" "A = set ps" "xs = items (nodes h) ps" "\<forall>y \<in> set xs. fst y \<noteq> NULL"
    by (rule lrepE [OF rep])
  have ne: "ps \<noteq> []" and len: "2 \<le> length ps" using two at(3) by auto
  obtain l where l: "lists h p = Some l" "l_comp l = c" "l_size l = of_nat (length ps)" "length ps < 2 ^ 32"
    "distinct ps" "l_head l = hd ps \<and> l_tail l = last ps \<and> path (nodes h) (hd ps) ps (hd ps)"
    by (rule list_atE [OF at(1)]) (auto simp: ne)
  have p: "p \<noteq> NULL" using lrep_nonnull [OF ok rep] .
  have below: "\<And>a. a \<in> set ps \<Longrightarrow> 0 < a \<and> a < brk h" using list_at_below [OF ok at(1)] .
  obtain nt where nt: "nodes h (last ps) = Some nt" using path_mapped [of "nodes h" "hd ps" ps "hd ps" "last ps"] l(6) ne by auto
  let ?m0 = "(nodes h)(last ps \<mapsto> nt\<lparr>n_next := NULL\<rparr>)"
  have r0: "relinked (set ps) (nodes h) ?m0"
    using relinked_refl nt by (rule relinked_upd) (use ne in simp)
  have p0: "path ?m0 (hd ps) ps NULL"
    using path_snoc_cut(1) [of "nodes h" "hd ps" ps "[]" "hd ps" nt NULL] l(5,6) ne nt by simp
  have i0: "node_item ?m0 = node_item (nodes h)" using relinked_item [OF r0] by (rule ext)
  let ?le = "\<lambda>a b. f (data_of (nodes h) a) (data_of (nodes h) b) \<le> 0"
  let ?rs = "msort ?le ps"
  have z: "NULL \<notin> set ps" using below by blast
  have dat: "data_of (nodes h) ` set ps \<subseteq> fst ` set xs" using at(3) by auto
  have "\<exists>m. node_merge_sort call_cmp c (hd ps) (of_nat (length ps)) NULL (h\<lparr>nodes := ?m0\<rparr>)
       = Some (hd ?rs, if length ps = 1 then NULL else last ?rs, h\<lparr>nodes := ?m0, nodes := m\<rparr>)
     \<and> path m (hd ?rs) ?rs NULL \<and> relinked (set ps) ?m0 m"
    using node_merge_sort_eval [of "h\<lparr>nodes := ?m0\<rparr>" "hd ps" ps call_cmp c f "fst ` set xs" ?le NULL]
      p0 l(4,5) ne z cmp i0 dat by simp
  then obtain m where m: "node_merge_sort call_cmp c (hd ps) (of_nat (length ps)) NULL (h\<lparr>nodes := ?m0\<rparr>)
       = Some (hd ?rs, last ?rs, h\<lparr>nodes := m\<rparr>)"
     "path m (hd ?rs) ?rs NULL" "relinked (set ps) ?m0 m" using len by auto
  have rm: "relinked (set ps) (nodes h) m" by (rule relinked_trans [OF r0 m(3)]) simp
  have rs: "set ?rs = set ps" "distinct ?rs" "?rs \<noteq> []" using l(5) ne by simp_all
  then obtain bs b where b: "?rs = bs @ [b]" by (cases ?rs rule: rev_cases) auto
  have "b \<in> set ps" using b rs(1) by (metis in_set_conv_decomp)
  then obtain nb where nb: "m b = Some nb" using m(2) b path_mapped [OF m(2), of b] by auto
  have nn: "hd ?rs \<noteq> NULL" "b \<noteq> NULL"
    using below rs \<open>b \<in> set ps\<close> by (metis list.set_sel(1) less_irrefl)+
  let ?m = "m(b \<mapsto> nb\<lparr>n_next := hd ?rs\<rparr>)"
  let ?h = "h\<lparr>nodes := ?m, lists := (lists h)(p \<mapsto> l\<lparr>l_head := hd ?rs, l_tail := b\<rparr>)\<rparr>"
  have rel: "relinked (set ps) (nodes h) ?m" using rm nb \<open>b \<in> set ps\<close> by (rule relinked_upd)
  have "list_merge_sort call_cmp p h = Some (True, ?h)"
  proof -
    have "l_head l \<noteq> NULL" using l(6) below ne by (metis list.set_sel(1) less_irrefl)
    then show ?thesis using l(1,2,3,6) p c nt m(1) nb nn b
      by (simp add: list_merge_sort_def heap_defs fun_upd_def)
        (rule list_heap.equality, simp_all add: fun_eq_iff)
  qed
  moreover have "list_at ?h p c ?rs"
  proof -
    have "path ?m (hd ?rs) ?rs (hd ?rs)"
      using path_snoc_cut(1) [of m "hd ?rs" ?rs "[]" NULL nb "hd ?rs"] m(2) rs(2,3) b nb by simp
    moreover have "length ps = length (bs @ [b])" unfolding b [symmetric] by simp
    ultimately show ?thesis using l(2,3,4) rs(2) b by (simp add: list_at_def)
  qed
  moreover have "items ?m ?rs = msort (\<lambda>x y. f (fst x) (fst y) \<le> 0) xs"
  proof -
    have "node_item ?m = node_item (nodes h)" using relinked_item [OF rel] by (rule ext)
    then show ?thesis unfolding at(3) msort_map by simp
  qed
  moreover have "lheap_ok ?h" using ok l(1) rel
    by (auto simp: lheap_ok_def relinked_def)
  moreover have "lframe h ?h {p} A" using rel at(2) by (auto simp: lframe_def relinked_def)
  ultimately show ?thesis using at(2,4) rs(1) unfolding lrep_def by (intro exI [of _ ?h]) auto
qed

text \<open>A ring of one node is opened and not closed again, and the call reports failure.\<close>

lemma list_merge_sort_single:
  assumes ok: "lheap_ok h" and rep: "lrep h p c A [x]" and c: "c \<noteq> NULL"
  shows "\<exists>h' a. list_merge_sort call_cmp p h = Some (False, h') \<and> A = {a}
     \<and> map_option n_next (nodes h' a) = Some NULL \<and> list_size p h' = Some 1
     \<and> list_pop_tail p h' = Some (NULL, h')"
proof -
  obtain ps where at: "list_at h p c ps" "A = set ps" "[x] = items (nodes h) ps" "\<forall>y \<in> set [x]. fst y \<noteq> NULL"
    by (rule lrepE [OF rep])
  then obtain a where ps: "ps = [a]" by (cases ps) auto
  obtain l where l: "lists h p = Some l" "l_comp l = c" "l_size l = 1"
      "l_head l = a" "l_tail l = a" "path (nodes h) a [a] a"
    using at(1) ps by (auto simp: list_at_def)
  then obtain n where n: "nodes h a = Some n" by auto
  have nn: "p \<noteq> NULL" "a \<noteq> NULL" using lrep_nonnull [OF ok rep] list_at_below [OF ok at(1), of a] ps by auto
  let ?h = "h\<lparr>nodes := (nodes h)(a \<mapsto> n\<lparr>n_next := NULL\<rparr>), lists := (lists h)(p \<mapsto> l\<lparr>l_head := a\<rparr>)\<rparr>"
  have ls: "list_size p ?h = Some 1" using l nn by (simp add: list_size_def)
  have "list_merge_sort call_cmp p h = Some (False, ?h)" using l n nn c
    by (simp add: list_merge_sort_def heap_defs fun_upd_def node_merge_sort.simps)
  moreover have "list_pop_tail p ?h = Some (NULL, ?h)"
  proof -
    have "unat (1 :: 32 word) = Suc 0" by simp
    then show ?thesis unfolding list_pop_tail_def ls using l nn by simp
  qed
  ultimately show ?thesis using ls at(2) ps by (intro exI [of _ ?h] exI [of _ a]) simp
qed

lemma list_merge_sort_unsortable:
  assumes "lists h p = Some l" "l_head l = NULL \<or> l_comp l = NULL"
  shows "list_merge_sort call_cmp p h = Some (False, h)" "list_merge_sort call_cmp NULL h = Some (False, h)"
  using assms by (auto simp: list_merge_sort_def)

end
