(* ===== verification/CListDestroy.thy ===== *)
theory CListDestroy
  imports CListLookup
begin

text \<open>
  Destruction of a list of list.c. The contract of a \<open>FREE_F\<close> callback is a locale: it acts on
  the client's part of the heap only. Under it \<open>list_destroy_items\<close> calls the function stored
  with each element once, on that element's data, in list order, and releases every node.
\<close>

abbreviation with_more :: "'z list_heap_scheme \<Rightarrow> 'z \<Rightarrow> 'z list_heap_scheme" where
  "with_more h z \<equiv> list_heap.more_update (\<lambda>_. z) h"

lemma with_more_nodes [simp]: "with_more (h\<lparr>nodes := m\<rparr>) z = (with_more h z)\<lparr>nodes := m\<rparr>"
  by (rule list_heap.equality) simp_all

lemma with_more_lists [simp]: "with_more (h\<lparr>lists := m\<rparr>) z = (with_more h z)\<lparr>lists := m\<rparr>"
  by (rule list_heap.equality) simp_all

text \<open>What freeing a sequence of elements does to the client's part of the heap.\<close>

fun free_all :: "(fptr \<Rightarrow> ptr \<Rightarrow> 'z \<Rightarrow> 'z option) \<Rightarrow> (ptr \<times> fptr) list \<Rightarrow> 'z \<Rightarrow> 'z option" where
  "free_all eff [] z = Some z"
| "free_all eff ((d, f) # xs) z = do {
     z \<leftarrow> (if f \<noteq> NULL then eff f d z else Some z);
     free_all eff xs z
   }"

lemma free_all_append: "free_all eff (xs @ ys) z = free_all eff xs z \<bind> free_all eff ys"
  by (induction eff xs z rule: free_all.induct) (auto split: Option.bind_split)

locale free_contract =
  fixes call_free :: "'z free_call"
    and eff :: "fptr \<Rightarrow> ptr \<Rightarrow> 'z \<Rightarrow> 'z option"
  assumes free_local: "f \<noteq> NULL \<Longrightarrow>
    call_free f d h = map_option (with_more h) (eff f d (list_heap.more h))"
begin

lemma destroy_loop_eval:
  assumes "path (nodes h) q ps r" "lists h p = Some l" "l_size l = of_nat n" "n < 2 ^ 32"
    and "n = i + length ps" "distinct ps" "NULL \<notin> set ps"
  shows "destroy_loop call_free p (of_nat i) q h
    = map_option (\<lambda>z. with_more (h\<lparr>nodes := nodes h |` (- set ps)\<rparr>) z)
        (free_all eff (items (nodes h) ps) (list_heap.more h))"
  using assms
proof (induction ps arbitrary: i q h)
  case Nil
  then show ?case by (subst destroy_loop.simps) (simp add: restrict_map_def)
next
  case (Cons a as)
  obtain na where na: "nodes h a = Some na" "q = a" "path (nodes h) (n_next na) as r"
    using Cons.prems(1) by auto
  have lt: "(of_nat i :: 32 word) < l_size l"
    unfolding Cons.prems(3) using of_nat_32_less [of i n] Cons.prems(4,5) by simp
  have a: "a \<noteq> NULL" "a \<notin> set as" using Cons.prems(6,7) by auto
  let ?eff = "if n_free na \<noteq> NULL then eff (n_free na) (n_data na) (list_heap.more h) else Some (list_heap.more h)"
  have call: "(if n_free na \<noteq> NULL then call_free (n_free na) (n_data na) h else Some h)
      = map_option (with_more h) ?eff"
    using free_local by simp
  show ?case
  proof (cases ?eff)
    case None
    then show ?thesis using na lt Cons.prems(2) call
      by (subst destroy_loop.simps) (simp add: Let_def)
  next
    case (Some z)
    let ?h = "with_more (h\<lparr>nodes := (nodes h)(a := None)\<rparr>) z"
    have "destroy_loop call_free p (of_nat i) q h = destroy_loop call_free p (of_nat (Suc i)) (n_next na) ?h"
      using na lt a Cons.prems(2) call Some
      by (subst destroy_loop.simps) (simp add: Let_def heap_defs add.commute [of 1])
    also have "\<dots> = map_option (with_more (?h\<lparr>nodes := nodes ?h |` (- set as)\<rparr>))
        (free_all eff (items (nodes ?h) as) (list_heap.more ?h))"
      using path_upd_other [OF a(2), of "nodes h" None "n_next na" r] na(3) Cons.prems(2-7)
      by (intro Cons.IH) (simp_all add: fun_upd_def)
    finally have ev: "destroy_loop call_free p (of_nat i) q h = \<dots>" .
    have it: "items ((nodes h)(a := None)) as = items (nodes h) as" using a(2) by (rule items_upd_other)
    show ?thesis unfolding ev using na(1) Some
      a by (simp add: it Compl_insert)
  qed
qed

lemma list_destroy_items_spec:
  assumes ok: "lheap_ok h" and rep: "lrep h p c A xs"
  shows "\<exists>h0. list_destroy_items call_free p h
      = map_option (\<lambda>z. (True, with_more h0 z)) (free_all eff xs (list_heap.more h))
    \<and> (\<forall>z. lrep (with_more h0 z) p c {} [] \<and> lheap_ok (with_more h0 z))
    \<and> nodes h0 = nodes h |` (- A) \<and> (\<forall>q. q \<noteq> p \<longrightarrow> lists h0 q = lists h q)
    \<and> brk h0 = brk h \<and> oom h0 = oom h"
proof (cases "xs = []")
  case True
  have "card A = 0" "finite A" using lrep_card [OF rep] True by auto
  then have A: "A = {}" by simp
  have "list_destroy_items call_free p h = Some (True, h)"
    using lrep_nonnull [OF ok rep] lrep_size_field [OF rep] True
    by (auto simp: list_destroy_items_def list_size_def)
  then show ?thesis using True rep ok A
    by (intro exI [of _ h])
      (auto simp: lrep_def list_at_def lheap_ok_def restrict_map_def)
next
  case False
  obtain ps where at: "list_at h p c ps" "A = set ps" "xs = items (nodes h) ps"
    by (rule lrepE [OF rep])
  have ne: "ps \<noteq> []" using at(3) False by auto
  obtain l where l: "lists h p = Some l" "l_comp l = c" "l_size l = of_nat (length ps)" "length ps < 2 ^ 32"
    "distinct ps" "l_head l = hd ps \<and> l_tail l = last ps \<and> path (nodes h) (hd ps) ps (hd ps)"
    by (rule list_atE [OF at(1)]) (auto simp: ne)
  have z: "NULL \<notin> set ps" using list_at_below [OF ok at(1)] by blast
  have p: "p \<noteq> NULL" using lrep_nonnull [OF ok rep] .
  let ?l = "l\<lparr>l_head := NULL, l_tail := NULL, l_size := 0\<rparr>"
  let ?h0 = "h\<lparr>nodes := nodes h |` (- set ps), lists := (lists h)(p \<mapsto> ?l)\<rparr>"
  have "destroy_loop call_free p 0 (hd ps) h
    = map_option (\<lambda>z. with_more (h\<lparr>nodes := nodes h |` (- set ps)\<rparr>) z) (free_all eff xs (list_heap.more h))"
    using destroy_loop_eval [of h "hd ps" ps "hd ps" p l "length ps" 0] l z at(3) by simp
  then have "list_destroy_items call_free p h
      = map_option (\<lambda>z. (True, with_more ?h0 z)) (free_all eff xs (list_heap.more h))"
    using l p size_nonzero [OF l(3,4)] ne
    by (cases "free_all eff xs (list_heap.more h)")
      (simp_all add: list_destroy_items_def list_size_def heap_defs)
  moreover have "lrep (with_more ?h0 z) p c {} []" for z
    using l by (auto simp: lrep_def list_at_def)
  moreover have "lheap_ok (with_more ?h0 z)" for z
    using ok l(1) unfolding lheap_ok_def restrict_map_def dom_def by (auto split: if_splits)
  ultimately show ?thesis using at(2) by (intro exI [of _ ?h0]) auto
qed

lemma list_destroy_spec:
  assumes ok: "lheap_ok h" and rep: "lrep h p c A xs"
  shows "\<exists>h0. list_destroy call_free p h
      = map_option (\<lambda>z. (True, NULL, with_more h0 z)) (free_all eff xs (list_heap.more h))
    \<and> nodes h0 = nodes h |` (- A) \<and> lists h0 = (lists h)(p := None)
    \<and> brk h0 = brk h \<and> oom h0 = oom h \<and> (\<forall>z. lheap_ok (with_more h0 z))"
proof -
  obtain h0 where h0: "list_destroy_items call_free p h
      = map_option (\<lambda>z. (True, with_more h0 z)) (free_all eff xs (list_heap.more h))"
    "\<forall>z. lrep (with_more h0 z) p c {} [] \<and> lheap_ok (with_more h0 z)"
    "nodes h0 = nodes h |` (- A)" "\<forall>q. q \<noteq> p \<longrightarrow> lists h0 q = lists h q" "brk h0 = brk h" "oom h0 = oom h"
    using list_destroy_items_spec [OF ok rep] by blast
  have p: "p \<noteq> NULL" using lrep_nonnull [OF ok rep] .
  obtain l where l: "lists h0 p = Some l" using h0(2) lrep_size_field by fastforce
  let ?h = "h0\<lparr>lists := (lists h0)(p := None)\<rparr>"
  have "list_destroy call_free p h
      = map_option (\<lambda>z. (True, NULL, with_more ?h z)) (free_all eff xs (list_heap.more h))"
    using h0(1) p l by (cases "free_all eff xs (list_heap.more h)")
      (simp_all add: list_destroy_def heap_defs)
  moreover have "lists ?h = (lists h)(p := None)" using h0(4) by auto
  moreover have "lheap_ok (with_more ?h z)" for z using h0(2) by (auto simp: lheap_ok_def)
  ultimately show ?thesis using h0(3,5,6) by (intro exI [of _ ?h]) simp
qed

end

end
