(* ===== verification/CListProps.thy ===== *)
theory CListProps
  imports CListSortSpec CListDestroy
begin

text \<open>
  The properties of list.c, stated on a represented list, and their instances on the lists of
  three, one and no nodes of \<open>ex_heap\<close>.
\<close>

lemma sint_of_nat_32: "n < 2 ^ 31 \<Longrightarrow> sint (of_nat n :: 32 word) = int n"
  by (simp add: signed_of_nat signed_take_bit_int_eq_self)

section \<open>An example\<close>

definition ex_heap_with :: "'z \<Rightarrow> 'z list_heap_scheme" where
  "ex_heap_with z = \<lparr>brk = 100, allocs = 0, oom = (\<lambda>_. False),
     nodes = [10 \<mapsto> \<lparr>n_data = 7, n_next = 20, n_free = 3\<rparr>,
              20 \<mapsto> \<lparr>n_data = 5, n_next = 30, n_free = 3\<rparr>,
              30 \<mapsto> \<lparr>n_data = 6, n_next = 10, n_free = 0\<rparr>,
              60 \<mapsto> \<lparr>n_data = 8, n_next = 60, n_free = 0\<rparr>],
     lists = [40 \<mapsto> \<lparr>l_size = 3, l_head = 10, l_tail = 30, l_comp = 9\<rparr>,
              50 \<mapsto> \<lparr>l_size = 1, l_head = 60, l_tail = 60, l_comp = 9\<rparr>,
              70 \<mapsto> \<lparr>l_size = 0, l_head = 0, l_tail = 0, l_comp = 9\<rparr>], \<dots> = z\<rparr>"

abbreviation ex_heap :: list_heap where
  "ex_heap \<equiv> ex_heap_with ()"

definition ex_cmp :: "unit cmp_call" where
  "ex_cmp c x y h = Some (int x - int y)"

lemma ex_okz: "lheap_ok (ex_heap_with z)" "can_alloc (ex_heap_with z)" "brk (ex_heap_with z) = 100"
  by (auto simp: ex_heap_with_def lheap_ok_def split: if_splits)

lemma ex_repz: "lrep (ex_heap_with z) 40 9 {10, 20, 30} [(7, 3), (5, 3), (6, 0)]"
  unfolding lrep_def by (rule exI [of _ "[10, 20, 30]"]) (auto simp: list_at_def ex_heap_with_def node_item_def)

lemma ex_rep1z: "lrep (ex_heap_with z) 50 9 {60} [(8, 0)]"
  unfolding lrep_def by (rule exI [of _ "[60]"]) (auto simp: list_at_def ex_heap_with_def node_item_def)

lemma ex_rep0z: "lrep (ex_heap_with z) 70 9 {} []"
  unfolding lrep_def by (rule exI [of _ "[]"]) (auto simp: list_at_def ex_heap_with_def)

lemma ex_more [simp]: "list_heap.more (ex_heap_with z) = z"
  by (simp add: ex_heap_with_def)

lemmas ex_ok = ex_okz [of "()"]
lemmas ex_rep = ex_repz [of "()"]
lemmas ex_rep1 = ex_rep1z [of "()"]
lemmas ex_rep0 = ex_rep0z [of "()"]

lemma lrep_allocs [simp]: "lrep (h\<lparr>allocs := k\<rparr>) p c A xs = lrep h p c A xs"
  by (simp add: lrep_def list_at_def)

section \<open>Adding elements\<close>

text \<open>C16: On a list that represents \<open>xs\<close>, \<open>list_insert\<close> at any index returns true and leaves a
  list that represents \<open>xs\<close> with the element at that position (at the end for an index past the
  end), reusing every old node and one fresh one; when the allocation fails it returns false and
  the list is as before. Either way nothing outside the list changes.\<close>

theorem list_insert_correct:
  assumes "lheap_ok h" "lrep h p c A xs" "d \<noteq> NULL" "Suc (length xs) < 2 ^ 32"
  shows "\<exists>h' B. list_insert p d idx f h = Some (can_alloc h, h')
     \<and> lrep h' p c B (if can_alloc h then take (unat idx) xs @ (d, f) # drop (unat idx) xs else xs)
     \<and> B = (if can_alloc h then insert (brk h) A else A) \<and> lheap_ok h' \<and> lframe h h' {p} A"
proof (cases "can_alloc h")
  case True
  with list_insert_spec [OF assms(1-3) _ assms(4)] show ?thesis by auto
next
  case False
  moreover obtain l where "lists h p = Some l" using lrep_size_field [OF assms(2)] by auto
  ultimately show ?thesis
    using list_add_oom(3) [OF lrep_nonnull [OF assms(1,2)] assms(3)] assms(1,2)
    by (intro exI [of _ "h\<lparr>allocs := Suc (allocs h)\<rparr>"]) auto
qed

theorem list_insert_correct_witness:
  "\<exists>h' B. list_insert 40 8 1 0 ex_heap = Some (True, h')
     \<and> lrep h' 40 9 B [(7, 3), (8, 0), (5, 3), (6, 0)] \<and> B = {100, 10, 20, 30}"
  using list_insert_correct [OF ex_ok(1) ex_rep, of 8 1 0] by (auto simp: ex_ok)

text \<open>\<open>list_append\<close> adds the element at the end, \<open>list_prepend\<close> at the front, of a list that
  represents \<open>xs\<close>; both return true exactly when the allocation succeeds, and change nothing of
  the list when it fails.\<close>

theorem list_append_prepend_correct:
  assumes "lheap_ok h" "lrep h p c A xs" "d \<noteq> NULL" "Suc (length xs) < 2 ^ 32"
  shows "(\<exists>h' B. list_append p d f h = Some (can_alloc h, h')
           \<and> lrep h' p c B (if can_alloc h then xs @ [(d, f)] else xs)
           \<and> lheap_ok h' \<and> lframe h h' {p} A)
       \<and> (\<exists>h' B. list_prepend p d f h = Some (can_alloc h, h')
           \<and> lrep h' p c B (if can_alloc h then (d, f) # xs else xs)
           \<and> lheap_ok h' \<and> lframe h h' {p} A)"
proof (cases "can_alloc h")
  case True
  with list_append_spec [OF assms(1-3) _ assms(4)] list_prepend_spec [OF assms(1-3) _ assms(4)]
  show ?thesis by (intro conjI) (fastforce+)
next
  case False
  with list_add_oom(1,2) [OF lrep_nonnull [OF assms(1,2)] assms(3)] assms(1,2) show ?thesis
    by (intro conjI exI [of _ "h\<lparr>allocs := Suc (allocs h)\<rparr>"] exI [of _ A]) simp_all
qed

theorem list_append_prepend_correct_witness:
  "\<exists>h' B. list_append 70 8 2 ex_heap = Some (True, h') \<and> lrep h' 70 9 B [(8, 2)]"
  using list_append_prepend_correct [OF ex_ok(1) ex_rep0, of 8 2] by (auto simp: ex_ok)

section \<open>Removing elements\<close>

text \<open>C17: \<open>list_remove\<close> returns the data at the index and unlinks and frees that one node; an
  index past the end returns \<open>NULL\<close> and changes nothing.\<close>

theorem list_remove_correct:
  assumes "lheap_ok h" "lrep h p c A xs"
  shows "if unat idx < length xs
    then \<exists>h' a. list_remove p idx h = Some (fst (xs ! unat idx), h') \<and> a \<in> A
           \<and> lrep h' p c (A - {a}) (take (unat idx) xs @ drop (Suc (unat idx)) xs)
           \<and> nodes h' a = None \<and> lheap_ok h' \<and> lframe h h' {p} A
    else list_remove p idx h = Some (NULL, h)"
  using list_remove_spec [OF assms] .

theorem list_remove_correct_witness:
  "(\<exists>h' a. list_remove 40 1 ex_heap = Some (5, h') \<and> lrep h' 40 9 ({10, 20, 30} - {a}) [(7, 3), (6, 0)])
     \<and> list_remove 40 3 ex_heap = Some (NULL, ex_heap)"
  using list_remove_correct [OF ex_ok(1) ex_rep, of 1] list_remove_correct [OF ex_ok(1) ex_rep, of 3]
  by simp blast

text \<open>Popping the head or the tail of a list that represents a non-empty sequence returns its
  first or last element, frees that node and leaves the rest; popping an empty list returns
  \<open>NULL\<close> and changes nothing.\<close>

theorem list_pop_correct:
  assumes "lheap_ok h" "lrep h p c A xs"
  shows "if xs = [] then list_pop_head p h = Some (NULL, h) \<and> list_pop_tail p h = Some (NULL, h)
    else (\<exists>h' a. list_pop_head p h = Some (fst (hd xs), h') \<and> a \<in> A \<and> nodes h' a = None
            \<and> lrep h' p c (A - {a}) (tl xs) \<and> lheap_ok h' \<and> lframe h h' {p} A)
       \<and> (\<exists>h' a. list_pop_tail p h = Some (fst (last xs), h') \<and> a \<in> A \<and> nodes h' a = None
            \<and> lrep h' p c (A - {a}) (butlast xs) \<and> lheap_ok h' \<and> lframe h h' {p} A)"
proof (cases "xs = []")
  case True
  with assms list_pops_empty [of h p c A] show ?thesis by simp
next
  case False
  then have "lrep h p c A (hd xs # tl xs)" "lrep h p c A (butlast xs @ [last xs])"
    using assms(2) by simp_all
  from list_pop_head_spec [OF assms(1) this(1)] list_pop_tail_spec [OF assms(1) this(2)] False
  show ?thesis by simp blast
qed

theorem list_pop_correct_witness:
  "\<exists>h' a. list_pop_tail 40 ex_heap = Some (6, h') \<and> lrep h' 40 9 ({10, 20, 30} - {a}) [(7, 3), (5, 3)]"
  using list_pop_correct [OF ex_ok(1) ex_rep] by fastforce

text \<open>With a comparison that returns on every element, \<open>list_remove_val\<close> removes one element
  that compares equal to the item and returns its data, or returns \<open>NULL\<close> and changes nothing
  when there is none. The one it removes is the head if that is equal, else the tail if that is
  equal, else the first.\<close>

theorem list_remove_val_correct:
  assumes "lheap_ok h" "lrep h p c A xs" "xs \<noteq> []" "c \<noteq> NULL" "item \<noteq> NULL" "cmp_total call_cmp c item h xs"
  defines "P \<equiv> cmp_eq call_cmp c item h"
  defines "i \<equiv> (if P (hd xs) then 0 else if P (last xs) then length xs - 1 else first_index P xs)"
  shows "if \<exists>x \<in> set xs. P x
    then \<exists>h' a. list_remove_val call_cmp p item h = Some (fst (xs ! i), h') \<and> P (xs ! i) \<and> a \<in> A
           \<and> lrep h' p c (A - {a}) (take i xs @ drop (Suc i) xs)
           \<and> nodes h' a = None \<and> lheap_ok h' \<and> lframe h h' {p} A
    else list_remove_val call_cmp p item h = Some (NULL, h)"
proof (cases "\<exists>x \<in> set xs. P x")
  case True
  have "P (xs ! i)" using True first_index_nth [of xs P] assms(3)
    by (auto simp: i_def hd_conv_nth last_conv_nth)
  then show ?thesis using True list_remove_val_spec [OF assms(1-6)]
    unfolding P_def [symmetric] by (simp add: i_def remove_val_index_def)
next
  case False
  then show ?thesis using list_remove_val_spec [OF assms(1-6)] unfolding P_def [symmetric] by simp
qed

theorem list_remove_val_correct_witness:
  "\<exists>h' a. list_remove_val ex_cmp 40 5 ex_heap = Some (5, h') \<and> lrep h' 40 9 ({10, 20, 30} - {a}) [(7, 3), (6, 0)]"
  using list_remove_val_correct [OF ex_ok(1) ex_rep, of 5 ex_cmp]
  by (fastforce simp: cmp_total_def cmp_eq_def ex_cmp_def numeral_2_eq_2)

section \<open>Looking up\<close>

text \<open>\<open>list_index\<close> returns the data at the index, or \<open>NULL\<close> past the end; and
  \<open>list_first_occurrence\<close> returns the least index whose element compares equal to the item,
  or -1 when there is none, on a list of fewer than \<open>2 ^ 31\<close> elements.\<close>

theorem list_lookup_correct:
  assumes "lheap_ok h" "lrep h p c A xs" "c \<noteq> NULL" "item \<noteq> NULL" "cmp_total call_cmp c item h xs"
    and "length xs < 2 ^ 31"
  shows "list_index p idx h = Some (if unat idx < length xs then fst (xs ! unat idx) else NULL)
    \<and> (\<exists>r. list_first_occurrence call_cmp p item h = Some r
        \<and> (if \<exists>x \<in> set xs. cmp_eq call_cmp c item h x
           then 0 \<le> r \<and> nat r < length xs \<and> cmp_eq call_cmp c item h (xs ! nat r)
              \<and> (\<forall>j < nat r. \<not> cmp_eq call_cmp c item h (xs ! j))
           else r = -1))"
proof -
  let ?i = "first_index (cmp_eq call_cmp c item h) xs"
  have "sint (of_nat ?i :: 32 word) = int ?i"
    using first_index_le [of "cmp_eq call_cmp c item h" xs] assms(6)
    by (simp add: sint_of_nat_32)
  then show ?thesis
    using list_index_spec [OF assms(1,2)] list_first_occurrence_spec [OF assms(1-5)]
      first_index_less [of "cmp_eq call_cmp c item h" xs] first_index_nth [of xs "cmp_eq call_cmp c item h"]
      first_index_before [of _ "cmp_eq call_cmp c item h" xs]
    by (auto simp: Let_def)
qed

theorem list_lookup_correct_witness:
  "list_index 40 2 ex_heap = Some 6 \<and> list_index 40 3 ex_heap = Some NULL"
  using list_lookup_correct [OF ex_ok(1) ex_rep, of 5 ex_cmp 2] list_lookup_correct [OF ex_ok(1) ex_rep, of 5 ex_cmp 3]
  by (simp add: cmp_total_def ex_cmp_def)

section \<open>Sorting\<close>

text \<open>C15: With a comparison that is transitive and consistent under exchange, \<open>list_merge_sort\<close>
  of a list of two or more elements ends, returns true and leaves a ring of the same nodes that
  represents a sorted permutation of the elements.\<close>

theorem list_merge_sort_correct:
  assumes "lheap_ok h" "lrep h p c A xs" "c \<noteq> NULL" "2 \<le> length xs"
    and "cmp_fun call_cmp c h f (fst ` set xs)" "cmp_order f"
  shows "\<exists>h' ys. list_merge_sort call_cmp p h = Some (True, h') \<and> lrep h' p c A ys
     \<and> mset ys = mset xs \<and> sorted_wrt (\<lambda>x y. f (fst x) (fst y) \<le> 0) ys
     \<and> lheap_ok h' \<and> lframe h h' {p} A"
proof -
  have "cmp_order (\<lambda>x y. f (fst x) (fst y))" using assms(6) unfolding cmp_order_def by blast
  note sorted = cmp_order.sorted_msort [OF this]
  show ?thesis using list_merge_sort_spec [OF assms(1-5)] sorted [of xs] by (metis mset_msort)
qed

theorem list_merge_sort_correct_witness:
  "\<exists>h' ys. list_merge_sort ex_cmp 40 ex_heap = Some (True, h') \<and> lrep h' 40 9 {10, 20, 30} ys
     \<and> mset ys = {# (5, 3), (6, 0), (7, 3) #} \<and> sorted_wrt (\<lambda>x y. int (fst x) - int (fst y) \<le> 0) ys"
  using list_merge_sort_correct [OF ex_ok(1) ex_rep, of ex_cmp "\<lambda>x y. int x - int y"]
  by (auto simp: cmp_fun_def ex_cmp_def cmp_order_def add_mset_commute)

text \<open>C19: On a list of one element \<open>list_merge_sort\<close> reports failure and leaves the ring open: the
  next pointer of the one node is \<open>NULL\<close>, and a following \<open>list_pop_tail\<close> returns \<open>NULL\<close> and
  removes nothing although the size is still 1.\<close>

theorem list_merge_sort_singleton_opens_ring:
  assumes "lheap_ok h" "lrep h p c A [x]" "c \<noteq> NULL"
  shows "\<exists>h' a. list_merge_sort call_cmp p h = Some (False, h') \<and> A = {a}
     \<and> map_option n_next (nodes h' a) = Some NULL \<and> list_size p h' = Some 1
     \<and> list_pop_tail p h' = Some (NULL, h')"
  using list_merge_sort_single [OF assms] .

theorem list_merge_sort_singleton_opens_ring_witness:
  "\<exists>h'. list_merge_sort ex_cmp 50 ex_heap = Some (False, h') \<and> list_pop_tail 50 h' = Some (NULL, h')"
  using list_merge_sort_singleton_opens_ring [OF ex_ok(1) ex_rep1, of ex_cmp] by fastforce

section \<open>Destruction\<close>

text \<open>C18: When every free callback acts on the client's part of the heap only, \<open>list_destroy\<close>
  calls each element's own callback once on its data, in list order, skipping \<open>NULL\<close> callbacks;
  it returns true and \<open>NULL\<close> for the caller's pointer, and the heap then holds neither the header
  nor any node of the list and every other node and header as before.\<close>

theorem list_destroy_correct:
  assumes "lheap_ok h" "lrep h p c A xs" "free_contract call_free eff"
    and "free_all eff xs (list_heap.more h) = Some z"
  shows "\<exists>h'. list_destroy call_free p h = Some (True, NULL, h') \<and> list_heap.more h' = z
     \<and> nodes h' = nodes h |` (- A) \<and> lists h' = (lists h)(p := None)
     \<and> brk h' = brk h \<and> lheap_ok h'"
proof -
  obtain h0 where "list_destroy call_free p h
      = map_option (\<lambda>z. (True, NULL, with_more h0 z)) (free_all eff xs (list_heap.more h))"
    "nodes h0 = nodes h |` (- A) \<and> lists h0 = (lists h)(p := None) \<and> brk h0 = brk h"
    "\<forall>z. lheap_ok (with_more h0 z)"
    using free_contract.list_destroy_spec [OF assms(3,1,2)] by blast
  then show ?thesis using assms(4) by (intro exI [of _ "with_more h0 z"]) simp
qed

text \<open>The callback of the instance records what it frees in a list kept beside the nodes.\<close>

definition ex_free :: "ptr list free_call" where
  "ex_free f d h = Some (with_more h (list_heap.more h @ [d]))"

theorem list_destroy_correct_witness:
  "\<exists>h'. list_destroy ex_free 40 (ex_heap_with []) = Some (True, NULL, h')
     \<and> list_heap.more h' = [7, 5] \<and> nodes h' = nodes (ex_heap_with ([] :: ptr list)) |` (- {10, 20, 30})"
proof -
  have 1: "free_contract ex_free (\<lambda>f d z. Some (z @ [d]))"
    by unfold_locales (simp add: ex_free_def)
  have 2: "free_all (\<lambda>f d z. Some (z @ [d])) [(7, 3), (5, 3), (6, 0)] (list_heap.more (ex_heap_with []))
      = Some [7, 5 :: ptr]" by simp
  from list_destroy_correct [OF ex_okz(1) ex_repz 1 2] show ?thesis
    by (elim exE conjE) (intro exI conjI, assumption+)
qed

end
