(* ===== verification/CQueue.thy ===== *)
theory CQueue
  imports CHeap
begin

text \<open>
  The singly linked queue of ChatRoom/src/queue.c on the heap. The queue of the thread pool
  project (module_1/src/queue.c) is the same code except that a node also records a position,
  so the operations are defined for any extension of the node struct and \<open>queue_enqueue\<close> exists
  in two versions over a common \<open>queue_link\<close>.
\<close>

record queue_node_t =
  q_data :: ptr
  q_next :: ptr
  q_free :: fptr

record m1_queue_node_t = queue_node_t +
  position :: "32 word"

record queue_t =
  q_head :: ptr
  q_tail :: ptr
  q_size :: "32 word"

record 'n queue_heap = heap +
  qnodes :: "ptr \<rightharpoonup> 'n queue_node_t_scheme"
  queues :: "ptr \<rightharpoonup> queue_t"

type_synonym ('n, 'z) qheap = "('n, 'z) queue_heap_scheme"
type_synonym ('n, 'z) qfree_call = "fptr \<Rightarrow> ptr \<Rightarrow> ('n, 'z) qheap \<Rightarrow> ('n, 'z) qheap option"

section \<open>Accesses\<close>

definition calloc_qnode ::
  "nat \<Rightarrow> 'n queue_node_t_scheme \<Rightarrow> ('n, 'z) qheap \<Rightarrow> ptr \<times> ('n, 'z) qheap" where
  "calloc_qnode sz zero h =
     (let (p, h') = calloc sz h
      in if p = NULL then (NULL, h') else (p, h'\<lparr>qnodes := (qnodes h')(p \<mapsto> zero)\<rparr>))"

definition calloc_queue :: "('n, 'z) qheap \<Rightarrow> ptr \<times> ('n, 'z) qheap" where
  "calloc_queue h =
     (let (p, h') = calloc 24 h
      in if p = NULL then (NULL, h')
         else (p, h'\<lparr>queues := (queues h')(p \<mapsto> \<lparr>q_head = NULL, q_tail = NULL, q_size = 0\<rparr>)\<rparr>))"

definition upd_qnode ::
  "ptr \<Rightarrow> ('n queue_node_t_scheme \<Rightarrow> 'n queue_node_t_scheme) \<Rightarrow> ('n, 'z) qheap
     \<Rightarrow> ('n, 'z) qheap option" where
  "upd_qnode p f h = map_option (\<lambda>m. h\<lparr>qnodes := m\<rparr>) (modify p f (qnodes h))"

definition upd_queue :: "ptr \<Rightarrow> (queue_t \<Rightarrow> queue_t) \<Rightarrow> ('n, 'z) qheap \<Rightarrow> ('n, 'z) qheap option" where
  "upd_queue p f h = map_option (\<lambda>m. h\<lparr>queues := m\<rparr>) (modify p f (queues h))"

definition free_qnode :: "ptr \<Rightarrow> ('n, 'z) qheap \<Rightarrow> ('n, 'z) qheap option" where
  "free_qnode p h =
     (if p = NULL then Some h else map_option (\<lambda>m. h\<lparr>qnodes := m\<rparr>) (release p (qnodes h)))"

definition free_queue :: "ptr \<Rightarrow> ('n, 'z) qheap \<Rightarrow> ('n, 'z) qheap option" where
  "free_queue p h =
     (if p = NULL then Some h else map_option (\<lambda>m. h\<lparr>queues := m\<rparr>) (release p (queues h)))"

lemmas [heap_defs] = upd_qnode_def upd_queue_def free_qnode_def free_queue_def

section \<open>Operations\<close>

definition queue_create :: "('n, 'z) qheap \<Rightarrow> (ptr \<times> ('n, 'z) qheap) option" where
  "queue_create h =
     (let (p_queue, h) = calloc_queue h
      in if p_queue = NULL then Some (NULL, h)
         else do {
           h \<leftarrow> upd_queue p_queue (\<lambda>q. q\<lparr>q_head := NULL, q_tail := NULL, q_size := 0\<rparr>) h;
           Some (p_queue, h)
         })"

definition queue_size :: "ptr \<Rightarrow> ('n, 'z) qheap \<Rightarrow> int option" where
  "queue_size p_queue h =
     (if p_queue = NULL then Some 0
      else do { q \<leftarrow> queues h p_queue; Some (sint (q_size q)) })"

definition queue_is_empty :: "ptr \<Rightarrow> ('n, 'z) qheap \<Rightarrow> bool option" where
  "queue_is_empty p_queue h =
     (if p_queue = NULL then Some True
      else do { size \<leftarrow> queue_size p_queue h; Some (size = 0) })"

definition queue_link :: "ptr \<Rightarrow> ptr \<Rightarrow> ('n, 'z) qheap \<Rightarrow> ('n, 'z) qheap option" where
  "queue_link p_queue p_node h = do {
     empty \<leftarrow> queue_is_empty p_queue h;
     if empty then
       upd_queue p_queue (\<lambda>q. q\<lparr>q_head := p_node, q_tail := p_node, q_size := q_size q + 1\<rparr>) h
     else do {
       h \<leftarrow> upd_queue p_queue (\<lambda>q. q\<lparr>q_size := q_size q + 1\<rparr>) h;
       q \<leftarrow> queues h p_queue;
       h \<leftarrow> upd_qnode (q_tail q) (\<lambda>n. n\<lparr>q_next := p_node\<rparr>) h;
       upd_queue p_queue (\<lambda>q. q\<lparr>q_tail := p_node\<rparr>) h
     }
   }"

definition queue_enqueue ::
  "ptr \<Rightarrow> ptr \<Rightarrow> fptr \<Rightarrow> (unit, 'z) qheap \<Rightarrow> (bool \<times> (unit, 'z) qheap) option" where
  "queue_enqueue p_queue p_data free_f h =
     (if p_data = NULL \<or> p_queue = NULL then Some (False, h)
      else
        let (p_node, h) = calloc_qnode 24 \<lparr>q_data = NULL, q_next = NULL, q_free = NULL\<rparr> h
        in if p_node = NULL then Some (False, h)
           else do {
             h \<leftarrow> upd_qnode p_node (\<lambda>n. n\<lparr>q_data := p_data, q_next := NULL, q_free := free_f\<rparr>) h;
             h \<leftarrow> queue_link p_queue p_node h;
             Some (True, h)
           })"

definition m1_queue_enqueue ::
  "ptr \<Rightarrow> ptr \<Rightarrow> fptr \<Rightarrow> (\<lparr>position :: 32 word\<rparr>, 'z) qheap
     \<Rightarrow> (bool \<times> (\<lparr>position :: 32 word\<rparr>, 'z) qheap) option" where
  "m1_queue_enqueue p_queue p_data free_f h =
     (if p_data = NULL \<or> p_queue = NULL then Some (False, h)
      else
        let (p_node, h) = calloc_qnode 32 \<lparr>q_data = NULL, q_next = NULL, q_free = NULL, position = 0\<rparr> h
        in if p_node = NULL then Some (False, h)
           else do {
             h \<leftarrow> upd_qnode p_node (\<lambda>n. n\<lparr>q_data := p_data, q_next := NULL\<rparr>) h;
             q \<leftarrow> queues h p_queue;
             h \<leftarrow> upd_qnode p_node (\<lambda>n. n\<lparr>position := q_size q, q_free := free_f\<rparr>) h;
             h \<leftarrow> queue_link p_queue p_node h;
             Some (True, h)
           })"

definition queue_dequeue :: "ptr \<Rightarrow> ('n, 'z) qheap \<Rightarrow> (ptr \<times> ('n, 'z) qheap) option" where
  "queue_dequeue p_queue h =
     (if p_queue = NULL then Some (NULL, h)
      else do {
        empty \<leftarrow> queue_is_empty p_queue h;
        if empty then Some (NULL, h)
        else do {
          q \<leftarrow> queues h p_queue;
          n \<leftarrow> qnodes h (q_head q);
          let p_val = q_data n;
          let p_temp = q_head q;
          h \<leftarrow> upd_qnode (q_head q) (\<lambda>n. n\<lparr>q_data := NULL\<rparr>) h;
          h \<leftarrow> upd_queue p_queue (\<lambda>q. q\<lparr>q_head := q_next n, q_size := q_size q - 1\<rparr>) h;
          h \<leftarrow> free_qnode p_temp h;
          Some (p_val, h)
        }
      })"

definition queue_peek :: "ptr \<Rightarrow> ('n, 'z) qheap \<Rightarrow> ptr option" where
  "queue_peek p_queue h =
     (if p_queue = NULL then Some NULL
      else do {
        empty \<leftarrow> queue_is_empty p_queue h;
        if empty then Some NULL
        else do {
          q \<leftarrow> queues h p_queue;
          n \<leftarrow> qnodes h (q_head q);
          Some (q_data n)
        }
      })"

partial_function (option) queue_destroy_loop ::
  "('n, 'z) qfree_call \<Rightarrow> ptr \<Rightarrow> 32 word \<Rightarrow> ptr \<Rightarrow> ('n, 'z) qheap \<Rightarrow> ('n, 'z) qheap option" where
  "queue_destroy_loop call_free p_queue iter p_node h = do {
     q \<leftarrow> queues h p_queue;
     if iter < q_size q then do {
       let p_temp = p_node;
       n \<leftarrow> qnodes h p_node;
       let p_node = q_next n;
       h \<leftarrow> (if q_free n \<noteq> NULL then call_free (q_free n) (q_data n) h else Some h);
       h \<leftarrow> free_qnode p_temp h;
       queue_destroy_loop call_free p_queue (iter + 1) p_node h
     } else Some h
   }"

definition queue_destroy_items ::
  "('n, 'z) qfree_call \<Rightarrow> ptr \<Rightarrow> ('n, 'z) qheap \<Rightarrow> (bool \<times> ('n, 'z) qheap) option" where
  "queue_destroy_items call_free p_queue h =
     (if p_queue = NULL then Some (False, h)
      else do {
        empty \<leftarrow> queue_is_empty p_queue h;
        if empty then Some (True, h)
        else do {
          q \<leftarrow> queues h p_queue;
          h \<leftarrow> queue_destroy_loop call_free p_queue 0 (q_head q) h;
          h \<leftarrow> upd_queue p_queue (\<lambda>q. q\<lparr>q_head := NULL, q_tail := NULL, q_size := 0\<rparr>) h;
          Some (True, h)
        }
      })"

text \<open>
  As for lists, the argument is the value of \<open>*pp_queue\<close>, and the second result is its value
  afterwards: \<open>FREE\<close> clears the pointer it releases.
\<close>

definition queue_destroy ::
  "('n, 'z) qfree_call \<Rightarrow> ptr \<Rightarrow> ('n, 'z) qheap \<Rightarrow> (bool \<times> ptr \<times> ('n, 'z) qheap) option" where
  "queue_destroy call_free p_queue h =
     (if p_queue = NULL then Some (False, p_queue, h)
      else do {
        (des, h) \<leftarrow> queue_destroy_items call_free p_queue h;
        if \<not> des then Some (False, p_queue, h)
        else do {
          h \<leftarrow> free_queue p_queue h;
          Some (True, NULL, h)
        }
      })"

text \<open>
  The other functions of module_1/src/queue.c are, text for text, those above on nodes with a
  position.
\<close>

type_synonym 'z m1_heap = "(\<lparr>position :: 32 word\<rparr>, 'z) qheap"

definition m1_queue_create :: "'z m1_heap \<Rightarrow> (ptr \<times> 'z m1_heap) option" where
  "m1_queue_create = queue_create"

definition m1_queue_size :: "ptr \<Rightarrow> 'z m1_heap \<Rightarrow> int option" where
  "m1_queue_size = queue_size"

definition m1_queue_is_empty :: "ptr \<Rightarrow> 'z m1_heap \<Rightarrow> bool option" where
  "m1_queue_is_empty = queue_is_empty"

definition m1_queue_dequeue :: "ptr \<Rightarrow> 'z m1_heap \<Rightarrow> (ptr \<times> 'z m1_heap) option" where
  "m1_queue_dequeue = queue_dequeue"

definition m1_queue_peek :: "ptr \<Rightarrow> 'z m1_heap \<Rightarrow> ptr option" where
  "m1_queue_peek = queue_peek"

definition m1_queue_destroy_items ::
  "(\<lparr>position :: 32 word\<rparr>, 'z) qfree_call \<Rightarrow> ptr \<Rightarrow> 'z m1_heap \<Rightarrow> (bool \<times> 'z m1_heap) option" where
  "m1_queue_destroy_items = queue_destroy_items"

definition m1_queue_destroy ::
  "(\<lparr>position :: 32 word\<rparr>, 'z) qfree_call \<Rightarrow> ptr \<Rightarrow> 'z m1_heap \<Rightarrow> (bool \<times> ptr \<times> 'z m1_heap) option" where
  "m1_queue_destroy = queue_destroy"

end
