(* ===== verification/CQueueSpec.thy ===== *)
theory CQueueSpec
  imports CQueue CListRep
begin

text \<open>
  The representation of a first-in first-out sequence by the queue of queue.c, and the contract
  of a queue as a locale, interpreted on that queue. The chain predicate of the lists is reused
  on the view \<open>qview\<close> of the queue's nodes.
\<close>

section \<open>Representation\<close>

definition qview :: "(ptr \<rightharpoonup> 'n queue_node_t_scheme) \<Rightarrow> ptr \<rightharpoonup> list_node_t" where
  "qview m a = map_option (\<lambda>n. \<lparr>n_data = q_data n, n_next = q_next n, n_free = q_free n\<rparr>) (m a)"

lemma qview_upd [simp]:
  "qview (m(a \<mapsto> n)) = (qview m)(a \<mapsto> \<lparr>n_data = q_data n, n_next = q_next n, n_free = q_free n\<rparr>)"
  "qview (m(a := None)) = (qview m)(a := None)"
  by (auto simp: qview_def)

lemma qview_Some [simp]:
  "m a = Some n \<Longrightarrow> qview m a = Some \<lparr>n_data = q_data n, n_next = q_next n, n_free = q_free n\<rparr>"
  by (simp add: qview_def)

lemma qview_SomeE:
  assumes "qview m a = Some x"
  obtains n where "m a = Some n" "x = \<lparr>n_data = q_data n, n_next = q_next n, n_free = q_free n\<rparr>"
  using assms by (auto simp: qview_def)

definition qheap_ok :: "('n, 'z) qheap \<Rightarrow> bool" where
  "qheap_ok h \<longleftrightarrow> 0 < brk h
     \<and> (\<forall>q n. qnodes h q = Some n \<longrightarrow> 0 < q \<and> q < brk h)
     \<and> (\<forall>q n. queues h q = Some n \<longrightarrow> 0 < q \<and> q < brk h)"

definition queue_at :: "('n, 'z) qheap \<Rightarrow> ptr \<Rightarrow> ptr list \<Rightarrow> bool" where
  "queue_at h p ps \<longleftrightarrow>
     (\<exists>q. queues h p = Some q \<and> q_size q = of_nat (length ps) \<and> length ps < 2 ^ 32
        \<and> distinct ps
        \<and> (ps \<noteq> [] \<longrightarrow> q_tail q = last ps \<and> path (qview (qnodes h)) (q_head q) ps NULL))"

definition qrep :: "('n, 'z) qheap \<Rightarrow> ptr \<Rightarrow> (ptr \<times> fptr) list \<Rightarrow> bool" where
  "qrep h p xs \<longleftrightarrow> qheap_ok h
     \<and> (\<exists>ps. queue_at h p ps \<and> xs = items (qview (qnodes h)) ps \<and> (\<forall>x \<in> set xs. fst x \<noteq> NULL))"

lemma queue_atE:
  assumes "queue_at h p ps"
  obtains q where "queues h p = Some q" "q_size q = of_nat (length ps)" "length ps < 2 ^ 32"
    "distinct ps" "ps \<noteq> [] \<Longrightarrow> q_tail q = last ps \<and> path (qview (qnodes h)) (q_head q) ps NULL"
  using assms by (auto simp: queue_at_def)

lemma qheap_ok_NULL [simp]: "qheap_ok h \<Longrightarrow> qnodes h NULL = None" "qheap_ok h \<Longrightarrow> queues h NULL = None"
  unfolding qheap_ok_def by (metis less_irrefl not_None_eq)+

lemma qheap_ok_fresh [simp]:
  "qheap_ok h \<Longrightarrow> qnodes h (brk h) = None" "qheap_ok h \<Longrightarrow> queues h (brk h) = None"
  unfolding qheap_ok_def by (metis less_irrefl not_None_eq)+

lemma qheap_ok_below:
  "qheap_ok h \<Longrightarrow> qnodes h a = Some n \<Longrightarrow> 0 < a \<and> a < brk h"
  "qheap_ok h \<Longrightarrow> queues h a = Some q \<Longrightarrow> 0 < a \<and> a < brk h"
  unfolding qheap_ok_def by blast+

lemma qheap_ok_grow:
  assumes ok: "qheap_ok h" and brk: "brk h \<le> brk h'"
    and n: "\<And>a n. qnodes h' a = Some n \<Longrightarrow> qnodes h a = None \<Longrightarrow> a = brk h \<and> brk h < brk h'"
    and q: "\<And>a n. queues h' a = Some n \<Longrightarrow> queues h a = None \<Longrightarrow> a = brk h \<and> brk h < brk h'"
  shows "qheap_ok h'"
proof -
  have b: "0 < brk h" using ok by (simp add: qheap_ok_def)
  have 1: "0 < a \<and> a < brk h'" if x: "qnodes h' a = Some m" for a m
  proof (cases "qnodes h a")
    case None
    with n [OF x] b show ?thesis by simp
  next
    case (Some m')
    from qheap_ok_below(1) [OF ok this] brk show ?thesis by simp
  qed
  have 2: "0 < a \<and> a < brk h'" if x: "queues h' a = Some m" for a m
  proof (cases "queues h a")
    case None
    with q [OF x] b show ?thesis by simp
  next
    case (Some m')
    from qheap_ok_below(2) [OF ok this] brk show ?thesis by simp
  qed
  show ?thesis unfolding qheap_ok_def using 1 2 b brk by (meson less_le_trans)
qed

lemma queue_at_nonnull: "qheap_ok h \<Longrightarrow> queue_at h p ps \<Longrightarrow> p \<noteq> NULL"
  by (metis queue_at_def qheap_ok_NULL(2) option.distinct(1))

lemma queue_at_mapped:
  assumes "queue_at h p ps" "a \<in> set ps"
  shows "\<exists>n. qnodes h a = Some n"
proof -
  from assms obtain q :: queue_t where "path (qview (qnodes h)) (q_head q) ps NULL"
    unfolding queue_at_def by (metis empty_iff list.set(1))
  from path_mapped [OF this assms(2)] show ?thesis by (auto simp: qview_def)
qed

lemma queue_is_empty_at:
  assumes "qheap_ok h" "queue_at h p ps"
  shows "queue_is_empty p h = Some (ps = [])"
proof -
  obtain q where "queues h p = Some q" "q_size q = of_nat (length ps)" "length ps < 2 ^ 32"
    by (rule queue_atE [OF assms(2)]) auto
  then show ?thesis using queue_at_nonnull [OF assms]
    by (simp add: queue_is_empty_def queue_size_def sint_eq_0_iff of_nat_32_eq_0)
qed

section \<open>What the operations leave alone\<close>

definition qframe :: "('n, 'z) qheap \<Rightarrow> ('n, 'z) qheap \<Rightarrow> ptr \<Rightarrow> ptr set \<Rightarrow> bool" where
  "qframe h h' p A \<longleftrightarrow> brk h \<le> brk h' \<and> oom h' = oom h \<and> queue_heap.more h' = queue_heap.more h
     \<and> (\<forall>q. q \<noteq> p \<longrightarrow> queues h' q = queues h q) \<and> (\<forall>a. a \<notin> A \<and> a < brk h \<longrightarrow> qnodes h' a = qnodes h a)"

section \<open>The operations on a represented queue\<close>

lemma queue_link_at:
  assumes ok: "qheap_ok h" and at: "queue_at h p ps" and n: "qnodes h b = Some n" "q_next n = NULL"
    and b: "b \<notin> set ps" and len: "Suc (length ps) < 2 ^ 32"
  shows "\<exists>h'. queue_link p b h = Some h' \<and> qheap_ok h' \<and> queue_at h' p (ps @ [b])
     \<and> items (qview (qnodes h')) (ps @ [b]) = items (qview (qnodes h)) (ps @ [b]) \<and> qframe h h' p (set ps)"
proof -
  obtain q where q: "queues h p = Some q" "q_size q = of_nat (length ps)" "distinct ps"
    "ps \<noteq> [] \<Longrightarrow> q_tail q = last ps \<and> path (qview (qnodes h)) (q_head q) ps NULL"
    by (rule queue_atE [OF at]) auto
  show ?thesis
  proof (cases "ps = []")
    case True
    let ?h = "h\<lparr>queues := (queues h)(p \<mapsto> q\<lparr>q_head := b, q_tail := b, q_size := q_size q + 1\<rparr>)\<rparr>"
    have "queue_link p b h = Some ?h" using True q(1) queue_is_empty_at [OF ok at]
      by (simp add: queue_link_def heap_defs)
    moreover have "queue_at ?h p [b]" using q(2) n True by (simp add: queue_at_def)
    moreover have "qheap_ok ?h" using ok q(1) by (auto simp: qheap_ok_def)
    ultimately show ?thesis using True by (auto simp: qframe_def)
  next
    case False
    then obtain bs t where ps: "ps = bs @ [t]" by (cases ps rule: rev_cases) auto
    obtain m where m: "qnodes h t = Some m" using queue_at_mapped [OF at, of t] ps by auto
    have bt: "b \<noteq> t" using b ps by auto
    have tail: "q_tail q = t" using q(4) ps by simp
    let ?h = "h\<lparr>qnodes := (qnodes h)(t \<mapsto> m\<lparr>q_next := b\<rparr>),
                queues := (queues h)(p \<mapsto> q\<lparr>q_size := q_size q + 1, q_tail := b\<rparr>)\<rparr>"
    have "queue_link p b h = Some ?h" using False q(1) queue_is_empty_at [OF ok at] m tail
      by (simp add: queue_link_def heap_defs fun_upd_def)
        (rule queue_heap.equality, simp_all add: fun_eq_iff)
    moreover have "queue_at ?h p (ps @ [b])"
      using q ps m n b len bt by (auto simp: queue_at_def)
    moreover have "qheap_ok ?h" using ok q(1) m by (auto simp: qheap_ok_def)
    moreover have "items (qview (qnodes ?h)) (ps @ [b]) = items (qview (qnodes h)) (ps @ [b])"
      using m by (auto simp: node_item_def qview_def)
    ultimately show ?thesis using ps by (intro exI [of _ ?h]) (simp add: qframe_def)
  qed
qed

lemma calloc_qnode_ok:
  "can_alloc h \<Longrightarrow> qheap_ok h \<Longrightarrow> calloc_qnode sz z h
     = (brk h, h\<lparr>allocs := Suc (allocs h), brk := brk h + sz, qnodes := (qnodes h)(brk h \<mapsto> z)\<rparr>)"
  by (simp add: calloc_qnode_def calloc_def qheap_ok_def)

lemma calloc_qnode_oom: "\<not> can_alloc h \<Longrightarrow> calloc_qnode sz z h = (NULL, h\<lparr>allocs := Suc (allocs h)\<rparr>)"
  by (simp add: calloc_qnode_def calloc_def)

lemma queue_at_below: "qheap_ok h \<Longrightarrow> queue_at h p ps \<Longrightarrow> a \<in> set ps \<Longrightarrow> a < brk h"
  using queue_at_mapped by (metis qheap_ok_def)

lemma items_qview_cong:
  "(\<And>a. a \<in> set ps \<Longrightarrow> m a = m' a) \<Longrightarrow> items (qview m) ps = items (qview m') ps"
  by (auto simp: node_item_def qview_def)

lemma queue_at_frame:
  assumes "qframe h h' p A" "qheap_ok h" "queue_at h q ps" "q \<noteq> p" "set ps \<inter> A = {}"
  shows "queue_at h' q ps" "items (qview (qnodes h')) ps = items (qview (qnodes h)) ps"
proof -
  have same: "qnodes h' a = qnodes h a" if "a \<in> set ps" for a
    using assms(1,5) queue_at_below [OF assms(2,3) that] that by (auto simp: qframe_def)
  then have "path (qview (qnodes h')) b ps r = path (qview (qnodes h)) b ps r" for b r
    by (intro path_cong) (simp add: qview_def)
  moreover have "queues h' q = queues h q" using assms(1,4) by (simp add: qframe_def)
  ultimately show "queue_at h' q ps" using assms(3) by (simp add: queue_at_def)
  show "items (qview (qnodes h')) ps = items (qview (qnodes h)) ps" by (rule items_qview_cong [OF same])
qed

text \<open>The heap that \<open>queue_enqueue\<close> passes to \<open>queue_link\<close>, for both versions of the node.\<close>

lemma fresh_qnode:
  assumes ok: "qheap_ok h" and at: "queue_at h p ps" and n: "q_next n = NULL" and sz: "0 < sz"
  defines "h1 \<equiv> h\<lparr>allocs := Suc (allocs h), brk := brk h + sz, qnodes := (qnodes h)(brk h \<mapsto> n)\<rparr>"
  shows "qheap_ok h1" "queue_at h1 p ps" "brk h \<notin> set ps"
    "items (qview (qnodes h1)) (ps @ [brk h]) = items (qview (qnodes h)) ps @ [(q_data n, q_free n)]"
proof -
  show b: "brk h \<notin> set ps" using queue_at_below [OF ok at] by blast
  show "qheap_ok h1" by (rule qheap_ok_grow [OF ok]) (use sz in \<open>auto simp: h1_def split: if_splits\<close>)
  show "queue_at h1 p ps" using at b by (auto simp: queue_at_def h1_def)
  show "items (qview (qnodes h1)) (ps @ [brk h]) = items (qview (qnodes h)) ps @ [(q_data n, q_free n)]"
    using b items_qview_cong [of ps "(qnodes h)(brk h \<mapsto> n)" "qnodes h"] by (auto simp: h1_def)
qed

lemma link_fresh:
  assumes rep: "qrep h p xs" and n: "q_next n = NULL" "q_data n \<noteq> NULL" and sz: "0 < sz"
    and len: "Suc (length xs) < 2 ^ 32"
  defines "h1 \<equiv> h\<lparr>allocs := Suc (allocs h), brk := brk h + sz, qnodes := (qnodes h)(brk h \<mapsto> n)\<rparr>"
  shows "\<exists>h'. queue_link p (brk h) h1 = Some h' \<and> qrep h' p (xs @ [(q_data n, q_free n)]) \<and> oom h' = oom h"
proof -
  obtain ps where at: "qheap_ok h" "queue_at h p ps" "xs = items (qview (qnodes h)) ps" "\<forall>x \<in> set xs. fst x \<noteq> NULL"
    using rep by (auto simp: qrep_def)
  note f = fresh_qnode [OF at(1,2) n(1) sz, folded h1_def]
  have l: "Suc (length ps) < 2 ^ 32" using len at(3) by simp
  have b: "qnodes h1 (brk h) = Some n" by (simp add: h1_def)
  obtain h' where h': "queue_link p (brk h) h1 = Some h'" "qheap_ok h'" "queue_at h' p (ps @ [brk h])"
      "items (qview (qnodes h')) (ps @ [brk h]) = xs @ [(q_data n, q_free n)]" "oom h' = oom h1"
    using queue_link_at [OF f(1,2) b n(1) f(3) l] f(4) at(3) by (auto simp: qframe_def)
  have "oom h1 = oom h" by (simp add: h1_def)
  moreover have "\<forall>x \<in> set (xs @ [(q_data n, q_free n)]). fst x \<noteq> NULL" using at(4) n(2) by auto
  ultimately show ?thesis using h' unfolding qrep_def
    by (intro exI [of _ h'] conjI exI [of _ "ps @ [brk h]"]) simp_all
qed

lemma qrep_facts:
  assumes "qrep h p xs"
  shows "qheap_ok h" "p \<noteq> NULL" "brk h \<noteq> NULL" "\<exists>q. queues h p = Some q \<and> q_size q = of_nat (length xs)"
proof -
  obtain ps where at: "qheap_ok h" "queue_at h p ps" "length ps = length xs"
    using assms by (auto simp: qrep_def)
  show "qheap_ok h" "p \<noteq> NULL" using at(1) queue_at_nonnull [OF at(1,2)] by auto
  show "brk h \<noteq> NULL" using at(1) by (simp add: qheap_ok_def)
  show "\<exists>q. queues h p = Some q \<and> q_size q = of_nat (length xs)"
    using at(2,3) by (auto simp: queue_at_def)
qed

lemma qrep_allocs [simp]: "qrep (h\<lparr>allocs := k\<rparr>) p xs = qrep h p xs"
  by (simp add: qrep_def qheap_ok_def queue_at_def)

lemma queue_enqueue_spec:
  assumes rep: "qrep h p xs" and d: "d \<noteq> NULL" and len: "Suc (length xs) < 2 ^ 32"
  shows "\<exists>h'. queue_enqueue p d f h = Some (can_alloc h, h')
     \<and> qrep h' p (if can_alloc h then xs @ [(d, f)] else xs) \<and> oom h' = oom h"
proof (cases "can_alloc h")
  case False
  then show ?thesis using qrep_facts(2) [OF rep] d rep by (simp add: queue_enqueue_def calloc_qnode_oom)
next
  case True
  let ?n = "\<lparr>q_data = d, q_next = NULL, q_free = f\<rparr>"
  obtain h' where "queue_link p (brk h) (h\<lparr>allocs := Suc (allocs h), brk := brk h + 24,
      qnodes := (qnodes h)(brk h \<mapsto> ?n)\<rparr>) = Some h'" "qrep h' p (xs @ [(d, f)])" "oom h' = oom h"
    using link_fresh [OF rep, of ?n 24] d len by auto
  then show ?thesis using True d qrep_facts [OF rep] calloc_qnode_ok [OF True]
    by (simp add: queue_enqueue_def heap_defs)
qed

lemma m1_queue_enqueue_spec:
  assumes rep: "qrep h p xs" and d: "d \<noteq> NULL" and len: "Suc (length xs) < 2 ^ 32"
  shows "\<exists>h'. m1_queue_enqueue p d f h = Some (can_alloc h, h')
     \<and> qrep h' p (if can_alloc h then xs @ [(d, f)] else xs) \<and> oom h' = oom h"
proof (cases "can_alloc h")
  case False
  then show ?thesis using qrep_facts(2) [OF rep] d rep by (simp add: m1_queue_enqueue_def calloc_qnode_oom)
next
  case True
  obtain q where q: "queues h p = Some q" using qrep_facts(4) [OF rep] by auto
  let ?n = "\<lparr>q_data = d, q_next = NULL, q_free = f, position = q_size q\<rparr>"
  obtain h' where "queue_link p (brk h) (h\<lparr>allocs := Suc (allocs h), brk := brk h + 32,
      qnodes := (qnodes h)(brk h \<mapsto> ?n)\<rparr>) = Some h'" "qrep h' p (xs @ [(d, f)])" "oom h' = oom h"
    using link_fresh [OF rep, of ?n 32] d len by auto
  then show ?thesis using True d q qrep_facts [OF rep] calloc_qnode_ok [OF True]
    by (simp add: m1_queue_enqueue_def heap_defs)
qed

lemma dequeue_at:
  assumes ok: "qheap_ok h" and at: "queue_at h p (a # as)"
  shows "\<exists>h'. queue_dequeue p h = Some (fst (node_item (qview (qnodes h)) a), h') \<and> qheap_ok h' \<and> queue_at h' p as
    \<and> items (qview (qnodes h')) as = items (qview (qnodes h)) as \<and> qframe h h' p {a}"
proof -
  obtain q where q: "queues h p = Some q" "q_size q = of_nat (length (a # as))" "length (a # as) < 2 ^ 32" "distinct (a # as)"
      "q_tail q = last (a # as)" "path (qview (qnodes h)) (q_head q) (a # as) NULL"
    by (rule queue_atE [OF at]) auto
  obtain n where n: "qnodes h a = Some n" "q_head q = a" "path (qview (qnodes h)) (q_next n) as NULL"
    using q(6) queue_at_mapped [OF at, of a] by auto
  have a: "a \<noteq> NULL" "a \<notin> set as" using ok n(1) q(4) by (auto simp: qheap_ok_def)
  let ?h = "h\<lparr>qnodes := (qnodes h)(a := None), queues := (queues h)(p \<mapsto> q\<lparr>q_head := q_next n, q_size := q_size q - 1\<rparr>)\<rparr>"
  have "queue_dequeue p h = Some (q_data n, ?h)"
    using q(1) n a queue_is_empty_at [OF ok at] queue_at_nonnull [OF ok at]
    by (simp add: queue_dequeue_def heap_defs fun_upd_def) (rule queue_heap.equality, simp_all add: fun_eq_iff)
  moreover have "queue_at ?h p as" using q n a by (auto simp: queue_at_def)
  moreover have "qheap_ok ?h" using ok q(1) by (auto simp: qheap_ok_def)
  moreover have "items (qview (qnodes ?h)) as = items (qview (qnodes h)) as"
    using a by (auto simp: node_item_def qview_def)
  ultimately show ?thesis using n by (intro exI [of _ ?h]) (simp add: qframe_def)
qed

lemma queue_dequeue_spec:
  assumes rep: "qrep h p xs"
  shows "\<exists>h'. queue_dequeue p h = Some (case xs of [] \<Rightarrow> NULL | x # _ \<Rightarrow> fst x, h')
     \<and> qrep h' p (tl xs) \<and> (xs = [] \<longrightarrow> h' = h) \<and> oom h' = oom h"
proof -
  obtain ps where at: "qheap_ok h" "queue_at h p ps" "xs = items (qview (qnodes h)) ps" "\<forall>x \<in> set xs. fst x \<noteq> NULL"
    using rep by (auto simp: qrep_def)
  have p: "p \<noteq> NULL" using queue_at_nonnull [OF at(1,2)] .
  show ?thesis
  proof (cases ps)
    case Nil
    then show ?thesis using at(3) p queue_is_empty_at [OF at(1,2)] rep by (simp add: queue_dequeue_def)
  next
    case (Cons a as)
    from dequeue_at [OF at(1) at(2) [unfolded Cons]] obtain h' where h': "queue_dequeue p h = Some (fst (node_item (qview (qnodes h)) a), h')"
      "qheap_ok h'" "queue_at h' p as" "items (qview (qnodes h')) as = tl xs" "oom h' = oom h"
      using at(3) Cons by (auto simp: qframe_def)
    then show ?thesis using at(3,4) Cons unfolding qrep_def by (intro exI [of _ h'] conjI exI [of _ as]) auto
  qed
qed

lemma queue_peek_spec:
  assumes rep: "qrep h p xs"
  shows "queue_peek p h = Some (case xs of [] \<Rightarrow> NULL | x # _ \<Rightarrow> fst x)"
proof -
  obtain ps where at: "qheap_ok h" "queue_at h p ps" "xs = items (qview (qnodes h)) ps"
    using rep by (auto simp: qrep_def)
  show ?thesis
  proof (cases ps)
    case Nil
    then show ?thesis using at(3) queue_is_empty_at [OF at(1,2)] by (simp add: queue_peek_def)
  next
    case (Cons a as)
    obtain q where q: "queues h p = Some q" "path (qview (qnodes h)) (q_head q) ps NULL"
      by (rule queue_atE [OF at(2)]) (auto simp: Cons)
    obtain n where n: "qnodes h a = Some n" "q_head q = a"
      using q(2) Cons queue_at_mapped [OF at(2), of a] by auto
    then show ?thesis using q(1) at(3) Cons queue_is_empty_at [OF at(1,2)] queue_at_nonnull [OF at(1,2)]
      by (simp add: queue_peek_def)
  qed
qed

lemma queue_create_spec:
  assumes ok: "qheap_ok h"
  shows "\<exists>p h'. queue_create h = Some (p, h') \<and> oom h' = oom h
     \<and> (if can_alloc h then p = brk h \<and> qrep h' p [] else p = NULL)"
proof (cases "can_alloc h")
  case True
  let ?h = "h\<lparr>allocs := Suc (allocs h), brk := brk h + 24,
      queues := (queues h)(brk h \<mapsto> \<lparr>q_head = NULL, q_tail = NULL, q_size = 0\<rparr>)\<rparr>"
  have b: "0 < brk h" using ok by (simp add: qheap_ok_def)
  then have "queue_create h = Some (brk h, ?h)"
    using True by (simp add: queue_create_def calloc_queue_def calloc_def heap_defs)
  moreover have "qheap_ok ?h" by (rule qheap_ok_grow [OF ok]) (auto split: if_splits)
  moreover have "queue_at ?h (brk h) []" by (simp add: queue_at_def)
  ultimately show ?thesis using True by (auto simp: qrep_def)
next
  case False
  then show ?thesis by (simp add: queue_create_def calloc_queue_def calloc_def)
qed


section \<open>Destruction\<close>

text \<open>What the callbacks of a sequence of elements do to the client's part of the heap.\<close>

abbreviation qwith_more :: "('n, 'z) qheap \<Rightarrow> 'z \<Rightarrow> ('n, 'z) qheap" where
  "qwith_more h z \<equiv> queue_heap.more_update (\<lambda>_. z) h"

lemma qwith_more_upd [simp]:
  "qwith_more (h\<lparr>qnodes := m\<rparr>) z = (qwith_more h z)\<lparr>qnodes := m\<rparr>"
  "qwith_more (h\<lparr>queues := m'\<rparr>) z = (qwith_more h z)\<lparr>queues := m'\<rparr>"
  by (rule queue_heap.equality; simp)+

primrec qfree_all :: "(fptr \<Rightarrow> ptr \<Rightarrow> 'z \<Rightarrow> 'z option) \<Rightarrow> (ptr \<times> fptr) list \<Rightarrow> 'z \<Rightarrow> 'z option" where
  "qfree_all eff [] z = Some z"
| "qfree_all eff (x # xs) z =
     (if snd x \<noteq> NULL then eff (snd x) (fst x) z else Some z) \<bind> qfree_all eff xs"

locale qfree_contract =
  fixes call_free :: "('n, 'z) qfree_call"
    and eff :: "fptr \<Rightarrow> ptr \<Rightarrow> 'z \<Rightarrow> 'z option"
  assumes free_local: "f \<noteq> NULL \<Longrightarrow>
    call_free f d h = map_option (qwith_more h) (eff f d (queue_heap.more h))"
begin

lemma queue_destroy_loop_eval:
  assumes "path (qview (qnodes h)) a ps r" "queues h p = Some q" "q_size q = of_nat n" "n < 2 ^ 32"
    and "n = i + length ps" "distinct ps" "NULL \<notin> set ps"
  shows "queue_destroy_loop call_free p (of_nat i) a h
    = map_option (\<lambda>z. qwith_more (h\<lparr>qnodes := qnodes h |` (- set ps)\<rparr>) z)
        (qfree_all eff (items (qview (qnodes h)) ps) (queue_heap.more h))"
  using assms
proof (induction ps arbitrary: i a h)
  case Nil
  then show ?case by (subst queue_destroy_loop.simps) (simp add: restrict_map_def)
next
  case (Cons b bs)
  obtain nb where nb: "qnodes h b = Some nb" "a = b" "path (qview (qnodes h)) (q_next nb) bs r"
    using Cons.prems(1) by (auto elim: qview_SomeE)
  have lt: "(of_nat i :: 32 word) < q_size q"
    unfolding Cons.prems(3) using of_nat_32_less [of i n] Cons.prems(4,5) by simp
  have b: "b \<noteq> NULL" "b \<notin> set bs" using Cons.prems(6,7) by auto
  let ?eff = "if q_free nb \<noteq> NULL then eff (q_free nb) (q_data nb) (queue_heap.more h) else Some (queue_heap.more h)"
  have call: "(if q_free nb \<noteq> NULL then call_free (q_free nb) (q_data nb) h else Some h)
      = map_option (qwith_more h) ?eff"
    using free_local by simp
  show ?case
  proof (cases ?eff)
    case None
    then show ?thesis using nb lt Cons.prems(2) call
      by (subst queue_destroy_loop.simps) (simp add: Let_def split: if_splits)
  next
    case (Some z)
    let ?h = "qwith_more (h\<lparr>qnodes := (qnodes h)(b := None)\<rparr>) z"
    have "queue_destroy_loop call_free p (of_nat i) a h = queue_destroy_loop call_free p (of_nat (Suc i)) (q_next nb) ?h"
      using nb lt b Cons.prems(2) call Some
      by (subst queue_destroy_loop.simps) (simp add: Let_def heap_defs add.commute [of 1])
    also have "\<dots> = map_option (qwith_more (?h\<lparr>qnodes := qnodes ?h |` (- set bs)\<rparr>))
        (qfree_all eff (items (qview (qnodes ?h)) bs) (queue_heap.more ?h))"
      using path_upd_other [OF b(2), of "qview (qnodes h)" None "q_next nb" r] nb(3) Cons.prems(2-7)
      by (intro Cons.IH) (simp_all add: fun_upd_def qview_upd(2) [unfolded fun_upd_def])
    finally have ev: "queue_destroy_loop call_free p (of_nat i) a h = \<dots>" .
    have it: "items ((qview (qnodes h))(b := None)) bs = items (qview (qnodes h)) bs"
      using b(2) by (rule items_upd_other)
    show ?thesis unfolding ev using nb(1) Some b by (simp add: it Compl_insert split: if_splits)
  qed
qed

lemma queue_destroy_spec:
  assumes rep: "qrep h p xs"
  shows "\<exists>h0 A. queue_destroy call_free p h
      = map_option (\<lambda>z. (True, NULL, qwith_more h0 z)) (qfree_all eff xs (queue_heap.more h))
    \<and> qnodes h0 = qnodes h |` (- A) \<and> card A = length xs \<and> A \<subseteq> dom (qnodes h)
    \<and> queues h0 = (queues h)(p := None) \<and> brk h0 = brk h"
proof -
  obtain ps where at: "qheap_ok h" "queue_at h p ps" "xs = items (qview (qnodes h)) ps"
    using rep by (auto simp: qrep_def)
  have p: "p \<noteq> NULL" using queue_at_nonnull [OF at(1,2)] .
  obtain q where q: "queues h p = Some q" "q_size q = of_nat (length ps)" "length ps < 2 ^ 32" "distinct ps"
      "ps \<noteq> [] \<Longrightarrow> q_tail q = last ps \<and> path (qview (qnodes h)) (q_head q) ps NULL"
    by (rule queue_atE [OF at(2)]) auto
  have z: "NULL \<notin> set ps" using queue_at_mapped [OF at(2)] at(1) by fastforce
  have card: "card (set ps) = length xs" "set ps \<subseteq> dom (qnodes h)"
    using at(3) q(4) queue_at_mapped [OF at(2)] by (auto simp: distinct_card)
  let ?h0 = "h\<lparr>qnodes := qnodes h |` (- set ps), queues := (queues h)(p := None)\<rparr>"
  have "queue_destroy call_free p h
      = map_option (\<lambda>z. (True, NULL, qwith_more ?h0 z)) (qfree_all eff xs (queue_heap.more h))"
  proof (cases "ps = []")
    case True
    then show ?thesis using p q(1) at(3) queue_is_empty_at [OF at(1,2)]
      by (simp add: queue_destroy_def queue_destroy_items_def heap_defs restrict_map_def)
  next
    case False
    then have "queue_destroy_loop call_free p 0 (q_head q) h
      = map_option (\<lambda>z. qwith_more (h\<lparr>qnodes := qnodes h |` (- set ps)\<rparr>) z) (qfree_all eff xs (queue_heap.more h))"
      using queue_destroy_loop_eval [of h "q_head q" ps NULL p q "length ps" 0] q z at(3) by simp
    then show ?thesis using False p q(1) queue_is_empty_at [OF at(1,2)]
      by (cases "qfree_all eff xs (queue_heap.more h)")
        (simp_all add: queue_destroy_def queue_destroy_items_def heap_defs)
  qed
  then show ?thesis using card by (intro exI [of _ ?h0] exI [of _ "set ps"]) simp
qed

end

section \<open>The contract of a queue\<close>

datatype 'a qop = Enq 'a | Deq

text \<open>Run operations; the results are the accepted elements and the dequeued data.\<close>

fun run_ops ::
  "('a \<Rightarrow> 'h \<Rightarrow> (bool \<times> 'h) option) \<Rightarrow> ('h \<Rightarrow> (ptr \<times> 'h) option) \<Rightarrow> 'a qop list \<Rightarrow> 'h
     \<Rightarrow> ('a list \<times> ptr list \<times> 'h) option" where
  "run_ops enq deq [] h = Some ([], [], h)"
| "run_ops enq deq (Enq x # ops) h = do {
     (b, h) \<leftarrow> enq x h;
     (acc, out, h) \<leftarrow> run_ops enq deq ops h;
     Some (if b then x # acc else acc, out, h)
   }"
| "run_ops enq deq (Deq # ops) h = do {
     (v, h) \<leftarrow> deq h;
     (acc, out, h) \<leftarrow> run_ops enq deq ops h;
     Some (acc, if v \<noteq> NULL then v # out else out, h)
   }"

locale fifo =
  fixes rep :: "'h \<Rightarrow> 'a list \<Rightarrow> bool"
    and enq :: "'a \<Rightarrow> 'h \<Rightarrow> (bool \<times> 'h) option"
    and deq :: "'h \<Rightarrow> (ptr \<times> 'h) option"
    and val :: "'a \<Rightarrow> ptr"
    and cap :: nat
  assumes enq_rep: "rep h xs \<Longrightarrow> val x \<noteq> NULL \<Longrightarrow> Suc (length xs) < cap
      \<Longrightarrow> \<exists>b h'. enq x h = Some (b, h') \<and> rep h' (if b then xs @ [x] else xs)"
    and deq_rep: "rep h xs
      \<Longrightarrow> \<exists>h'. deq h = Some (case xs of [] \<Rightarrow> NULL | x # _ \<Rightarrow> val x, h') \<and> rep h' (tl xs)"
    and rep_val: "rep h xs \<Longrightarrow> x \<in> set xs \<Longrightarrow> val x \<noteq> NULL"
begin

lemma fifo_order:
  assumes "rep h xs" "\<forall>x. Enq x \<in> set ops \<longrightarrow> val x \<noteq> NULL" "length xs + length ops < cap"
  shows "\<exists>acc out h' ys. run_ops enq deq ops h = Some (acc, out, h') \<and> rep h' ys
     \<and> map val (xs @ acc) = out @ map val ys"
  using assms
proof (induction ops arbitrary: h xs)
  case Nil
  then show ?case by auto
next
  case (Cons op ops)
  show ?case
  proof (cases op)
    case (Enq x)
    obtain b h1 where 1: "enq x h = Some (b, h1)" "rep h1 (if b then xs @ [x] else xs)"
      using enq_rep [OF Cons.prems(1), of x] Cons.prems(2,3) Enq by auto
    have len: "length (if b then xs @ [x] else xs) + length ops < cap" using Cons.prems(3) by simp
    obtain acc out h' ys where 2: "run_ops enq deq ops h1 = Some (acc, out, h')" "rep h' ys"
        "map val ((if b then xs @ [x] else xs) @ acc) = out @ map val ys"
      using Cons.IH [OF 1(2) _ len] Cons.prems(2) by auto
    show ?thesis using 1(1) 2 Enq by (cases b) auto
  next
    case Deq
    obtain h1 where 1: "deq h = Some (case xs of [] \<Rightarrow> NULL | x # _ \<Rightarrow> val x, h1)" "rep h1 (tl xs)"
      using deq_rep [OF Cons.prems(1)] by auto
    have len: "length (tl xs) + length ops < cap" using Cons.prems(3) by simp
    obtain acc out h' ys where 2: "run_ops enq deq ops h1 = Some (acc, out, h')" "rep h' ys"
        "map val (tl xs @ acc) = out @ map val ys"
      using Cons.IH [OF 1(2) _ len] Cons.prems(2) by auto
    show ?thesis using 1(1) 2 Deq rep_val [OF Cons.prems(1)] by (cases xs) auto
  qed
qed

end

text \<open>The C queue meets the contract: an element is a pair of data and free function.\<close>

interpretation cq: fifo "\<lambda>h. qrep h p" "\<lambda>x. queue_enqueue p (fst x) (snd x)" "queue_dequeue p" fst "2 ^ 32"
proof unfold_locales
  fix h :: "(unit, 'z) qheap" and xs :: "(ptr \<times> fptr) list" and x :: "ptr \<times> fptr"
  show "\<exists>b h'. queue_enqueue p (fst x) (snd x) h = Some (b, h') \<and> qrep h' p (if b then xs @ [x] else xs)"
    if "qrep h p xs" "fst x \<noteq> NULL" "Suc (length xs) < 2 ^ 32"
    using queue_enqueue_spec [OF that, of "snd x"] by (metis prod.collapse)
  show "\<exists>h'. queue_dequeue p h = Some (case xs of [] \<Rightarrow> NULL | x # _ \<Rightarrow> fst x, h') \<and> qrep h' p (tl xs)"
    if "qrep h p xs" using queue_dequeue_spec [OF that] by blast
  show "fst x \<noteq> NULL" if "qrep h p xs" "x \<in> set xs" using that unfolding qrep_def by blast
qed


interpretation mq: fifo "\<lambda>h. qrep h p" "\<lambda>x. m1_queue_enqueue p (fst x) (snd x)" "queue_dequeue p" fst "2 ^ 32"
proof unfold_locales
  fix h :: "(\<lparr>position :: 32 word\<rparr>, 'z) qheap" and xs :: "(ptr \<times> fptr) list" and x :: "ptr \<times> fptr"
  show "\<exists>b h'. m1_queue_enqueue p (fst x) (snd x) h = Some (b, h') \<and> qrep h' p (if b then xs @ [x] else xs)"
    if "qrep h p xs" "fst x \<noteq> NULL" "Suc (length xs) < 2 ^ 32"
    using m1_queue_enqueue_spec [OF that, of "snd x"] by (metis prod.collapse)
  show "\<exists>h'. queue_dequeue p h = Some (case xs of [] \<Rightarrow> NULL | x # _ \<Rightarrow> fst x, h') \<and> qrep h' p (tl xs)"
    if "qrep h p xs" using queue_dequeue_spec [OF that] by blast
  show "fst x \<noteq> NULL" if "qrep h p xs" "x \<in> set xs" using that unfolding qrep_def by blast
qed


section \<open>Properties of the queue\<close>

definition ex_queue_heap :: "nat \<Rightarrow> 'z \<Rightarrow> (unit, 'z) qheap" where
  "ex_queue_heap bad z = \<lparr>brk = 8, allocs = 0, oom = (\<lambda>n. n = bad), qnodes = Map.empty,
     queues = [4 \<mapsto> \<lparr>q_head = NULL, q_tail = NULL, q_size = 0\<rparr>], \<dots> = z\<rparr>"

lemma ex_queue_rep: "qrep (ex_queue_heap bad z) 4 []"
  by (simp add: ex_queue_heap_def qrep_def qheap_ok_def queue_at_def)



text \<open>\<open>queue_dequeue\<close> of a non-empty queue returns its first element and leaves the rest, in
  particular an enqueue into an empty queue followed by a dequeue returns the element and leaves
  the queue empty; \<open>queue_create\<close> gives an empty queue or \<open>NULL\<close> when the allocation fails.\<close>

theorem queue_enqueue_dequeue_roundtrip:
  assumes "qrep h p xs" "can_alloc h" "d \<noteq> NULL" "Suc (length xs) < 2 ^ 32"
  shows "\<exists>h1 h2. queue_enqueue p d f h = Some (True, h1)
     \<and> queue_dequeue p h1 = Some (fst (hd (xs @ [(d, f)])), h2) \<and> qrep h2 p (tl (xs @ [(d, f)]))"
proof -
  obtain h1 where 1: "queue_enqueue p d f h = Some (True, h1)" "qrep h1 p (xs @ [(d, f)])"
    using queue_enqueue_spec [OF assms(1,3,4), of f] assms(2) by auto
  from queue_dequeue_spec [OF 1(2)] show ?thesis using 1(1) by (cases xs) auto
qed

theorem queue_enqueue_dequeue_roundtrip_witness:
  "\<exists>h1 h2. queue_enqueue 4 11 0 (ex_queue_heap 1 ()) = Some (True, h1)
     \<and> queue_dequeue 4 h1 = Some (11, h2) \<and> qrep h2 4 []"
  using queue_enqueue_dequeue_roundtrip [OF ex_queue_rep [of 1 "()"], of 11 0]
  by (simp add: ex_queue_heap_def)

text \<open>When every free callback acts on the client's part of the heap only, \<open>queue_destroy\<close>
  calls each element's own callback once on its data, in queue order, frees all its nodes and
  its header, and returns true and \<open>NULL\<close> for the caller's pointer.\<close>

theorem queue_destroy_correct:
  assumes "qrep h p xs" "qfree_contract call_free eff" "qfree_all eff xs (queue_heap.more h) = Some z"
  shows "\<exists>h' A. queue_destroy call_free p h = Some (True, NULL, h') \<and> queue_heap.more h' = z
     \<and> card A = length xs \<and> A \<subseteq> dom (qnodes h) \<and> qnodes h' = qnodes h |` (- A)
     \<and> queues h' = (queues h)(p := None)"
proof -
  obtain h0 A where "queue_destroy call_free p h
      = map_option (\<lambda>z. (True, NULL, qwith_more h0 z)) (qfree_all eff xs (queue_heap.more h))"
    "qnodes h0 = qnodes h |` (- A) \<and> card A = length xs \<and> A \<subseteq> dom (qnodes h)
      \<and> queues h0 = (queues h)(p := None) \<and> brk h0 = brk h"
    using qfree_contract.queue_destroy_spec [OF assms(2,1)] by blast
  then show ?thesis using assms(3) by (intro exI [of _ "qwith_more h0 z"] exI [of _ A]) simp
qed

definition ex_queue_free :: "(unit, ptr list) qfree_call" where
  "ex_queue_free f d h = Some (qwith_more h (queue_heap.more h @ [d]))"

theorem queue_destroy_correct_witness:
  "\<exists>h'. queue_destroy ex_queue_free 4 (ex_queue_heap 0 [9]) = Some (True, NULL, h')
     \<and> queue_heap.more h' = [9]"
proof -
  have "qfree_contract ex_queue_free (\<lambda>f d z. Some (z @ [d]))"
    by unfold_locales (simp add: ex_queue_free_def)
  moreover have "qfree_all (\<lambda>f d z. Some (z @ [d])) [] (queue_heap.more (ex_queue_heap 0 [9])) = Some [9 :: ptr]"
    by (simp add: ex_queue_heap_def)
  ultimately show ?thesis using queue_destroy_correct [OF ex_queue_rep] by fast
qed

end
