(* ===== verification/HTable.thy ===== *)
theory HTable
  imports CList
begin

text \<open>
  The hash table of ChatRoom/src/htable.c, statement by statement on the heap of its buckets,
  which are lists of list.c. \<open>tables\<close>, \<open>arrs\<close> and \<open>hnodes\<close> hold the \<open>htable_t\<close> structs, the
  arrays \<open>p_hash_vals\<close> of bucket pointers and the \<open>htable_node_t\<close> structs. The user's hash
  function, comparison and free functions are arguments of the operations that call them; a
  pointer \<open>htable_t **\<close> is the caller's pointer value, returned with its value afterwards.
  Output on the terminal is left out.
\<close>

record htable_node_t =
  h_key :: ptr
  h_value :: ptr
  h_free :: fptr

record htable_t =
  t_hash_f :: fptr
  t_comp_f :: fptr
  t_vals :: ptr
  load_fact_num :: "32 word"
  load_fact_denom :: "32 word"
  max_size :: "32 word"
  curr_size :: "32 word"
  capacity :: "32 word"

record ht_heap = list_heap +
  hnodes :: "ptr \<rightharpoonup> htable_node_t"
  tables :: "ptr \<rightharpoonup> htable_t"
  arrs :: "ptr \<rightharpoonup> ptr list"

type_synonym 'z hheap = "'z ht_heap_scheme"
type_synonym 'z hash_call = "fptr \<Rightarrow> ptr \<Rightarrow> 32 word \<Rightarrow> 'z hheap \<Rightarrow> 32 word option"
type_synonym 'z hcmp_call = "'z ht_heap_ext cmp_call"
type_synonym 'z hfree_call = "'z ht_heap_ext free_call"

text \<open>The code address of \<open>node_free\<close>, which the table stores as the free function of its list nodes.\<close>

definition NODE_FREE :: fptr where "NODE_FREE = 1"

definition START_CAPACITY :: "32 word" where "START_CAPACITY = 2"
definition LOAD_FACT_NUM :: "32 word" where "LOAD_FACT_NUM = 3"
definition LOAD_FACT_DENOM :: "32 word" where "LOAD_FACT_DENOM = 4"

section \<open>Accesses\<close>

definition calloc_table :: "'z hheap \<Rightarrow> ptr \<times> 'z hheap" where
  "calloc_table h =
     (let (p, h') = calloc 48 h
      in if p = NULL then (NULL, h')
         else (p, h'\<lparr>tables := (tables h')(p \<mapsto> \<lparr>t_hash_f = NULL, t_comp_f = NULL, t_vals = NULL,
                 load_fact_num = 0, load_fact_denom = 0, max_size = 0, curr_size = 0, capacity = 0\<rparr>)\<rparr>))"

definition calloc_hnode :: "'z hheap \<Rightarrow> ptr \<times> 'z hheap" where
  "calloc_hnode h =
     (let (p, h') = calloc 24 h
      in if p = NULL then (NULL, h')
         else (p, h'\<lparr>hnodes := (hnodes h')(p \<mapsto> \<lparr>h_key = NULL, h_value = NULL, h_free = NULL\<rparr>)\<rparr>))"

definition calloc_arr :: "32 word \<Rightarrow> 'z hheap \<Rightarrow> ptr \<times> 'z hheap" where
  "calloc_arr n h =
     (let (p, h') = calloc (8 * unat n) h
      in if p = NULL then (NULL, h') else (p, h'\<lparr>arrs := (arrs h')(p \<mapsto> replicate (unat n) NULL)\<rparr>))"

definition upd_table :: "ptr \<Rightarrow> (htable_t \<Rightarrow> htable_t) \<Rightarrow> 'z hheap \<Rightarrow> 'z hheap option" where
  "upd_table p f h = map_option (\<lambda>m. h\<lparr>tables := m\<rparr>) (modify p f (tables h))"

definition upd_hnode :: "ptr \<Rightarrow> (htable_node_t \<Rightarrow> htable_node_t) \<Rightarrow> 'z hheap \<Rightarrow> 'z hheap option" where
  "upd_hnode p f h = map_option (\<lambda>m. h\<lparr>hnodes := m\<rparr>) (modify p f (hnodes h))"

definition read_arr :: "ptr \<Rightarrow> 32 word \<Rightarrow> 'z hheap \<Rightarrow> ptr option" where
  "read_arr a idx h =
     (case arrs h a of None \<Rightarrow> None | Some bs \<Rightarrow> if unat idx < length bs then Some (bs ! unat idx) else None)"

definition write_arr :: "ptr \<Rightarrow> 32 word \<Rightarrow> ptr \<Rightarrow> 'z hheap \<Rightarrow> 'z hheap option" where
  "write_arr a idx p h =
     (case arrs h a of None \<Rightarrow> None
      | Some bs \<Rightarrow> if unat idx < length bs then Some (h\<lparr>arrs := (arrs h)(a \<mapsto> bs[unat idx := p])\<rparr>) else None)"

definition free_table :: "ptr \<Rightarrow> 'z hheap \<Rightarrow> 'z hheap option" where
  "free_table p h =
     (if p = NULL then Some h else map_option (\<lambda>m. h\<lparr>tables := m\<rparr>) (release p (tables h)))"

definition free_hnode :: "ptr \<Rightarrow> 'z hheap \<Rightarrow> 'z hheap option" where
  "free_hnode p h =
     (if p = NULL then Some h else map_option (\<lambda>m. h\<lparr>hnodes := m\<rparr>) (release p (hnodes h)))"

definition free_arr :: "ptr \<Rightarrow> 'z hheap \<Rightarrow> 'z hheap option" where
  "free_arr p h =
     (if p = NULL then Some h else map_option (\<lambda>m. h\<lparr>arrs := m\<rparr>) (release p (arrs h)))"

lemmas [heap_defs] = upd_table_def upd_hnode_def free_table_def free_hnode_def free_arr_def
  read_arr_def write_arr_def

text \<open>\<open>hash_f(p_key, capacity) % capacity\<close>; the remainder by 0 is undefined.\<close>

definition key_index :: "'z hash_call \<Rightarrow> fptr \<Rightarrow> ptr \<Rightarrow> 32 word \<Rightarrow> 'z hheap \<Rightarrow> 32 word option" where
  "key_index call_hash hash_f p_key cap h = do {
     v \<leftarrow> call_hash hash_f p_key cap h;
     if cap = 0 then None else Some (v mod cap)
   }"

section \<open>Creation\<close>

definition htable_create :: "fptr \<Rightarrow> fptr \<Rightarrow> 'z hheap \<Rightarrow> (ptr \<times> 'z hheap) option" where
  "htable_create hash_f comp_f h =
     (if hash_f = NULL \<or> comp_f = NULL then Some (NULL, h)
      else
        let (p_htable, h) = calloc_table h
        in if p_htable = NULL then Some (NULL, h)
           else do {
             h \<leftarrow> upd_table p_htable (\<lambda>t. t\<lparr>t_hash_f := hash_f, t_comp_f := comp_f, curr_size := 0,
                    capacity := START_CAPACITY, load_fact_num := LOAD_FACT_NUM,
                    load_fact_denom := LOAD_FACT_DENOM\<rparr>) h;
             h \<leftarrow> upd_table p_htable (\<lambda>t. t\<lparr>max_size := capacity t * load_fact_num t div load_fact_denom t\<rparr>) h;
             t \<leftarrow> tables h p_htable;
             let (a, h) = calloc_arr (capacity t) h;
             h \<leftarrow> upd_table p_htable (\<lambda>t. t\<lparr>t_vals := a\<rparr>) h;
             if a = NULL then do {
               h \<leftarrow> free_table p_htable h;
               Some (NULL, h)
             } else Some (p_htable, h)
           })"

section \<open>Destruction\<close>

definition node_free :: "'z hfree_call \<Rightarrow> ptr \<Rightarrow> 'z hheap \<Rightarrow> 'z hheap option" where
  "node_free call_free p_node h = do {
     n \<leftarrow> hnodes h p_node;
     h \<leftarrow> (if h_free n \<noteq> NULL then call_free (h_free n) (h_value n) h else Some h);
     free_hnode p_node h
   }"

text \<open>Calls through a function pointer: \<open>node_free\<close> at its address, the user's functions elsewhere.\<close>

definition dispatch_free :: "'z hfree_call \<Rightarrow> 'z hfree_call" where
  "dispatch_free call_free f p h =
     (if f = NODE_FREE then node_free call_free p h else call_free f p h)"

fun destroy_items_loop ::
  "'z hfree_call \<Rightarrow> nat \<Rightarrow> ptr \<Rightarrow> 32 word \<Rightarrow> 'z hheap \<Rightarrow> 'z hheap option" where
  "destroy_items_loop call_free 0 p_htable iter h = Some h"
| "destroy_items_loop call_free (Suc k) p_htable iter h = do {
     t \<leftarrow> tables h p_htable;
     b \<leftarrow> read_arr (t_vals t) iter h;
     (_, b, h) \<leftarrow> list_destroy (dispatch_free call_free) b h;
     h \<leftarrow> write_arr (t_vals t) iter b h;
     destroy_items_loop call_free k p_htable (iter + 1) h
   }"

definition htable_destroy_items :: "'z hfree_call \<Rightarrow> ptr \<Rightarrow> 'z hheap \<Rightarrow> (bool \<times> 'z hheap) option" where
  "htable_destroy_items call_free p_htable h =
     (if p_htable = NULL then Some (False, h)
      else do {
        t \<leftarrow> tables h p_htable;
        if t_vals t = NULL then Some (True, h)
        else do {
          h \<leftarrow> destroy_items_loop call_free (unat (capacity t)) p_htable 0 h;
          Some (True, h)
        }
      })"

definition htable_destroy :: "'z hfree_call \<Rightarrow> ptr \<Rightarrow> 'z hheap \<Rightarrow> (bool \<times> ptr \<times> 'z hheap) option" where
  "htable_destroy call_free p_htable h =
     (if p_htable = NULL then Some (False, NULL, h)
      else do {
        (des, h) \<leftarrow> htable_destroy_items call_free p_htable h;
        if \<not> des then Some (False, p_htable, h)
        else do {
          t \<leftarrow> tables h p_htable;
          h \<leftarrow> free_arr (t_vals t) h;
          h \<leftarrow> free_table p_htable h;
          Some (True, NULL, h)
        }
      })"

section \<open>Lookup and removal\<close>

definition htable_find ::
  "'z hash_call \<Rightarrow> 'z hcmp_call \<Rightarrow> ptr \<Rightarrow> ptr \<Rightarrow> 'z hheap \<Rightarrow> ptr option" where
  "htable_find call_hash call_cmp p_htable p_key h =
     (if p_htable = NULL \<or> p_key = NULL then Some NULL
      else do {
        t \<leftarrow> tables h p_htable;
        key_idx \<leftarrow> key_index call_hash (t_hash_f t) p_key (capacity t) h;
        p_list \<leftarrow> read_arr (t_vals t) key_idx h;
        if p_list = NULL then Some NULL
        else do {
          idx \<leftarrow> list_first_occurrence call_cmp p_list p_key h;
          list_index p_list (of_int idx) h
        }
      })"

definition htable_remove ::
  "'z hash_call \<Rightarrow> 'z hcmp_call \<Rightarrow> ptr \<Rightarrow> ptr \<Rightarrow> 'z hheap \<Rightarrow> (ptr \<times> 'z hheap) option" where
  "htable_remove call_hash call_cmp p_htable p_key h =
     (if p_htable = NULL \<or> p_key = NULL then Some (NULL, h)
      else do {
        p_node \<leftarrow> htable_find call_hash call_cmp p_htable p_key h;
        if p_node = NULL then Some (NULL, h)
        else do {
          t \<leftarrow> tables h p_htable;
          key_idx \<leftarrow> key_index call_hash (t_hash_f t) p_key (capacity t) h;
          p_list \<leftarrow> read_arr (t_vals t) key_idx h;
          idx \<leftarrow> list_first_occurrence call_cmp p_list p_key h;
          (p_rem_node, h) \<leftarrow> list_remove p_list (of_int idx) h;
          if p_rem_node = NULL then Some (NULL, h)
          else do {
            h \<leftarrow> upd_table p_htable (\<lambda>t. t\<lparr>curr_size := curr_size t - 1\<rparr>) h;
            Some (p_rem_node, h)
          }
        }
      })"

section \<open>Insertion\<close>

definition htable_node_insert ::
  "'z hash_call \<Rightarrow> ptr \<Rightarrow> ptr \<Rightarrow> 'z hheap \<Rightarrow> 'z hheap option" where
  "htable_node_insert call_hash p_htable p_node h = do {
     t \<leftarrow> tables h p_htable;
     n \<leftarrow> hnodes h p_node;
     key_idx \<leftarrow> key_index call_hash (t_hash_f t) (h_key n) (capacity t) h;
     p_list \<leftarrow> read_arr (t_vals t) key_idx h;
     (p_list, h) \<leftarrow> (if p_list = NULL then list_create (t_comp_f t) h else Some (p_list, h));
     (_, h) \<leftarrow> list_prepend p_list p_node NODE_FREE h;
     h \<leftarrow> write_arr (t_vals t) key_idx p_list h;
     upd_table p_htable (\<lambda>t. t\<lparr>curr_size := curr_size t + 1\<rparr>) h
   }"

text \<open>The inner loop of \<open>htable_rehash\<close> moves the nodes of one bucket.\<close>

partial_function (option) move_loop ::
  "'z hash_call \<Rightarrow> ptr \<Rightarrow> ptr \<Rightarrow> 'z hheap \<Rightarrow> 'z hheap option" where
  "move_loop call_hash p_new p_list h = do {
     l \<leftarrow> lists h p_list;
     if l_size l = 0 then Some h
     else do {
       (p_node, h) \<leftarrow> list_pop_head p_list h;
       h \<leftarrow> htable_node_insert call_hash p_new p_node h;
       move_loop call_hash p_new p_list h
     }
   }"

text \<open>The outer loop: \<open>p_list\<close> keeps its value from one iteration to the next.\<close>

fun rehash_loop ::
  "'z hash_call \<Rightarrow> 'z hfree_call \<Rightarrow> nat \<Rightarrow> ptr \<Rightarrow> ptr \<Rightarrow> 32 word \<Rightarrow> ptr \<Rightarrow> 'z hheap
     \<Rightarrow> 'z hheap option" where
  "rehash_loop call_hash call_free 0 p_old p_new idx p_list h = Some h"
| "rehash_loop call_hash call_free (Suc k) p_old p_new idx p_list h = do {
     t \<leftarrow> tables h p_old;
     b \<leftarrow> read_arr (t_vals t) idx h;
     if b = NULL then rehash_loop call_hash call_free k p_old p_new (idx + 1) p_list h
     else do {
       l \<leftarrow> lists h b;
       if l_size l = 0 then do {
         (_, p_list, h) \<leftarrow> list_destroy (dispatch_free call_free) p_list h;
         rehash_loop call_hash call_free k p_old p_new (idx + 1) p_list h
       } else do {
         h \<leftarrow> move_loop call_hash p_new b h;
         (_, p_list, h) \<leftarrow> list_destroy (dispatch_free call_free) b h;
         rehash_loop call_hash call_free k p_old p_new (idx + 1) p_list h
       }
     }
   }"

text \<open>\<open>htable_rehash\<close> returns the new table and the value of \<open>*pp_htable\<close>.\<close>

definition htable_rehash ::
  "'z hash_call \<Rightarrow> 'z hfree_call \<Rightarrow> ptr \<Rightarrow> 'z hheap \<Rightarrow> (ptr \<times> ptr \<times> 'z hheap) option" where
  "htable_rehash call_hash call_free p_old h = do {
     t \<leftarrow> tables h p_old;
     if curr_size t + 1 \<le> max_size t then do {
       (_, p_old, h) \<leftarrow> htable_destroy call_free p_old h;
       Some (NULL, p_old, h)
     } else do {
       (p_new, h) \<leftarrow> htable_create (t_hash_f t) (t_comp_f t) h;
       if p_new = NULL then do {
         (_, p_old, h) \<leftarrow> htable_destroy call_free p_old h;
         Some (NULL, p_old, h)
       } else do {
         n \<leftarrow> tables h p_new;
         h \<leftarrow> free_arr (t_vals n) h;
         h \<leftarrow> upd_table p_new (\<lambda>n. n\<lparr>t_vals := NULL\<rparr>) h;
         t \<leftarrow> tables h p_old;
         let new_cap = capacity t * 2;
         h \<leftarrow> upd_table p_new (\<lambda>n. n\<lparr>capacity := new_cap\<rparr>) h;
         let (a, h) = calloc_arr new_cap h;
         h \<leftarrow> upd_table p_new (\<lambda>n. n\<lparr>t_vals := a\<rparr>) h;
         if a = NULL then do {
           (_, _, h) \<leftarrow> htable_destroy call_free p_new h;
           (_, p_old, h) \<leftarrow> htable_destroy call_free p_old h;
           Some (NULL, p_old, h)
         } else do {
           h \<leftarrow> upd_table p_new (\<lambda>n. n\<lparr>max_size := capacity n * load_fact_num n div load_fact_denom n\<rparr>) h;
           t \<leftarrow> tables h p_old;
           h \<leftarrow> rehash_loop call_hash call_free (unat (capacity t)) p_old p_new 0 NULL h;
           t \<leftarrow> tables h p_old;
           h \<leftarrow> free_arr (t_vals t) h;
           h \<leftarrow> free_table p_old h;
           Some (p_new, NULL, h)
         }
       }
     }
   }"

definition htable_update ::
  "'z hfree_call \<Rightarrow> ptr \<Rightarrow> ptr \<Rightarrow> fptr \<Rightarrow> 'z hheap \<Rightarrow> (bool \<times> 'z hheap) option" where
  "htable_update call_free p_node p_value free_f h =
     (if p_node = NULL then Some (False, h)
      else do {
        n \<leftarrow> hnodes h p_node;
        h \<leftarrow> (if h_free n \<noteq> NULL then call_free (h_free n) (h_value n) h else Some h);
        h \<leftarrow> upd_hnode p_node (\<lambda>n. n\<lparr>h_value := p_value, h_free := free_f\<rparr>) h;
        Some (True, h)
      })"

definition htable_insert ::
  "'z hash_call \<Rightarrow> 'z hcmp_call \<Rightarrow> 'z hfree_call \<Rightarrow> ptr \<Rightarrow> ptr \<Rightarrow> ptr \<Rightarrow> fptr \<Rightarrow> 'z hheap
     \<Rightarrow> (bool \<times> ptr \<times> 'z hheap) option" where
  "htable_insert call_hash call_cmp call_free p_htable p_key p_value free_f h =
     (if p_key = NULL \<or> p_value = NULL \<or> p_htable = NULL then do {
        (_, p_htable, h) \<leftarrow> htable_destroy call_free p_htable h;
        Some (False, p_htable, h)
      } else do {
        p_temp \<leftarrow> htable_find call_hash call_cmp p_htable p_key h;
        if p_temp \<noteq> NULL then Some (False, p_htable, h)
        else do {
          t \<leftarrow> tables h p_htable;
          (p_htable, h) \<leftarrow>
            (if max_size t < curr_size t + 1 then do {
               (p_new, _, h) \<leftarrow> htable_rehash call_hash call_free p_htable h;
               Some (p_new, h)
             } else Some (p_htable, h));
          if p_htable = NULL then Some (False, NULL, h)
          else
            let (p_node, h) = calloc_hnode h
            in if p_node = NULL then do {
                 (_, p_htable, h) \<leftarrow> htable_destroy call_free p_htable h;
                 Some (False, p_htable, h)
               } else do {
                 h \<leftarrow> upd_hnode p_node (\<lambda>n. n\<lparr>h_key := p_key, h_value := p_value, h_free := free_f\<rparr>) h;
                 t \<leftarrow> tables h p_htable;
                 key_idx \<leftarrow> key_index call_hash (t_hash_f t) p_key (capacity t) h;
                 p_list \<leftarrow> read_arr (t_vals t) key_idx h;
                 (p_list, h) \<leftarrow> (if p_list = NULL then list_create (t_comp_f t) h else Some (p_list, h));
                 (_, h) \<leftarrow> list_prepend p_list p_node NODE_FREE h;
                 h \<leftarrow> write_arr (t_vals t) key_idx p_list h;
                 h \<leftarrow> upd_table p_htable (\<lambda>t. t\<lparr>curr_size := curr_size t + 1\<rparr>) h;
                 Some (True, p_htable, h)
               }
        }
      })"

end
