(* ===== verification/HTableRep.thy ===== *)
theory HTableRep
  imports HTable CListDestroy
begin

text \<open>
  Representation of a hash table: an array of buckets, each \<open>NULL\<close> or a list whose elements are
  the table's nodes, no list node or header shared. The contract of hash and comparison
  functions is the locale \<open>key_contract\<close>: both depend on an abstract key only, which the
  client's part of the heap determines.
\<close>

section \<open>Heaps\<close>

lemma ht_more_eq:
  "list_heap.more h' = list_heap.more h
     \<Longrightarrow> hnodes h' = hnodes h \<and> tables h' = tables h \<and> arrs h' = arrs h \<and> ht_heap.more h' = ht_heap.more h"
  by (cases h; cases h') simp

definition hheap_ok :: "'z hheap \<Rightarrow> bool" where
  "hheap_ok h \<longleftrightarrow> lheap_ok h
     \<and> (\<forall>q. q \<in> dom (hnodes h) \<union> dom (tables h) \<union> dom (arrs h) \<longrightarrow> 0 < q \<and> q < brk h)"

lemma hheap_ok_lheap [simp]: "hheap_ok h \<Longrightarrow> lheap_ok h"
  by (simp add: hheap_ok_def)

lemma hheap_ok_below:
  "hheap_ok h \<Longrightarrow> hnodes h q = Some x \<Longrightarrow> 0 < q \<and> q < brk h"
  "hheap_ok h \<Longrightarrow> tables h q = Some t \<Longrightarrow> 0 < q \<and> q < brk h"
  "hheap_ok h \<Longrightarrow> arrs h q = Some a \<Longrightarrow> 0 < q \<and> q < brk h"
  unfolding hheap_ok_def by blast+

lemma hheap_ok_fresh [simp]:
  assumes "hheap_ok h"
  shows "hnodes h (brk h) = None" "tables h (brk h) = None" "arrs h (brk h) = None"
    "hnodes h NULL = None" "tables h NULL = None" "arrs h NULL = None" "0 < brk h"
  using hheap_ok_below [OF assms, of "brk h"] hheap_ok_below [OF assms, of NULL] assms
  by (auto intro: ccontr)

text \<open>A list operation keeps the heap well-formed; so does growth by a fresh object.\<close>

lemma hheap_ok_list_op:
  assumes "hheap_ok h" "lheap_ok h'" "lframe h h' P A"
  shows "hheap_ok h'"
proof -
  have "hnodes h' = hnodes h \<and> tables h' = tables h \<and> arrs h' = arrs h" "brk h \<le> brk h'"
    using ht_more_eq [of h' h] assms(3) by (auto simp: lframe_def)
  then show ?thesis using assms(1,2) unfolding hheap_ok_def by (metis less_le_trans)
qed

lemma hheap_okI:
  assumes "lheap_ok h" "\<And>q x. hnodes h q = Some x \<Longrightarrow> 0 < q \<and> q < brk h"
    "\<And>q x. tables h q = Some x \<Longrightarrow> 0 < q \<and> q < brk h" "\<And>q x. arrs h q = Some x \<Longrightarrow> 0 < q \<and> q < brk h"
  shows "hheap_ok h"
  using assms unfolding hheap_ok_def by blast

abbreviation never_oom :: "'z heap_scheme \<Rightarrow> bool" where
  "never_oom h \<equiv> (\<forall>n. \<not> oom h n)"

section \<open>Buckets\<close>

abbreviation bitems :: "ptr list \<Rightarrow> (ptr \<times> fptr) list" where
  "bitems ds \<equiv> map (\<lambda>d. (d, NODE_FREE)) ds"

definition bucket_ok :: "'z list_heap_scheme \<Rightarrow> fptr \<Rightarrow> ptr \<Rightarrow> ptr set \<Rightarrow> ptr list \<Rightarrow> bool" where
  "bucket_ok h c b A ds \<longleftrightarrow> (if b = NULL then A = {} \<and> ds = [] else lrep h b c A (bitems ds))"

definition buckets ::
  "'z list_heap_scheme \<Rightarrow> fptr \<Rightarrow> ptr list \<Rightarrow> ptr set list \<Rightarrow> ptr list list \<Rightarrow> bool" where
  "buckets h c bs As B \<longleftrightarrow> length As = length bs \<and> length B = length bs
     \<and> (\<forall>i < length bs. bucket_ok h c (bs ! i) (As ! i) (B ! i))
     \<and> (\<forall>i < length bs. \<forall>j < length bs. i \<noteq> j
          \<longrightarrow> As ! i \<inter> As ! j = {} \<and> (bs ! i \<noteq> NULL \<longrightarrow> bs ! i \<noteq> bs ! j))"

lemma lrep_more [simp]:
  "lrep (h\<lparr>tables := m\<rparr>) p c A xs = lrep h p c A xs"
  "lrep (h\<lparr>arrs := m'\<rparr>) p c A xs = lrep h p c A xs"
  "lrep (h\<lparr>hnodes := m''\<rparr>) p c A xs = lrep h p c A xs"
  "lrep (h\<lparr>brk := x\<rparr>) p c A xs = lrep h p c A xs"
  by (simp_all add: lrep_def list_at_def)

lemma lrep_alloc_count [simp]: "lrep (h\<lparr>allocs := k\<rparr>) p c A xs = lrep h p c A xs"
  by (simp add: lrep_def list_at_def)

lemma buckets_more [simp]:
  "buckets (h\<lparr>tables := m\<rparr>) c bs As B = buckets h c bs As B"
  "buckets (h\<lparr>arrs := m'\<rparr>) c bs As B = buckets h c bs As B"
  "buckets (h\<lparr>hnodes := m''\<rparr>) c bs As B = buckets h c bs As B"
  "buckets (h\<lparr>brk := x\<rparr>) c bs As B = buckets h c bs As B"
  "buckets (h\<lparr>allocs := k\<rparr>) c bs As B = buckets h c bs As B"
  by (simp_all add: buckets_def bucket_ok_def)

lemma bucket_ok_below: "lheap_ok h \<Longrightarrow> bucket_ok h c b A ds \<Longrightarrow> A \<subseteq> {0<..<brk h} \<and> b < brk h"
  using lrep_below [of h b c A] lrep_header_below [of h b c A] lheap_ok_brk [of h]
  by (auto simp: bucket_ok_def split: if_splits)

lemma bucket_ok_nodes: "bucket_ok h c b A ds \<Longrightarrow> d \<in> set ds \<Longrightarrow> d \<noteq> NULL"
  by (force simp: bucket_ok_def lrep_def split: if_splits)

lemma bucket_ok_frame:
  assumes "lframe h h' P X" "lheap_ok h" "bucket_ok h c b A ds" "b \<notin> P \<or> b = NULL" "A \<inter> X = {}"
  shows "bucket_ok h' c b A ds"
  using assms lrep_frame [OF assms(1,2)] unfolding bucket_ok_def by (auto split: if_splits)

lemma buckets_nth: "buckets h c bs As B \<Longrightarrow> i < length bs \<Longrightarrow> bucket_ok h c (bs ! i) (As ! i) (B ! i)"
  by (simp add: buckets_def)

lemma buckets_length: "buckets h c bs As B \<Longrightarrow> length As = length bs \<and> length B = length bs"
  by (simp add: buckets_def)

lemma buckets_upd:
  assumes bk: "buckets h c bs As B" and i: "i < length bs" and ok: "lheap_ok h"
    and fr: "lframe h h' {bs ! i} (As ! i)" and new: "bucket_ok h' c b' A' ds'"
    and A': "A' \<subseteq> As ! i \<union> {brk h..}" and b': "b' = bs ! i \<or> brk h \<le> b'"
  shows "buckets h' c (bs[i := b']) (As[i := A']) (B[i := ds'])"
proof -
  have len: "length As = length bs" "length B = length bs" using bk by (auto simp: buckets_def)
  have sep: "As ! j \<inter> As ! k = {} \<and> (bs ! j \<noteq> NULL \<longrightarrow> bs ! j \<noteq> bs ! k)"
    if "j < length bs" "k < length bs" "j \<noteq> k" for j k using bk that by (simp add: buckets_def)
  have below: "As ! j \<subseteq> {0<..<brk h}" "bs ! j < brk h" if "j < length bs" for j
    using bucket_ok_below [OF ok buckets_nth [OF bk that]] by auto
  have 1: "bucket_ok h' c (bs ! j) (As ! j) (B ! j)" if j: "j < length bs" "j \<noteq> i" for j
    using bucket_ok_frame [OF fr ok buckets_nth [OF bk j(1)]] sep [OF j(1) i j(2)] by auto
  have 2: "As ! j \<inter> A' = {} \<and> (bs ! j \<noteq> NULL \<longrightarrow> bs ! j \<noteq> b') \<and> (b' \<noteq> NULL \<longrightarrow> b' \<noteq> bs ! j)"
    if j: "j < length bs" "j \<noteq> i" for j
    using sep [OF j(1) i j(2)] sep [OF i j(1)] below [OF j(1)] A' b' j(2) by fastforce
  show ?thesis unfolding buckets_def
  proof (intro conjI allI impI)
    fix j assume j: "j < length (bs[i := b'])"
    show "bucket_ok h' c (bs[i := b'] ! j) (As[i := A'] ! j) (B[i := ds'] ! j)"
      using 1 [of j] j new i len by (cases "j = i") simp_all
    fix k assume k: "k < length (bs[i := b'])" "j \<noteq> k"
    show "As[i := A'] ! j \<inter> As[i := A'] ! k = {}"
      using 2 [of j] 2 [of k] sep [of j k] j k i len
      by (cases "j = i"; cases "k = i") (simp_all add: Int_commute)
    show "bs[i := b'] ! j \<noteq> bs[i := b'] ! k" if "bs[i := b'] ! j \<noteq> NULL"
      using that 2 [of j] 2 [of k] sep [of j k] j k i
      by (cases "j = i"; cases "k = i") simp_all
  qed (simp_all add: len)
qed

lemma buckets_Cons:
  assumes "buckets h c (b # bs) As B"
  shows "buckets h c bs (tl As) (tl B)"
proof -
  obtain A As' D B' where [simp]: "As = A # As'" "B = D # B'"
    using buckets_length [OF assms] by (cases As; cases B) auto
  have f: "\<And>i. i < Suc (length bs) \<Longrightarrow> bucket_ok h c ((b # bs) ! i) (As ! i) (B ! i)"
    and s: "\<And>i j. i < Suc (length bs) \<Longrightarrow> j < Suc (length bs) \<Longrightarrow> i \<noteq> j
          \<Longrightarrow> As ! i \<inter> As ! j = {} \<and> ((b # bs) ! i \<noteq> NULL \<longrightarrow> (b # bs) ! i \<noteq> (b # bs) ! j)"
    using assms by (simp_all add: buckets_def)
  show ?thesis unfolding buckets_def
    using buckets_length [OF assms] f [of "Suc _"] s [of "Suc _" "Suc _"] by simp
qed

lemma buckets_frame:
  assumes "buckets h c bs As B" "lheap_ok h" "lframe h h' P X"
    and "\<And>i. i < length bs \<Longrightarrow> bs ! i = NULL \<or> bs ! i \<notin> P" "\<And>i. i < length bs \<Longrightarrow> As ! i \<inter> X = {}"
  shows "buckets h' c bs As B"
proof -
  have "bucket_ok h' c (bs ! i) (As ! i) (B ! i)" if "i < length bs" for i
    using bucket_ok_frame [OF assms(3,2) buckets_nth [OF assms(1) that]] assms(4,5) [OF that] by auto
  then show ?thesis using assms(1) by (simp add: buckets_def)
qed

text \<open>A fresh array of empty buckets.\<close>

lemma buckets_append_fresh:
  assumes "buckets h c bs As B"
  shows "buckets h c (bs @ replicate n NULL) (As @ replicate n {}) (B @ replicate n [])"
proof -
  have "bucket_ok h c ((bs @ replicate n NULL) ! i) ((As @ replicate n {}) ! i) ((B @ replicate n []) ! i)"
    if "i < length bs + n" for i
    using assms that by (auto simp: buckets_def nth_append bucket_ok_def)
  then show ?thesis using assms
    by (auto simp: buckets_def nth_append)
qed

text \<open>Adding a node to a bucket that may not exist yet, as both insertions do.\<close>

lemma bucket_add:
  assumes ok: "lheap_ok h" and mem: "never_oom h" and b: "bucket_ok h c b A ds" and d: "d \<noteq> NULL"
    and len: "Suc (length ds) < 2 ^ 32"
  shows "\<exists>b' h1 h2 A'. (if b = NULL then list_create c h else Some (b, h)) = Some (b', h1)
     \<and> list_prepend b' d NODE_FREE h1 = Some (True, h2) \<and> bucket_ok h2 c b' A' (d # ds)
     \<and> A' \<subseteq> A \<union> {brk h..} \<and> b' \<noteq> NULL \<and> (b' = b \<or> brk h \<le> b') \<and> lheap_ok h2 \<and> lframe h h2 {b} A"
proof (cases "b = NULL")
  case True
  obtain h1 where 1: "list_create c h = Some (brk h, h1)" "lrep h1 (brk h) c {} []" "lheap_ok h1"
      "lframe h h1 {} {}"
    using list_create_spec [OF ok] mem by blast
  have mem1: "can_alloc h1" using mem 1(4) by (simp add: lframe_def)
  obtain h2 where 2: "list_prepend (brk h) d NODE_FREE h1 = Some (True, h2)"
      "lrep h2 (brk h) c {brk h1} [(d, NODE_FREE)]" "lheap_ok h2" "lframe h1 h2 {brk h} {}"
    using list_prepend_spec [OF 1(3,2) d mem1] by auto
  have "lframe h h2 {b} A" using lframe_trans [OF 1(4) 2(4)] by (rule lframe_mono) auto
  moreover have "brk h \<noteq> NULL" "brk h \<le> brk h1" using ok 1(4) by (auto simp: lframe_def lheap_ok_def)
  ultimately show ?thesis using True b 1 2 by (auto simp: bucket_ok_def)
next
  case False
  then have "lrep h b c A (bitems ds)" using b by (simp add: bucket_ok_def)
  from list_prepend_spec [OF ok this d _ ] mem len obtain h2 where
    "list_prepend b d NODE_FREE h = Some (True, h2)" "lrep h2 b c (insert (brk h) A) (bitems (d # ds))"
    "lheap_ok h2" "lframe h h2 {b} A" by (auto simp del: One_nat_def)
  then show ?thesis using False by (auto simp: bucket_ok_def)
qed

end
