(* ===== verification/HTableKey.thy ===== *)
theory HTableKey
  imports HTableRep CListLookup
begin

text \<open>
  The contract of the user's hash and comparison functions, and what finding and removing a key
  do under it.
\<close>

definition table_at :: "'z hheap \<Rightarrow> ptr \<Rightarrow> fptr \<Rightarrow> fptr \<Rightarrow> nat \<Rightarrow> ptr \<Rightarrow> ptr list \<Rightarrow> nat \<Rightarrow> bool" where
  "table_at h t hash_f comp_f n a bs m \<longleftrightarrow>
     tables h t = Some \<lparr>t_hash_f = hash_f, t_comp_f = comp_f, t_vals = a, load_fact_num = 3,
        load_fact_denom = 4, max_size = of_nat (n * 3 div 4), curr_size = of_nat m, capacity = of_nat n\<rparr>
     \<and> arrs h a = Some bs \<and> length bs = n \<and> 2 \<le> n \<and> n * 3 < 2 ^ 32 \<and> m < 2 ^ 32"

lemma table_at_nonnull: "hheap_ok h \<Longrightarrow> table_at h t hf cf n a bs m \<Longrightarrow> t \<noteq> NULL \<and> a \<noteq> NULL"
  by (metis table_at_def hheap_ok_fresh(5,6) option.distinct(1))

locale key_contract =
  fixes call_hash :: "'z hash_call" and call_cmp :: "'z hcmp_call"
    and hash_f comp_f :: fptr
    and key :: "'z \<Rightarrow> ptr \<Rightarrow> 'k option"
    and hash :: "'k \<Rightarrow> 32 word \<Rightarrow> 32 word"
  assumes hash_f: "hash_f \<noteq> NULL" and comp_f: "comp_f \<noteq> NULL"
    and key_NULL: "key z NULL = None"
    and key_hash: "key (ht_heap.more h) p = Some k \<Longrightarrow> cap \<noteq> 0
          \<Longrightarrow> call_hash hash_f p cap h = Some (hash k cap)"
    and key_cmp: "hnodes h d = Some x \<Longrightarrow> key (ht_heap.more h) (h_key x) = Some k
          \<Longrightarrow> key (ht_heap.more h) p = Some k'
          \<Longrightarrow> \<exists>r. call_cmp comp_f d p h = Some r \<and> (r = 0 \<longleftrightarrow> k = k')"
begin

definition kidx :: "'k \<Rightarrow> nat \<Rightarrow> nat" where
  "kidx k n = unat (hash k (of_nat n) mod of_nat n)"

definition nkey :: "'z hheap \<Rightarrow> ptr \<Rightarrow> 'k option" where
  "nkey h d = (case hnodes h d of None \<Rightarrow> None | Some x \<Rightarrow> key (ht_heap.more h) (h_key x))"

lemma nkey_cong: "hnodes h' = hnodes h \<Longrightarrow> ht_heap.more h' = ht_heap.more h \<Longrightarrow> nkey h' = nkey h"
  unfolding nkey_def by (rule ext) metis

lemma key_nonnull: "key z p = Some k \<Longrightarrow> p \<noteq> NULL"
  using key_NULL by (metis option.distinct(1))

lemma kidx_less: "0 < n \<Longrightarrow> n < 2 ^ 32 \<Longrightarrow> kidx k n < n"
proof -
  assume n: "0 < n" "n < 2 ^ 32"
  have "unat (hash k (of_nat n) mod (of_nat n :: 32 word)) = unat (hash k (of_nat n)) mod n"
    using n(2) by (simp add: unat_mod_distrib unat_of_nat_32)
  then show ?thesis using n(1) by (simp add: kidx_def)
qed

lemma key_index_eval:
  assumes "table_at h t hash_f comp_f n a bs m" "key (ht_heap.more h) p = Some k"
  shows "key_index call_hash hash_f p (of_nat n) h = Some (of_nat (kidx k n))" "kidx k n < n"
    "unat (of_nat (kidx k n) :: 32 word) = kidx k n"
proof -
  have n: "2 \<le> n" "n < 2 ^ 32" using assms(1) by (auto simp: table_at_def)
  have nz: "(of_nat n :: 32 word) \<noteq> 0" using of_nat_32_eq_0 [of n] n by simp
  show "key_index call_hash hash_f p (of_nat n) h = Some (of_nat (kidx k n))"
    using key_hash [OF assms(2) nz] nz by (simp add: key_index_def kidx_def)
  show "kidx k n < n" using kidx_less n by simp
  then show "unat (of_nat (kidx k n) :: 32 word) = kidx k n" using n(2) by (simp add: unat_of_nat_32)
qed

text \<open>\<open>nkeys_ok h n B\<close>: every node of bucket \<open>i\<close> has a key whose index is \<open>i\<close>, and no key occurs twice.\<close>

definition nkeys_ok :: "'z hheap \<Rightarrow> nat \<Rightarrow> ptr list list \<Rightarrow> bool" where
  "nkeys_ok h n B \<longleftrightarrow> distinct (map (nkey h) (concat B))
     \<and> (\<forall>i < length B. \<forall>d \<in> set (B ! i). \<exists>k. nkey h d = Some k \<and> kidx k n = i)"

definition ht_at :: "'z hheap \<Rightarrow> ptr \<Rightarrow> nat \<Rightarrow> ptr \<Rightarrow> ptr list \<Rightarrow> ptr set list \<Rightarrow> ptr list list \<Rightarrow> bool" where
  "ht_at h t n a bs As B \<longleftrightarrow> hheap_ok h \<and> table_at h t hash_f comp_f n a bs (length (concat B))
     \<and> buckets h comp_f bs As B \<and> nkeys_ok h n B"

text \<open>The table represents a finite map from keys to its nodes.\<close>

definition ht_map :: "'z hheap \<Rightarrow> ptr \<Rightarrow> ('k \<rightharpoonup> ptr) \<Rightarrow> bool" where
  "ht_map h t M \<longleftrightarrow> (\<exists>n a bs As B. ht_at h t n a bs As B \<and> length (concat B) \<le> n * 3 div 4
     \<and> (\<forall>k d. M k = Some d \<longleftrightarrow> d \<in> set (concat B) \<and> nkey h d = Some k))"

lemma call_cmp_nkey:
  assumes "nkey h d = Some k" "key (ht_heap.more h) p = Some k'"
  shows "\<exists>r. call_cmp comp_f d p h = Some r \<and> (r = 0 \<longleftrightarrow> k = k')"
proof -
  obtain x where "hnodes h d = Some x" "key (ht_heap.more h) (h_key x) = Some k"
    using assms(1) by (auto simp: nkey_def split: option.splits)
  from key_cmp [OF this assms(2)] show ?thesis .
qed

text \<open>
  Where \<open>htable_find\<close> looks: the first node of the bucket with the key, as \<open>list_first_occurrence\<close>
  reports it.
\<close>

lemma bucket_lookup:
  assumes ok: "lheap_ok h" and b: "bucket_ok h comp_f b A ds" "b \<noteq> NULL" "length ds < 2 ^ 31"
    and keys: "\<forall>d \<in> set ds. nkey h d \<noteq> None" and p: "key (ht_heap.more h) p = Some k"
  defines "i \<equiv> first_index (\<lambda>d. nkey h d = Some k) ds"
  shows "list_first_occurrence call_cmp b p h = Some (if i < length ds then int i else -1)"
    "list_index b (of_int (if i < length ds then int i else -1)) h = Some (if i < length ds then ds ! i else NULL)"
proof -
  have rep: "lrep h b comp_f A (bitems ds)" using b by (simp add: bucket_ok_def)
  have pn: "p \<noteq> NULL" using key_nonnull [OF p] .
  have cmp: "\<exists>r. call_cmp comp_f d p h = Some r \<and> (r = 0 \<longleftrightarrow> nkey h d = Some k)" if "d \<in> set ds" for d
    using call_cmp_nkey [OF _ p, of d] keys that by fastforce
  have tot: "cmp_total call_cmp comp_f p h (bitems ds)"
    unfolding cmp_total_def using cmp by (auto dest!: cmp)
  have eq: "cmp_eq call_cmp comp_f p h (d, NODE_FREE) \<longleftrightarrow> nkey h d = Some k" if "d \<in> set ds" for d
    using cmp [OF that] by (auto simp: cmp_eq_def)
  have "first_index (cmp_eq call_cmp comp_f p h) (bitems ds) = i"
    unfolding i_def using eq by (induction ds) auto
  moreover have "sint (of_nat i :: 32 word) = int i" if "i < length ds"
    using that b(3) by (simp add: signed_of_nat signed_take_bit_int_eq_self)
  ultimately show "list_first_occurrence call_cmp b p h = Some (if i < length ds then int i else -1)"
    using list_first_occurrence_spec [OF ok rep comp_f pn tot] by (simp add: Let_def)
  have "list_index b (of_nat i) h = Some (ds ! i)" if "i < length ds"
    using list_index_spec [OF ok rep, of "of_nat i"] that b(3) by (simp add: unat_of_nat_32)
  moreover have "list_index b (- 1) h = Some NULL"
    using list_index_spec [OF ok rep, of "-1"] b(3) by (simp add: unsigned_minus_1_eq_mask mask_eq_exp_minus_1)
  ultimately show "list_index b (of_int (if i < length ds then int i else -1)) h
      = Some (if i < length ds then ds ! i else NULL)" by simp
qed

text \<open>The bucket of a key.\<close>

lemma ht_at_bucket:
  assumes "ht_at h t n a bs As B" "key (ht_heap.more h) p = Some k"
  defines "i \<equiv> kidx k n"
  shows "i < length bs" "bucket_ok h comp_f (bs ! i) (As ! i) (B ! i)" "length B = n" "length bs = n"
    "length (B ! i) \<le> length (concat B)" "\<forall>d \<in> set (B ! i). nkey h d \<noteq> None"
    "d \<in> set (concat B) \<and> nkey h d = Some k \<longleftrightarrow> d \<in> set (B ! i) \<and> nkey h d = Some k"
    "set (B ! i) \<subseteq> set (concat B)"
proof -
  have t: "table_at h t hash_f comp_f n a bs (length (concat B))" and bk: "buckets h comp_f bs As B"
    and nk: "nkeys_ok h n B" using assms(1) by (auto simp: ht_at_def)
  show n: "length bs = n" using t by (simp add: table_at_def)
  then show l: "length B = n" using buckets_length [OF bk] by simp
  show i: "i < length bs" using key_index_eval(2) [OF t assms(2)] n by (simp add: i_def)
  show "bucket_ok h comp_f (bs ! i) (As ! i) (B ! i)" using buckets_nth [OF bk i] .
  have B: "B ! i \<in> set B" using i n l by simp
  then show s: "set (B ! i) \<subseteq> set (concat B)" by auto
  from B show "length (B ! i) \<le> length (concat B)"
    by (simp add: length_concat member_le_sum_list)
  show "\<forall>d \<in> set (B ! i). nkey h d \<noteq> None" using nk i n l by (auto simp: nkeys_ok_def)
  have "d \<in> set (B ! i)" if d: "d \<in> set (concat B)" "nkey h d = Some k"
  proof -
    obtain i' where i': "i' < length B" "d \<in> set (B ! i')"
      using d(1) by (metis UN_E in_set_conv_nth set_concat)
    then have "kidx k n = i'" using nk d(2) unfolding nkeys_ok_def by (metis option.inject)
    with i'(2) show ?thesis by (simp add: i_def)
  qed
  with s show "d \<in> set (concat B) \<and> nkey h d = Some k \<longleftrightarrow> d \<in> set (B ! i) \<and> nkey h d = Some k" by blast
qed

lemma htable_find_at:
  assumes ht: "ht_at h t n a bs As B" and p: "key (ht_heap.more h) p = Some k"
    and small: "length (concat B) < 2 ^ 31"
  defines "i \<equiv> kidx k n"
  defines "j \<equiv> first_index (\<lambda>d. nkey h d = Some k) (B ! i)"
  shows "htable_find call_hash call_cmp t p h = Some (if j < length (B ! i) then B ! i ! j else NULL)"
proof -
  have ok: "hheap_ok h" and t: "table_at h t hash_f comp_f n a bs (length (concat B))"
    using ht by (auto simp: ht_at_def)
  note ki = key_index_eval [OF t p]
  note b = ht_at_bucket [OF ht p, folded i_def]
  have pn: "p \<noteq> NULL" using key_nonnull [OF p] .
  have tn: "t \<noteq> NULL" using table_at_nonnull [OF ok t] by simp
  have read: "read_arr a (of_nat i) h = Some (bs ! i)"
    using t b(1) ki(3) by (simp add: read_arr_def table_at_def i_def)
  show ?thesis
  proof (cases "bs ! i = NULL")
    case True
    then have "B ! i = []" using b(2) by (simp add: bucket_ok_def)
    with True show ?thesis using pn tn t ki(1) read by (simp add: htable_find_def table_at_def i_def)
  next
    case False
    have l: "length (B ! i) < 2 ^ 31" using b(5) small by simp
    from bucket_lookup [OF hheap_ok_lheap [OF ok] b(2) False l b(6) p] show ?thesis
      using pn tn t ki(1) read False by (simp add: htable_find_def table_at_def i_def j_def)
  qed
qed

end

end
