(* ===== verification/HTableOps.thy ===== *)
theory HTableOps
  imports HTableKey
begin

text \<open>Finding and removing a key on a table that represents a map.\<close>

section \<open>The nodes of an updated bucket array\<close>

lemma mset_concat_update:
  "i < length B \<Longrightarrow> mset (concat (B[i := xs])) + mset (B ! i) = mset (concat B) + mset xs"
proof (induction B arbitrary: i)
  case Nil
  then show ?case by simp
next
  case (Cons b B)
  then show ?case by (cases i) (simp_all add: add.assoc add.left_commute add.commute)
qed

lemma concat_insert_mset:
  "i < length B \<Longrightarrow> mset (concat (B[i := d # B ! i])) = mset (d # concat B)"
  using mset_concat_update [of i B "d # B ! i"] by (simp add: add.commute)

lemma concat_remove_mset:
  assumes "i < length B" "j < length (B ! i)"
  shows "mset (B ! i ! j # concat (B[i := take j (B ! i) @ drop (Suc j) (B ! i)])) = mset (concat B)"
proof -
  have "mset (B ! i) = mset (take j (B ! i) @ B ! i ! j # drop (Suc j) (B ! i))"
    using id_take_nth_drop [OF assms(2)] by simp
  then show ?thesis
    using mset_concat_update [OF assms(1), of "take j (B ! i) @ drop (Suc j) (B ! i)"] by simp
qed

lemma distinct_map_mset: "mset xs = mset ys \<Longrightarrow> distinct (map f xs) = distinct (map f ys)"
  by (metis mset_eq_imp_distinct_iff mset_map)

text \<open>The map of the keys \<open>f\<close> of a set of nodes, when a node leaves or joins.\<close>

lemma key_map_remove:
  assumes "\<forall>k d. M k = Some d \<longleftrightarrow> d \<in> S \<and> f d = Some k" "S = insert x S'" "x \<notin> S'" "f x = Some k"
    and "\<And>e. e \<in> S \<Longrightarrow> f e = Some k \<Longrightarrow> e = x"
  shows "(M(k := None)) k' = Some e \<longleftrightarrow> e \<in> S' \<and> f e = Some k'"
proof (cases "k' = k")
  case True
  then show ?thesis using assms(2,3,5) by force
next
  case False
  then have "(M(k := None)) k' = Some e \<longleftrightarrow> e \<in> S \<and> f e = Some k'" using assms(1) by simp
  then show ?thesis using assms(2,4) False by force
qed

lemma key_map_insert:
  assumes "\<forall>k d. M k = Some d \<longleftrightarrow> d \<in> S \<and> f d = Some k" "M k = None" "f x = Some k"
  shows "(M(k \<mapsto> x)) k' = Some e \<longleftrightarrow> e \<in> insert x S \<and> f e = Some k'"
proof (cases "k' = k")
  case True
  have "e \<notin> S \<or> f e \<noteq> Some k" using assms(1,2) by (metis option.distinct(1))
  then show ?thesis using True assms(3) by force
next
  case False
  then have "(M(k \<mapsto> x)) k' = Some e \<longleftrightarrow> e \<in> S \<and> f e = Some k'" using assms(1) by simp
  then show ?thesis using assms(3) False by force
qed

context key_contract
begin

lemma nkeys_ok_cong: "nkey h' = nkey h \<Longrightarrow> nkeys_ok h' n B = nkeys_ok h n B"
  by (simp add: nkeys_ok_def)

lemma nkeys_ok_remove:
  assumes nk: "nkeys_ok h n B" and i: "i < length B" "j < length (B ! i)"
  shows "nkeys_ok h n (B[i := take j (B ! i) @ drop (Suc j) (B ! i)])"
proof -
  let ?B = "B[i := take j (B ! i) @ drop (Suc j) (B ! i)]"
  have "distinct (map (nkey h) (B ! i ! j # concat ?B)) = distinct (map (nkey h) (concat B))"
    by (rule distinct_map_mset [OF concat_remove_mset [OF i]])
  then have "distinct (map (nkey h) (B ! i ! j # concat ?B))" using nk by (simp only: nkeys_ok_def)
  moreover have "\<forall>i' < length B. \<forall>d \<in> set (?B ! i'). \<exists>k. nkey h d = Some k \<and> kidx k n = i'"
    using nk i(1) unfolding nkeys_ok_def
    by (auto simp: nth_list_update dest: in_set_takeD in_set_dropD)
  ultimately show ?thesis by (simp add: nkeys_ok_def)
qed

lemma nkeys_ok_insert:
  assumes nk: "nkeys_ok h n B" and d: "nkey h d = Some k" "kidx k n < length B"
    and new: "\<forall>d' \<in> set (concat B). nkey h d' \<noteq> Some k"
  shows "nkeys_ok h n (B[kidx k n := d # B ! kidx k n])"
proof -
  let ?B = "B[kidx k n := d # B ! kidx k n]"
  have "nkey h d \<notin> nkey h ` set (concat B)" using d(1) new by (metis imageE)
  then have "distinct (map (nkey h) (d # concat B))" using nk by (simp add: nkeys_ok_def)
  then have "distinct (map (nkey h) (concat ?B))"
    using distinct_map_mset [OF concat_insert_mset [OF d(2)]] by metis
  moreover have "\<forall>i' < length B. \<forall>d \<in> set (?B ! i'). \<exists>k. nkey h d = Some k \<and> kidx k n = i'"
    using nk d unfolding nkeys_ok_def by (auto simp: nth_list_update)
  ultimately show ?thesis by (simp add: nkeys_ok_def)
qed

text \<open>The map of a table is determined by its nodes.\<close>

lemma ht_map_unique:
  assumes "nkeys_ok h n B" "d \<in> set (concat B)" "d' \<in> set (concat B)" "nkey h d = nkey h d'"
  shows "d = d'"
  using assms by (auto simp: nkeys_ok_def distinct_map dest: inj_onD)

lemma ht_mapE:
  assumes "ht_map h t M"
  obtains n a bs As B where "ht_at h t n a bs As B" "length (concat B) \<le> n * 3 div 4"
    "length (concat B) < 2 ^ 31" "\<forall>k d. M k = Some d \<longleftrightarrow> d \<in> set (concat B) \<and> nkey h d = Some k"
proof -
  from assms [unfolded ht_map_def] obtain n a bs As B where
    1: "ht_at h t n a bs As B \<and> length (concat B) \<le> n * 3 div 4
      \<and> (\<forall>k d. M k = Some d \<longleftrightarrow> d \<in> set (concat B) \<and> nkey h d = Some k)"
    by (elim exE) (rule that)
  then have "n * 3 < 2 ^ 32" by (simp add: ht_at_def table_at_def)
  moreover have "length (concat B) \<le> n * 3 div 4" using 1 by (elim conjE)
  ultimately have "length (concat B) < 2 ^ 31" by simp
  with 1 that show thesis by blast
qed

lemma htable_find_spec:
  assumes ht: "ht_map h t M" and p: "key (ht_heap.more h) p = Some k"
  shows "htable_find call_hash call_cmp t p h = Some (case M k of None \<Rightarrow> NULL | Some d \<Rightarrow> d)"
proof -
  obtain n a bs As B where 0: "ht_at h t n a bs As B" "length (concat B) \<le> n * 3 div 4" "length (concat B) < 2 ^ 31"
      "\<forall>k d. M k = Some d \<longleftrightarrow> d \<in> set (concat B) \<and> nkey h d = Some k"
    by (rule ht_mapE [OF ht])
  note 1 = 0(1,3,4)
  let ?P = "\<lambda>d. nkey h d = Some k" and ?ds = "B ! kidx k n"
  note b = ht_at_bucket [OF 1(1) p]
  note find = htable_find_at [OF 1(1) p 1(2)]
  show ?thesis
  proof (cases "\<exists>d \<in> set ?ds. ?P d")
    case True
    then have j: "first_index ?P ?ds < length ?ds" by (simp add: first_index_less)
    let ?d = "?ds ! first_index ?P ?ds"
    have "?P ?d" using first_index_nth [OF True] .
    moreover have "?d \<in> set ?ds" using j by simp
    ultimately have "M k = Some ?d" using 1(3) b(8) by blast
    with find j show ?thesis by simp
  next
    case False
    then have "M k = None" using 1(3) b(7) by (metis not_None_eq)
    moreover have "\<not> first_index ?P ?ds < length ?ds" using False by (simp add: first_index_less)
    ultimately show ?thesis using find by simp
  qed
qed

text \<open>
  Removal unlinks the node and returns it; the node itself, its key and its value stay.
\<close>

lemma htable_remove_spec:
  assumes ht: "ht_map h t M" and p: "key (ht_heap.more h) p = Some k"
  shows "\<exists>h'. htable_remove call_hash call_cmp t p h = Some (case M k of None \<Rightarrow> NULL | Some d \<Rightarrow> d, h')
     \<and> ht_map h' t (M(k := None)) \<and> hnodes h' = hnodes h \<and> ht_heap.more h' = ht_heap.more h
     \<and> oom h' = oom h \<and> brk h \<le> brk h'"
proof -
  obtain n a bs As B where 1: "ht_at h t n a bs As B" "length (concat B) \<le> n * 3 div 4" "length (concat B) < 2 ^ 31"
      "\<forall>k d. M k = Some d \<longleftrightarrow> d \<in> set (concat B) \<and> nkey h d = Some k"
    by (rule ht_mapE [OF ht])
  define i where "i = kidx k n"
  define j where "j = first_index (\<lambda>d. nkey h d = Some k) (B ! i)"
  have ok: "hheap_ok h" and tb: "table_at h t hash_f comp_f n a bs (length (concat B))"
    and bk: "buckets h comp_f bs As B" and nk: "nkeys_ok h n B"
    using 1(1) by (auto simp: ht_at_def)
  note b = ht_at_bucket [OF 1(1) p, folded i_def]
  note find = htable_find_at [OF 1(1) p 1(3), folded i_def, folded j_def]
  have tn: "t \<noteq> NULL" and pn: "p \<noteq> NULL" using table_at_nonnull [OF ok tb] key_nonnull [OF p] by auto
  show ?thesis
  proof (cases "j < length (B ! i)")
    case False
    then have "M k = None"
      using 1(4) b(7) first_index_less [of "\<lambda>d. nkey h d = Some k" "B ! i"]
      unfolding j_def by (metis not_None_eq)
    then have "htable_remove call_hash call_cmp t p h = Some (NULL, h)" "M(k := None) = M"
      using find False tn pn by (auto simp: htable_remove_def)
    then show ?thesis using \<open>M k = None\<close> ht by auto
  next
    case True
    let ?d = "B ! i ! j" and ?ds = "take j (B ! i) @ drop (Suc j) (B ! i)"
    have d: "?d \<in> set (B ! i)" "nkey h ?d = Some k"
      using True first_index_nth [of "B ! i" "\<lambda>d. nkey h d = Some k"] first_index_less [of "\<lambda>d. nkey h d = Some k" "B ! i"]
      by (auto simp: j_def)
    have Mk: "M k = Some ?d" using 1(4) b(8) d by blast
    have bi: "bs ! i \<noteq> NULL" using b(2) d(1) unfolding bucket_ok_def by (metis empty_iff list.set(1))
    have dn: "?d \<noteq> NULL" using bucket_ok_nodes [OF b(2) d(1)] .
    have rep: "lrep h (bs ! i) comp_f (As ! i) (bitems (B ! i))" using b(2) bi by (simp add: bucket_ok_def)
    have l: "length (B ! i) < 2 ^ 31" using b(5) 1(3) by simp
    have first: "list_first_occurrence call_cmp (bs ! i) p h = Some (int j)"
      using bucket_lookup(1) [OF hheap_ok_lheap [OF ok] b(2) bi l b(6) p] True by (simp add: j_def)
    have uj: "unat (of_nat j :: 32 word) = j" using True l by (simp add: unat_of_nat_32)
    obtain h1 x where h1: "list_remove (bs ! i) (of_nat j) h = Some (?d, h1)" "x \<in> As ! i"
        "lrep h1 (bs ! i) comp_f (As ! i - {x}) (bitems ?ds)" "lheap_ok h1" "lframe h h1 {bs ! i} (As ! i)"
      using list_remove_spec [OF hheap_ok_lheap [OF ok] rep, of "of_nat j"] True
      by (auto simp: uj take_map drop_map)
    have m1: "hnodes h1 = hnodes h" "tables h1 = tables h" "arrs h1 = arrs h" "ht_heap.more h1 = ht_heap.more h"
      using ht_more_eq [of h1 h] h1(5) by (auto simp: lframe_def)
    have ok1: "hheap_ok h1" using hheap_ok_list_op [OF ok h1(4,5)] .
    let ?B = "B[i := ?ds]" and ?As = "As[i := As ! i - {x}]"
    have iB: "i < length B" using b(1,3,4) by simp
    have bk1: "buckets h1 comp_f bs ?As ?B"
    proof -
      have "bucket_ok h1 comp_f (bs ! i) (As ! i - {x}) ?ds" using h1(3) bi by (simp add: bucket_ok_def)
      from buckets_upd [OF bk b(1) hheap_ok_lheap [OF ok] h1(5) this] show ?thesis by auto
    qed
    have len: "length (concat B) = Suc (length (concat ?B))"
      using concat_remove_mset [OF iB True] by (metis length_Cons mset_eq_length)
    obtain T where T: "tables h t = Some T" "curr_size T = of_nat (length (concat B))" "capacity T = of_nat n"
        "t_hash_f T = hash_f" "t_vals T = a" using tb by (auto simp: table_at_def)
    let ?h = "h1\<lparr>tables := (tables h1)(t \<mapsto> T\<lparr>curr_size := curr_size T - 1\<rparr>)\<rparr>"
    have read: "read_arr a (of_nat i) h = Some (bs ! i)"
      using tb b(1) key_index_eval(3) [OF tb p] by (simp add: read_arr_def table_at_def i_def)
    have run: "htable_remove call_hash call_cmp t p h = Some (?d, ?h)"
      using find True dn tn pn T first h1(1) key_index_eval(1) [OF tb p, folded i_def] read m1(2)
      by (simp add: htable_remove_def heap_defs)
    have nk1: "nkey ?h = nkey h" by (rule nkey_cong) (simp_all add: m1)
    have okh: "hheap_ok ?h" using ok1 T(1) m1(2) unfolding hheap_ok_def lheap_ok_def by auto
    have "table_at ?h t hash_f comp_f n a bs (length (concat ?B))"
      using tb T(1) len m1(3) by (simp add: table_at_def)
    moreover have "buckets ?h comp_f bs ?As ?B"
      using bk1 by simp
    moreover have "nkeys_ok ?h n ?B" using nkeys_ok_remove [OF nk iB True] nkeys_ok_cong [OF nk1] by blast
    ultimately have at: "ht_at ?h t n a bs ?As ?B" using okh by (simp add: ht_at_def)
    have set: "set (concat B) = insert ?d (set (concat ?B))"
      using concat_remove_mset [OF iB True] by (metis list.set(2) mset_eq_setD)
    have new: "?d \<notin> set (concat ?B)"
    proof -
      have "distinct (map (nkey h) (?d # concat ?B))"
        using nk distinct_map_mset [OF concat_remove_mset [OF iB True], of "nkey h"] by (simp add: nkeys_ok_def)
      then show ?thesis by auto
    qed
    have dB: "?d \<in> set (concat B)" using set by blast
    have uniq: "e = ?d" if "e \<in> set (concat B)" "nkey h e = Some k" for e
      using ht_map_unique [OF nk that(1) dB] that(2) d(2) by simp
    have "(M(k := None)) k' = Some e \<longleftrightarrow> e \<in> set (concat ?B) \<and> nkey ?h e = Some k'" for k' e
      unfolding nk1 using 1(4) set new d(2) uniq by (rule key_map_remove)
    then have "ht_map ?h t (M(k := None))" using at 1(2) len unfolding ht_map_def
      by (intro exI [of _ n] exI [of _ a] exI [of _ bs] exI [of _ ?As] exI [of _ ?B]) simp
    then show ?thesis using run Mk m1 h1(5) by (intro exI [of _ ?h]) (simp add: lframe_def)
  qed
qed

end

end
