(* ===== verification/HTableAdd.thy ===== *)
theory HTableAdd
  imports HTableOps
begin

text \<open>
  Adding a node to a table: the common steps of \<open>htable_insert\<close> and of \<open>htable_node_insert\<close>,
  which the rehash runs while the buckets \<open>xs\<close> of the old table are still there.
\<close>

context key_contract
begin

lemma add_steps:
  assumes ok: "hheap_ok h" and mem: "never_oom h" and tb: "table_at h t hash_f comp_f n a bn m"
    and bk: "buckets h comp_f (xs @ bn) (Ax @ An) (X @ Bn)" and len: "length Ax = length xs" "length X = length xs"
    and d: "d \<noteq> NULL" and m: "Suc m < 2 ^ 32" "length (Bn ! i) < m + 1" and i: "i < n"
  obtains b' h1 h2 h3 h' A' where
    "read_arr a (of_nat i) h = Some (bn ! i)"
    "(if bn ! i = NULL then list_create comp_f h else Some (bn ! i, h)) = Some (b', h1)"
    "list_prepend b' d NODE_FREE h1 = Some (True, h2)" "write_arr a (of_nat i) b' h2 = Some h3"
    "upd_table t (\<lambda>t. t\<lparr>curr_size := curr_size t + 1\<rparr>) h3 = Some h'"
    "hheap_ok h'" "table_at h' t hash_f comp_f n a (bn[i := b']) (Suc m)"
    "buckets h' comp_f (xs @ bn[i := b']) (Ax @ An[i := A']) (X @ Bn[i := d # Bn ! i])"
    "hnodes h' = hnodes h" "ht_heap.more h' = ht_heap.more h" "oom h' = oom h"
    "\<forall>t'. t' \<noteq> t \<longrightarrow> tables h' t' = tables h t'" "\<forall>a'. a' \<noteq> a \<longrightarrow> arrs h' a' = arrs h a'" "brk h \<le> brk h'"
proof -
  let ?i = "length xs + i"
  have n: "length bn = n" "n < 2 ^ 32" using tb by (auto simp: table_at_def)
  have ib: "?i < length (xs @ bn)" "(xs @ bn) ! ?i = bn ! i" "(Ax @ An) ! ?i = An ! i" "(X @ Bn) ! ?i = Bn ! i"
    using i n(1) len by (simp_all add: nth_append)
  have ui: "unat (of_nat i :: 32 word) = i" using i n(2) by (simp add: unat_of_nat_32)
  have read: "read_arr a (of_nat i) h = Some (bn ! i)"
    using tb i n(1) ui by (simp add: read_arr_def table_at_def)
  have b: "bucket_ok h comp_f (bn ! i) (An ! i) (Bn ! i)" using buckets_nth [OF bk ib(1)] ib by simp
  obtain b' h1 h2 A' where 1: "(if bn ! i = NULL then list_create comp_f h else Some (bn ! i, h)) = Some (b', h1)"
    "list_prepend b' d NODE_FREE h1 = Some (True, h2)" "bucket_ok h2 comp_f b' A' (d # Bn ! i)"
    "A' \<subseteq> An ! i \<union> {brk h..}" "b' = bn ! i \<or> brk h \<le> b'" "lheap_ok h2" "lframe h h2 {bn ! i} (An ! i)"
    using bucket_add [OF hheap_ok_lheap [OF ok] mem b d] m by auto
  have m2: "hnodes h2 = hnodes h" "tables h2 = tables h" "arrs h2 = arrs h" "ht_heap.more h2 = ht_heap.more h"
    "oom h2 = oom h" "brk h \<le> brk h2" using ht_more_eq [of h2 h] 1(7) by (auto simp: lframe_def)
  have ok2: "hheap_ok h2" using hheap_ok_list_op [OF ok 1(6,7)] .
  have bk2: "buckets h2 comp_f (xs @ bn[i := b']) (Ax @ An[i := A']) (X @ Bn[i := d # Bn ! i])"
    using buckets_upd [OF bk ib(1) hheap_ok_lheap [OF ok], of h2 b' A' "d # Bn ! i"] 1 ib len
    by (simp add: list_update_append)
  obtain T where T: "tables h t = Some T" "arrs h a = Some bn" "curr_size T = of_nat m"
    using tb by (auto simp: table_at_def)
  let ?h3 = "h2\<lparr>arrs := (arrs h2)(a \<mapsto> bn[i := b'])\<rparr>"
  let ?h = "?h3\<lparr>tables := (tables h2)(t \<mapsto> T\<lparr>curr_size := curr_size T + 1\<rparr>)\<rparr>"
  have w: "write_arr a (of_nat i) b' h2 = Some ?h3"
    using T(2) m2(3) i n(1) ui by (simp add: write_arr_def)
  have u: "upd_table t (\<lambda>t. t\<lparr>curr_size := curr_size t + 1\<rparr>) ?h3 = Some ?h"
    using T(1) m2(2) by (simp add: heap_defs)
  have okh: "hheap_ok ?h" using ok2 T m2(2,3) unfolding hheap_ok_def lheap_ok_def by auto
  have "table_at ?h t hash_f comp_f n a (bn[i := b']) (Suc m)"
    using tb T m2 m(1) by (simp add: table_at_def)
  moreover have "buckets ?h comp_f (xs @ bn[i := b']) (Ax @ An[i := A']) (X @ Bn[i := d # Bn ! i])"
    using bk2 by simp
  ultimately show thesis using that [OF read 1(1,2) w u okh] m2 by auto
qed

lemma node_insert_spec:
  assumes ok: "hheap_ok h" and mem: "never_oom h" and tb: "table_at h t hash_f comp_f n a bn m"
    and bk: "buckets h comp_f (xs @ bn) (Ax @ An) (X @ Bn)" and len: "length Ax = length xs" "length X = length xs"
    and d: "d \<noteq> NULL" "nkey h d = Some k" and m: "Suc m < 2 ^ 32" "length (Bn ! kidx k n) < m + 1"
  shows "\<exists>b' A' h'. htable_node_insert call_hash t d h = Some h'
    \<and> hheap_ok h' \<and> table_at h' t hash_f comp_f n a (bn[kidx k n := b']) (Suc m)
    \<and> buckets h' comp_f (xs @ bn[kidx k n := b']) (Ax @ An[kidx k n := A']) (X @ Bn[kidx k n := d # Bn ! kidx k n])
    \<and> hnodes h' = hnodes h \<and> ht_heap.more h' = ht_heap.more h \<and> oom h' = oom h
    \<and> (\<forall>t'. t' \<noteq> t \<longrightarrow> tables h' t' = tables h t') \<and> (\<forall>a'. a' \<noteq> a \<longrightarrow> arrs h' a' = arrs h a') \<and> brk h \<le> brk h'"
proof -
  obtain x where x: "hnodes h d = Some x" "key (ht_heap.more h) (h_key x) = Some k"
    using d(2) by (auto simp: nkey_def split: option.splits)
  note ki = key_index_eval [OF tb x(2)]
  obtain b' h1 h2 h3 h' A' where s:
    "read_arr a (of_nat (kidx k n)) h = Some (bn ! kidx k n)"
    "(if bn ! kidx k n = NULL then list_create comp_f h else Some (bn ! kidx k n, h)) = Some (b', h1)"
    "list_prepend b' d NODE_FREE h1 = Some (True, h2)" "write_arr a (of_nat (kidx k n)) b' h2 = Some h3"
    "upd_table t (\<lambda>t. t\<lparr>curr_size := curr_size t + 1\<rparr>) h3 = Some h'"
    "hheap_ok h'" "table_at h' t hash_f comp_f n a (bn[kidx k n := b']) (Suc m)"
    "buckets h' comp_f (xs @ bn[kidx k n := b']) (Ax @ An[kidx k n := A']) (X @ Bn[kidx k n := d # Bn ! kidx k n])"
    "hnodes h' = hnodes h" "ht_heap.more h' = ht_heap.more h" "oom h' = oom h"
    "\<forall>t'. t' \<noteq> t \<longrightarrow> tables h' t' = tables h t'" "\<forall>a'. a' \<noteq> a \<longrightarrow> arrs h' a' = arrs h a'" "brk h \<le> brk h'"
    by (rule add_steps [OF ok mem tb bk len d(1) m ki(2)]) (rule that; assumption)
  have "htable_node_insert call_hash t d h = Some h'"
    using tb x(1) ki(1) s(1-5)
    by (cases "bn ! kidx k n = NULL") (simp_all add: htable_node_insert_def table_at_def)
  then show ?thesis using s(6-14) by (intro exI [of _ b'] exI [of _ A'] exI [of _ h']) simp
qed

text \<open>
  The inner loop of the rehash empties the first of the remaining buckets into the new table:
  its nodes go to the buckets of their keys, the last of them first.
\<close>

lemma move_loop_spec:
  assumes "hheap_ok h" "never_oom h" "table_at h t hash_f comp_f n a bn m"
    and "buckets h comp_f ((b # xs) @ bn) (Ax @ An) ((ds # X) @ Bn)" "length Ax = Suc (length xs)" "length X = length xs"
    and "b \<noteq> NULL" "nkeys_ok h n Bn" "m = length (concat Bn)" "m + length ds < 2 ^ 32"
    and "distinct (map (nkey h) (ds @ concat Bn))" "\<forall>d \<in> set ds. nkey h d \<noteq> None"
  shows "\<exists>h' bn' Ax' An' Bn'. move_loop call_hash t b h = Some h' \<and> hheap_ok h' \<and> never_oom h'
     \<and> table_at h' t hash_f comp_f n a bn' (m + length ds)
     \<and> buckets h' comp_f ((b # xs) @ bn') (Ax' @ An') (([] # X) @ Bn') \<and> length Ax' = Suc (length xs)
     \<and> nkeys_ok h' n Bn' \<and> mset (concat Bn') = mset ds + mset (concat Bn)
     \<and> hnodes h' = hnodes h \<and> ht_heap.more h' = ht_heap.more h
     \<and> (\<forall>t'. t' \<noteq> t \<longrightarrow> tables h' t' = tables h t') \<and> (\<forall>a'. a' \<noteq> a \<longrightarrow> arrs h' a' = arrs h a') \<and> brk h \<le> brk h'"
  using assms
proof (induction ds arbitrary: h bn Ax An Bn m)
  case Nil
  have "bucket_ok h comp_f b (Ax ! 0) []"
    using buckets_nth [OF Nil.prems(4), of 0] Nil.prems(5) by (cases Ax) auto
  then obtain l where "lists h b = Some l" "l_size l = 0"
    using Nil.prems(7) lrep_size_field by (fastforce simp: bucket_ok_def)
  then have "move_loop call_hash t b h = Some h" by (subst move_loop.simps) simp
  then show ?case using Nil.prems by auto
next
  case (Cons d ds)
  obtain A0 Ar where Ax: "Ax = A0 # Ar" using Cons.prems(5) by (cases Ax) auto
  have bk: "buckets h comp_f (b # xs @ bn) (A0 # Ar @ An) ((d # ds) # X @ Bn)" using Cons.prems(4) Ax by simp
  have bd: "bucket_ok h comp_f b A0 (d # ds)" using buckets_nth [OF bk, of 0] by simp
  then have rep: "lrep h b comp_f A0 ((d, NODE_FREE) # bitems ds)"
    using Cons.prems(7) by (simp add: bucket_ok_def)
  have dn: "d \<noteq> NULL" using bucket_ok_nodes [OF bd, of d] by simp
  obtain l where l: "lists h b = Some l" "l_size l \<noteq> 0"
    using lrep_size_field [OF rep] lrep_length [OF rep] of_nat_32_eq_0 [of "Suc (length ds)"]
    by (auto simp del: of_nat_Suc)
  obtain h1 x where h1: "list_pop_head b h = Some (d, h1)" "x \<in> A0" "lrep h1 b comp_f (A0 - {x}) (bitems ds)"
      "lheap_ok h1" "lframe h h1 {b} A0"
    using list_pop_head_spec [OF hheap_ok_lheap [OF Cons.prems(1)] rep] by auto
  have m1: "hnodes h1 = hnodes h" "tables h1 = tables h" "arrs h1 = arrs h" "ht_heap.more h1 = ht_heap.more h"
    "oom h1 = oom h" "brk h \<le> brk h1" using ht_more_eq [of h1 h] h1(5) by (auto simp: lframe_def)
  have nk1: "nkey h1 = nkey h" by (rule nkey_cong) (simp_all add: m1)
  have ok1: "hheap_ok h1" using hheap_ok_list_op [OF Cons.prems(1) h1(4,5)] .
  have tb1: "table_at h1 t hash_f comp_f n a bn m" using Cons.prems(3) m1 by (simp add: table_at_def)
  have bk1: "buckets h1 comp_f ((b # xs) @ bn) (((A0 - {x}) # Ar) @ An) ((ds # X) @ Bn)"
  proof -
    have "bucket_ok h1 comp_f b (A0 - {x}) ds" using h1(3) Cons.prems(7) by (simp add: bucket_ok_def)
    with buckets_upd [OF bk, of 0 h1 b "A0 - {x}" ds] h1(5) Cons.prems(1) show ?thesis by auto
  qed
  obtain k where k: "nkey h1 d = Some k" using Cons.prems(12) nk1 by auto
  have t2: "2 \<le> n" "n < 2 ^ 32" "length Bn = n"
    using Cons.prems(3) buckets_length [OF Cons.prems(4)] Cons.prems(6) by (auto simp: table_at_def)
  have i: "kidx k n < length Bn" using kidx_less [of n k] t2 by simp
  have lenB: "length (Bn ! kidx k n) \<le> length (concat Bn)"
    using i by (simp add: length_concat member_le_sum_list)
  have mem1: "never_oom h1" using Cons.prems(2) m1(5) by simp
  obtain b' A' h2 where h2: "htable_node_insert call_hash t d h1 = Some h2" "hheap_ok h2"
     "table_at h2 t hash_f comp_f n a (bn[kidx k n := b']) (Suc m)"
     "buckets h2 comp_f ((b # xs) @ bn[kidx k n := b']) (((A0 - {x}) # Ar) @ An[kidx k n := A'])
        ((ds # X) @ Bn[kidx k n := d # Bn ! kidx k n])"
     "hnodes h2 = hnodes h1" "ht_heap.more h2 = ht_heap.more h1" "oom h2 = oom h1"
     "\<forall>t'. t' \<noteq> t \<longrightarrow> tables h2 t' = tables h1 t'" "\<forall>a'. a' \<noteq> a \<longrightarrow> arrs h2 a' = arrs h1 a'" "brk h1 \<le> brk h2"
    using node_insert_spec [OF ok1 mem1 tb1 bk1 _ _ dn k] Cons.prems(5,6,9,10) Ax lenB by auto
  let ?Bn = "Bn[kidx k n := d # Bn ! kidx k n]"
  have nk2: "nkey h2 = nkey h" using nk1 h2(5,6) nkey_cong [of h2 h1] by simp
  have ms: "mset (concat ?Bn) = mset (d # concat Bn)" by (rule concat_insert_mset [OF i])
  have new: "\<forall>d' \<in> set (concat Bn). nkey h2 d' \<noteq> Some k"
    using Cons.prems(11) k nk1 nk2 by (auto simp: image_iff) (metis+)
  have nks: "nkeys_ok h2 n ?Bn"
    using nkeys_ok_insert [OF _ _ i, of h2 d] Cons.prems(8) nkeys_ok_cong [OF nk2] k nk1 nk2 new by simp
  have dist: "distinct (map (nkey h2) (ds @ concat ?Bn))"
  proof -
    have "mset (ds @ concat ?Bn) = mset ((d # ds) @ concat Bn)" using ms by simp
    from distinct_map_mset [OF this, of "nkey h2"] Cons.prems(11) show ?thesis by (simp only: nk2)
  qed
  have len2: "Suc m = length (concat ?Bn)" using Cons.prems(9) mset_eq_length [OF ms] by simp
  obtain h' bn' Ax' An' Bn' where r: "move_loop call_hash t b h2 = Some h'" "hheap_ok h'" "never_oom h'"
     "table_at h' t hash_f comp_f n a bn' (Suc m + length ds)"
     "buckets h' comp_f ((b # xs) @ bn') (Ax' @ An') (([] # X) @ Bn')" "length Ax' = Suc (length xs)"
     "nkeys_ok h' n Bn'" "mset (concat Bn') = mset ds + mset (concat ?Bn)"
     "hnodes h' = hnodes h2" "ht_heap.more h' = ht_heap.more h2"
     "\<forall>t'. t' \<noteq> t \<longrightarrow> tables h' t' = tables h2 t'" "\<forall>a'. a' \<noteq> a \<longrightarrow> arrs h' a' = arrs h2 a'" "brk h2 \<le> brk h'"
    using Cons.IH [OF h2(2) _ h2(3,4) _ Cons.prems(6,7) nks len2 _ dist]
      Cons.prems(2,5,10,12) m1(5) h2(7) nk2 Ax by auto
  have "move_loop call_hash t b h = Some h'"
    using l h1(1) h2(1) r(1) by (subst move_loop.simps) simp
  then show ?case using r h2(5,6,8,9,10) m1 ms
    by (intro exI [of _ h'] exI [of _ bn'] exI [of _ Ax'] exI [of _ An'] exI [of _ Bn']) simp
qed

end

end
