(* ===== verification/HTableRehash.thy ===== *)
theory HTableRehash
  imports HTableAdd
begin

text \<open>
  The rehash: a table of twice the capacity with the same nodes, and insertion with it.
\<close>

lemma list_destroy_empty:
  assumes "lheap_ok h" "lrep h b c A []"
  shows "list_destroy cf b h = Some (True, NULL, h\<lparr>lists := (lists h)(b := None)\<rparr>)"
    "lframe h (h\<lparr>lists := (lists h)(b := None)\<rparr>) {b} {}" "lheap_ok (h\<lparr>lists := (lists h)(b := None)\<rparr>)"
proof -
  obtain l where l: "lists h b = Some l" "l_size l = 0" using lrep_size_field [OF assms(2)] by auto
  then show "list_destroy cf b h = Some (True, NULL, h\<lparr>lists := (lists h)(b := None)\<rparr>)"
    using lrep_nonnull [OF assms] by (simp add: list_destroy_def list_destroy_items_def list_size_def heap_defs)
  show "lframe h (h\<lparr>lists := (lists h)(b := None)\<rparr>) {b} {}" by (simp add: lframe_def)
  show "lheap_ok (h\<lparr>lists := (lists h)(b := None)\<rparr>)" using assms(1) by (simp add: lheap_ok_def)
qed

lemma list_destroy_null: "list_destroy cf NULL h = Some (False, NULL, h)"
  by (simp add: list_destroy_def)

lemma drop_Cons_nth: "drop j xs = y # ys \<Longrightarrow> j < length xs \<and> xs ! j = y \<and> drop (Suc j) xs = ys"
  by (metis Cons_nth_drop_Suc drop_eq_Nil2 linorder_not_le list.inject list.distinct(1))

lemma distinct_map_drop_mid: "distinct (map f ((xs @ ys) @ zs)) \<Longrightarrow> distinct (map f (xs @ zs))"
  by (simp add: Int_Un_distrib)

context key_contract
begin

lemma rehash_loop_spec:
  assumes "hheap_ok h" "never_oom h" "table_at h t hash_f comp_f n a bn m" "told \<noteq> t"
    and "tables h told = Some T" "arrs h (t_vals T) = Some bs" "t_vals T \<noteq> a" "drop j bs = bo" "length bs < 2 ^ 32"
    and "buckets h comp_f (bo @ bn) (Ao @ An) (Bo @ Bn)" "length Ao = length bo" "length Bo = length bo"
    and "nkeys_ok h n Bn" "m = length (concat Bn)" "m + length (concat Bo) < 2 ^ 32"
    and "distinct (map (nkey h) (concat Bo @ concat Bn))" "\<forall>d \<in> set (concat Bo). nkey h d \<noteq> None"
  shows "\<exists>h' bn' An' Bn'. rehash_loop call_hash call_free (length bo) told t (of_nat j) NULL h = Some h'
     \<and> hheap_ok h' \<and> never_oom h' \<and> table_at h' t hash_f comp_f n a bn' (m + length (concat Bo))
     \<and> buckets h' comp_f bn' An' Bn' \<and> nkeys_ok h' n Bn'
     \<and> mset (concat Bn') = mset (concat Bo) + mset (concat Bn)
     \<and> hnodes h' = hnodes h \<and> ht_heap.more h' = ht_heap.more h
     \<and> (\<forall>t'. t' \<noteq> t \<longrightarrow> tables h' t' = tables h t') \<and> (\<forall>a'. a' \<noteq> a \<longrightarrow> arrs h' a' = arrs h a') \<and> brk h \<le> brk h'"
  using assms
proof (induction bo arbitrary: h bn m j Ao An Bo Bn)
  case Nil
  then show ?case by auto
next
  case (Cons b bo)
  obtain A Ar where Ao: "Ao = A # Ar" "length Ar = length bo" using Cons.prems(11) by (cases Ao) auto
  obtain ds Br where Bo: "Bo = ds # Br" "length Br = length bo" using Cons.prems(12) by (cases Bo) auto
  have bk: "buckets h comp_f (b # bo @ bn) (A # Ar @ An) (ds # Br @ Bn)" using Cons.prems(10) Ao Bo by simp
  have bd: "bucket_ok h comp_f b A ds" using buckets_nth [OF bk, of 0] by simp
  have j: "j < length bs" "bs ! j = b" "drop (Suc j) bs = bo" using drop_Cons_nth [OF Cons.prems(8)] by auto
  have read: "read_arr (t_vals T) (of_nat j) h = Some b"
    using Cons.prems(6,9) j by (simp add: read_arr_def unat_of_nat_32)
  show ?case
  proof (cases "ds = []")
    case True
    have "rehash_loop call_hash call_free (length (b # bo)) told t (of_nat j) NULL h
        = rehash_loop call_hash call_free (length bo) told t (of_nat (Suc j)) NULL h"
    proof (cases "b = NULL")
      case False
      then have "lrep h b comp_f A []" using bd True by (simp add: bucket_ok_def)
      from lrep_size_field [OF this] obtain l where "lists h b = Some l" "l_size l = 0" by auto
      then show ?thesis using False read Cons.prems(5) by (simp add: list_destroy_null add.commute)
    qed (use read Cons.prems(5) in \<open>simp add: add.commute\<close>)
    moreover have "buckets h comp_f (bo @ bn) (Ar @ An) (Br @ Bn)" using buckets_Cons [OF bk] by simp
    ultimately show ?thesis
      using Cons.IH [of h bn m "Suc j" Ar An Br Bn] Cons.prems(1-7,9,13-17) j(3) Ao(2) Bo True by simp
  next
    case False
    then have b: "b \<noteq> NULL" using bd unfolding bucket_ok_def by metis
    obtain l where l: "lists h b = Some l" "l_size l \<noteq> 0"
    proof -
      have "lrep h b comp_f A (bitems ds)" using bd b by (simp add: bucket_ok_def)
      from lrep_size_field [OF this] lrep_length [OF this] False show thesis
        using that of_nat_32_eq_0 [of "length ds"] by auto
    qed
    have dist: "distinct (map (nkey h) (ds @ concat Bn))" "\<forall>d \<in> set ds. nkey h d \<noteq> None"
      using distinct_map_drop_mid [of "nkey h" ds "concat Br" "concat Bn"] Cons.prems(16,17) Bo(1) by simp_all
    have len: "m + length ds < 2 ^ 32" using Cons.prems(15) Bo by simp
    have bk': "buckets h comp_f ((b # bo) @ bn) ((A # Ar) @ An) ((ds # Br) @ Bn)" using bk by simp
    obtain h1 bn1 Ax1 An1 Bn1 where 1: "move_loop call_hash t b h = Some h1" "hheap_ok h1" "never_oom h1"
       "table_at h1 t hash_f comp_f n a bn1 (m + length ds)"
       "buckets h1 comp_f ((b # bo) @ bn1) (Ax1 @ An1) (([] # Br) @ Bn1)" "length Ax1 = Suc (length bo)"
       "nkeys_ok h1 n Bn1" "mset (concat Bn1) = mset ds + mset (concat Bn)"
       "hnodes h1 = hnodes h" "ht_heap.more h1 = ht_heap.more h"
       "\<forall>t'. t' \<noteq> t \<longrightarrow> tables h1 t' = tables h t'" "\<forall>a'. a' \<noteq> a \<longrightarrow> arrs h1 a' = arrs h a'" "brk h \<le> brk h1"
      using move_loop_spec [OF Cons.prems(1,2,3) bk' _ Bo(2) b Cons.prems(13,14) len dist] Ao(2) by auto
    obtain A1 Ar1 where Ax1: "Ax1 = A1 # Ar1" "length Ar1 = length bo" using 1(6) by (cases Ax1) auto
    have bk1: "buckets h1 comp_f (b # bo @ bn1) (A1 # Ar1 @ An1) ([] # Br @ Bn1)" using 1(5) Ax1 by simp
    have rep1: "lrep h1 b comp_f A1 []" using buckets_nth [OF bk1, of 0] b by (simp add: bucket_ok_def)
    let ?h2 = "h1\<lparr>lists := (lists h1)(b := None)\<rparr>"
    note des = list_destroy_empty [OF hheap_ok_lheap [OF 1(2)] rep1]
    have m2: "nkey ?h2 = nkey h" by (rule nkey_cong) (simp_all add: 1)
    have ok2: "hheap_ok ?h2" using hheap_ok_list_op [OF 1(2) des(3,2)] .
    have bk2: "buckets ?h2 comp_f (bo @ bn1) (Ar1 @ An1) (Br @ Bn1)"
    proof (rule buckets_frame [OF _ hheap_ok_lheap [OF 1(2)] des(2)])
      show "buckets h1 comp_f (bo @ bn1) (Ar1 @ An1) (Br @ Bn1)" using buckets_Cons [OF bk1] by simp
      fix i assume "i < length (bo @ bn1)"
      then have "(b # bo @ bn1) ! 0 \<noteq> (b # bo @ bn1) ! Suc i"
        using bk1 b unfolding buckets_def by (metis Suc_less_eq length_Cons nat.distinct(1) nth_Cons_0 zero_less_Suc)
      then show "(bo @ bn1) ! i = NULL \<or> (bo @ bn1) ! i \<notin> {b}" by auto
    qed simp
    have step: "rehash_loop call_hash call_free (length (b # bo)) told t (of_nat j) NULL h
        = rehash_loop call_hash call_free (length bo) told t (of_nat (Suc j)) NULL ?h2"
      using read Cons.prems(5) b l 1(1) des(1) by (simp add: add.commute)
    have len1: "m + length ds = length (concat Bn1)"
      using Cons.prems(14) arg_cong [OF 1(8), of size] by simp
    have dist1: "distinct (map (nkey ?h2) (concat Br @ concat Bn1))"
    proof -
      have "mset (concat Br @ concat Bn1) = mset (concat (ds # Br) @ concat Bn)" using 1(8) by simp
      from distinct_map_mset [OF this, of "nkey h"] Cons.prems(16) Bo(1) show ?thesis by (simp only: m2)
    qed
    have "\<exists>h' bn' An' Bn'. rehash_loop call_hash call_free (length bo) told t (of_nat (Suc j)) NULL ?h2 = Some h'
       \<and> hheap_ok h' \<and> never_oom h' \<and> table_at h' t hash_f comp_f n a bn' (m + length ds + length (concat Br))
       \<and> buckets h' comp_f bn' An' Bn' \<and> nkeys_ok h' n Bn'
       \<and> mset (concat Bn') = mset (concat Br) + mset (concat Bn1)
       \<and> hnodes h' = hnodes ?h2 \<and> ht_heap.more h' = ht_heap.more ?h2
       \<and> (\<forall>t'. t' \<noteq> t \<longrightarrow> tables h' t' = tables ?h2 t') \<and> (\<forall>a'. a' \<noteq> a \<longrightarrow> arrs h' a' = arrs ?h2 a') \<and> brk ?h2 \<le> brk h'"
    proof (rule Cons.IH [OF ok2])
      show "never_oom ?h2" "table_at ?h2 t hash_f comp_f n a bn1 (m + length ds)"
        using 1(3,4) by (simp_all add: table_at_def)
      show "tables ?h2 told = Some T" "arrs ?h2 (t_vals T) = Some bs" using 1(11,12) Cons.prems(4-7) by simp_all
      show "buckets ?h2 comp_f (bo @ bn1) (Ar1 @ An1) (Br @ Bn1)" by (rule bk2)
      show "nkeys_ok ?h2 n Bn1" using 1(7) nkeys_ok_cong [OF m2] nkeys_ok_cong [OF nkey_cong [OF 1(9,10)]] by simp
      show "m + length ds + length (concat Br) < 2 ^ 32" using Cons.prems(15) Bo(1) by simp
      show "\<forall>d \<in> set (concat Br). nkey ?h2 d \<noteq> None" unfolding m2 using Cons.prems(17) Bo(1) by simp
    qed (use Cons.prems j(3) Ax1 Bo(2) len1 dist1 in \<open>simp_all\<close>)
    then show ?thesis unfolding step
      apply (elim exE conjE)
      subgoal for h' bn' An' Bn'
        using 1(8-13) Bo(1)
        by (intro exI [of _ h'] exI [of _ bn'] exI [of _ An'] exI [of _ Bn']) (simp add: ac_simps)
      done
  qed
qed

end

end
