(* ===== verification/HTableInsert.thy ===== *)
theory HTableInsert
  imports HTableRehash
begin

text \<open>Creation of a table, the whole rehash, and insertion.\<close>

lemma of_nat_32_div4: "m < 2 ^ 32 \<Longrightarrow> (of_nat m :: 32 word) div 4 = of_nat (m div 4)"
  by (simp add: word_arith_nat_div unat_of_nat_32)

lemma calloc_table_ok:
  "can_alloc h \<Longrightarrow> 0 < brk h \<Longrightarrow> calloc_table h
     = (brk h, h\<lparr>allocs := Suc (allocs h), brk := brk h + 48,
          tables := (tables h)(brk h \<mapsto> \<lparr>t_hash_f = NULL, t_comp_f = NULL, t_vals = NULL,
             load_fact_num = 0, load_fact_denom = 0, max_size = 0, curr_size = 0, capacity = 0\<rparr>)\<rparr>)"
  by (simp add: calloc_table_def calloc_def)

lemma calloc_arr_ok:
  "can_alloc h \<Longrightarrow> 0 < brk h \<Longrightarrow> calloc_arr n h
     = (brk h, h\<lparr>allocs := Suc (allocs h), brk := brk h + 8 * unat n,
          arrs := (arrs h)(brk h \<mapsto> replicate (unat n) NULL)\<rparr>)"
  by (simp add: calloc_arr_def calloc_def)

lemma calloc_hnode_ok:
  "can_alloc h \<Longrightarrow> 0 < brk h \<Longrightarrow> calloc_hnode h
     = (brk h, h\<lparr>allocs := Suc (allocs h), brk := brk h + 24,
          hnodes := (hnodes h)(brk h \<mapsto> \<lparr>h_key = NULL, h_value = NULL, h_free = NULL\<rparr>)\<rparr>)"
  by (simp add: calloc_hnode_def calloc_def)

lemma calloc_oom:
  "\<not> can_alloc h \<Longrightarrow> calloc_table h = (NULL, h\<lparr>allocs := Suc (allocs h)\<rparr>)"
  "\<not> can_alloc h \<Longrightarrow> calloc_arr n h = (NULL, h\<lparr>allocs := Suc (allocs h)\<rparr>)"
  "\<not> can_alloc h \<Longrightarrow> calloc_hnode h = (NULL, h\<lparr>allocs := Suc (allocs h)\<rparr>)"
  by (simp_all add: calloc_table_def calloc_arr_def calloc_hnode_def calloc_def)

text \<open>The heap once a table header and its array are allocated at \<open>p\<close> and \<open>a\<close>.\<close>

abbreviation created :: "'z hheap \<Rightarrow> fptr \<Rightarrow> fptr \<Rightarrow> 'z hheap" where
  "created h hash_f comp_f \<equiv>
     h\<lparr>allocs := Suc (Suc (allocs h)), brk := brk h + 64,
       tables := (tables h)(brk h \<mapsto> \<lparr>t_hash_f = hash_f, t_comp_f = comp_f, t_vals = brk h + 48,
          load_fact_num = 3, load_fact_denom = 4, max_size = 1, curr_size = 0, capacity = 2\<rparr>),
       arrs := (arrs h)(brk h + 48 \<mapsto> [NULL, NULL])\<rparr>"

lemma htable_create_ok:
  assumes "0 < brk h" "hash_f \<noteq> NULL" "comp_f \<noteq> NULL" "can_alloc h" "\<not> oom h (Suc (allocs h))"
  shows "htable_create hash_f comp_f h = Some (brk h, created h hash_f comp_f)"
proof -
  have "replicate 2 NULL = [NULL, NULL]" by (simp add: numeral_2_eq_2)
  then have "replicate (unat (2 :: 32 word)) NULL = [NULL, NULL]" by simp
  moreover have "(2 :: 32 word) * 3 div 4 = 1" by simp
  ultimately show ?thesis using assms
    by (simp add: htable_create_def calloc_table_ok calloc_arr_ok heap_defs Let_def
        START_CAPACITY_def LOAD_FACT_NUM_def LOAD_FACT_DENOM_def fun_upd_def)
      (rule ht_heap.equality, simp_all add: fun_eq_iff)
qed

lemma htable_create_oom:
  assumes "0 < brk h" "tables h (brk h) = None"
  shows "\<not> can_alloc h \<Longrightarrow> htable_create hash_f comp_f h = Some (NULL, if hash_f = NULL \<or> comp_f = NULL then h else h\<lparr>allocs := Suc (allocs h)\<rparr>)"
    "can_alloc h \<Longrightarrow> oom h (Suc (allocs h)) \<Longrightarrow> hash_f \<noteq> NULL \<Longrightarrow> comp_f \<noteq> NULL
      \<Longrightarrow> \<exists>h'. htable_create hash_f comp_f h = Some (NULL, h') \<and> tables h' = tables h \<and> arrs h' = arrs h"
proof -
  show "htable_create hash_f comp_f h = Some (NULL, if hash_f = NULL \<or> comp_f = NULL then h else h\<lparr>allocs := Suc (allocs h)\<rparr>)"
    if "\<not> can_alloc h" using that by (simp add: htable_create_def calloc_oom)
  show "\<exists>h'. htable_create hash_f comp_f h = Some (NULL, h') \<and> tables h' = tables h \<and> arrs h' = arrs h"
    if "can_alloc h" "oom h (Suc (allocs h))" "hash_f \<noteq> NULL" "comp_f \<noteq> NULL"
    using that assms by (simp add: htable_create_def calloc_table_ok calloc_oom heap_defs Let_def fun_upd_idem)
qed

lemma hheap_ok_created: 
  assumes "hheap_ok h"
  shows "hheap_ok (created h hash_f comp_f)"
proof (rule hheap_okI)
  show "lheap_ok (created h hash_f comp_f)" using hheap_ok_lheap [OF assms]
    unfolding lheap_ok_def by (auto intro: trans_less_add1)
  note b = hheap_ok_fresh(7) [OF assms]
  fix q
  show "0 < q \<and> q < brk (created h hash_f comp_f)" if "hnodes (created h hash_f comp_f) q = Some x" for x
    using that hheap_ok_below(1) [OF assms, of q x] by simp
  show "0 < q \<and> q < brk (created h hash_f comp_f)" if "tables (created h hash_f comp_f) q = Some x" for x
    using that hheap_ok_below(2) [OF assms, of q x] b by (simp split: if_splits)
  show "0 < q \<and> q < brk (created h hash_f comp_f)" if "arrs (created h hash_f comp_f) q = Some x" for x
    using that hheap_ok_below(3) [OF assms, of q x] b by (simp split: if_splits)
qed

context key_contract
begin

lemma htable_create_spec:
  assumes ok: "hheap_ok h"
  shows "\<exists>p h'. htable_create hash_f comp_f h = Some (p, h')
     \<and> (if can_alloc h \<and> \<not> oom h (Suc (allocs h)) then p = brk h \<and> ht_map h' p Map.empty else p = NULL)"
proof (cases "can_alloc h \<and> \<not> oom h (Suc (allocs h))")
  case True
  let ?h = "created h hash_f comp_f"
  have b: "0 < brk h" using ok by simp
  have "table_at ?h (brk h) hash_f comp_f 2 (brk h + 48) [NULL, NULL] 0"
    by (simp add: table_at_def)
  moreover have "buckets ?h comp_f [NULL, NULL] [{}, {}] [[], []]"
    by (auto simp: buckets_def bucket_ok_def nth_Cons split: nat.splits)
  moreover have "nkeys_ok ?h 2 [[], []]" by (auto simp: nkeys_ok_def nth_Cons split: nat.splits)
  ultimately have "ht_at ?h (brk h) 2 (brk h + 48) [NULL, NULL] [{}, {}] [[], []]"
    using hheap_ok_created [OF ok] by (simp add: ht_at_def)
  then have "ht_map ?h (brk h) Map.empty" unfolding ht_map_def
    by (intro exI [of _ 2] exI [of _ "brk h + 48"] exI [of _ "[NULL, NULL]"] exI [of _ "[{}, {}]"] exI [of _ "[[], []]"]) simp
  then show ?thesis using True htable_create_ok [OF b hash_f comp_f] by simp
next
  case False
  then show ?thesis
    using htable_create_oom [of h hash_f comp_f] hheap_ok_fresh(2,7) [OF ok] hash_f comp_f by auto
qed

lemma nkey_upd_fresh:
  assumes "hnodes h' = (hnodes h)(b \<mapsto> x)" "ht_heap.more h' = ht_heap.more h" "hnodes h b = None" "nkey h d \<noteq> None"
  shows "nkey h' d = nkey h d"
proof -
  have "d \<noteq> b" using assms(3,4) unfolding nkey_def by (metis option.case(1))
  then show ?thesis unfolding nkey_def assms(1,2) by simp
qed

lemma nkey_nonnull:
  assumes "hheap_ok h" "nkey h d = Some k"
  shows "d \<noteq> NULL"
  using assms(2) hheap_ok_fresh(4) [OF assms(1)] unfolding nkey_def by (metis option.case(1) option.distinct(1))

lemma nkeys_ok_Some:
  assumes "nkeys_ok h n B"
  shows "\<forall>d \<in> set (concat B). nkey h d \<noteq> None"
proof
  fix d assume "d \<in> set (concat B)"
  then obtain i where "i < length B" "d \<in> set (B ! i)" by (metis UN_E in_set_conv_nth set_concat)
  then show "nkey h d \<noteq> None" using assms unfolding nkeys_ok_def by (metis option.distinct(1))
qed

lemma htable_rehash_spec:
  assumes ht: "ht_at h t n a bs As B" and mem: "never_oom h" and full: "length (concat B) = n * 3 div 4"
    and small: "n * 6 < 2 ^ 32"
  shows "\<exists>t' h' a' bn An Bn. htable_rehash call_hash call_free t h = Some (t', NULL, h')
    \<and> t' \<noteq> NULL \<and> ht_at h' t' (n * 2) a' bn An Bn \<and> mset (concat Bn) = mset (concat B)
    \<and> hnodes h' = hnodes h \<and> ht_heap.more h' = ht_heap.more h \<and> never_oom h' \<and> tables h' t = None
    \<and> brk h \<le> brk h'"
proof -
  have ok: "hheap_ok h" and tb: "table_at h t hash_f comp_f n a bs (length (concat B))"
    and bk: "buckets h comp_f bs As B" and nk: "nkeys_ok h n B" using ht by (auto simp: ht_at_def)
  let ?m = "length (concat B)" and ?t = "brk h" and ?a = "brk h + 64"
  have b: "0 < brk h" using ok by simp
  have n: "2 \<le> n" "length bs = n" "Suc ?m < 2 ^ 32" "n * 2 < 2 ^ 32" "n * 2 * 3 < 2 ^ 32"
    using tb full small by (auto simp: table_at_def)
  have tt: "t \<noteq> ?t" "a \<noteq> brk h + 48" "a \<noteq> ?a" "t < brk h"
    using tb hheap_ok_below(2,3) [OF ok] unfolding table_at_def by fastforce+
  have tn: "t \<noteq> NULL" "a \<noteq> NULL" using table_at_nonnull [OF ok tb] by auto
  obtain T where T: "tables h t = Some T" "arrs h a = Some bs" "t_vals T = a" "t_hash_f T = hash_f"
      "t_comp_f T = comp_f" "capacity T = of_nat n" "max_size T = of_nat ?m" "curr_size T = of_nat ?m"
    using tb full by (auto simp: table_at_def)
  have guard: "\<not> curr_size T + 1 \<le> max_size T"
    using of_nat_32_le [of "Suc ?m" ?m] n(3) T(7,8) by (simp add: add.commute)
  let ?T = "\<lparr>t_hash_f = hash_f, t_comp_f = comp_f, t_vals = ?a, load_fact_num = 3, load_fact_denom = 4,
      max_size = of_nat (n * 2 * 3 div 4), curr_size = 0, capacity = of_nat (n * 2)\<rparr>"
  let ?h = "h\<lparr>allocs := Suc (Suc (Suc (allocs h))), brk := brk h + 64 + 8 * (n * 2),
       arrs := (arrs h)(brk h + 48 := None, ?a \<mapsto> replicate (n * 2) NULL),
       tables := (tables h)(?t \<mapsto> ?T)\<rparr>"
  have okh: "hheap_ok ?h"
  proof (rule hheap_okI)
    show "lheap_ok ?h" using hheap_ok_lheap [OF ok] unfolding lheap_ok_def by (auto intro: trans_less_add1)
    fix q
    show "0 < q \<and> q < brk ?h" if "hnodes ?h q = Some x" for x
      using that hheap_ok_below(1) [OF ok, of q x] by simp
    show "0 < q \<and> q < brk ?h" if "tables ?h q = Some x" for x
      using that hheap_ok_below(2) [OF ok, of q x] b by (simp split: if_splits)
    show "0 < q \<and> q < brk ?h" if "arrs ?h q = Some x" for x
      using that hheap_ok_below(3) [OF ok, of q x] b n(1) by (simp split: if_splits)
  qed
  have tbh: "table_at ?h ?t hash_f comp_f (n * 2) ?a (replicate (n * 2) NULL) 0"
    using n by (simp add: table_at_def)
  have bkh: "buckets ?h comp_f (bs @ replicate (n * 2) NULL) (As @ replicate (n * 2) {}) (B @ replicate (n * 2) [])"
    using buckets_append_fresh [OF bk, of "n * 2"] by simp
  have nkh: "nkey ?h = nkey h" by (rule nkey_cong) simp_all
  have c0: "concat (replicate (n * 2) []) = ([] :: ptr list)" by simp
  have oldn: "distinct (map (nkey ?h) (concat B @ concat (replicate (n * 2) [])))"
      "\<forall>d \<in> set (concat B). nkey ?h d \<noteq> None"
    unfolding nkh c0 using nk nkeys_ok_Some [OF nk] by (simp_all add: nkeys_ok_def)
  have nk0: "nkeys_ok ?h (n * 2) (replicate (n * 2) [])" by (simp add: nkeys_ok_def)
  obtain h2 bn An Bn where r: "rehash_loop call_hash call_free n t ?t 0 NULL ?h = Some h2"
     "hheap_ok h2" "never_oom h2" "table_at h2 ?t hash_f comp_f (n * 2) ?a bn ?m"
     "buckets h2 comp_f bn An Bn" "nkeys_ok h2 (n * 2) Bn" "mset (concat Bn) = mset (concat B)"
     "hnodes h2 = hnodes h" "ht_heap.more h2 = ht_heap.more h"
     "\<forall>t'. t' \<noteq> ?t \<longrightarrow> tables h2 t' = tables ?h t'" "\<forall>a'. a' \<noteq> ?a \<longrightarrow> arrs h2 a' = arrs ?h a'" "brk h \<le> brk h2"
  proof -
    have l: "length As = length bs" "length B = length bs" using buckets_length [OF bk] by auto
    have m: "?m < 2 ^ 32" "length bs < 2 ^ 32" using n by simp_all
    have memh: "never_oom ?h" using mem by simp
    have T': "tables ?h t = Some T" "arrs ?h (t_vals T) = Some bs" "t_vals T \<noteq> ?a"
      using T tt by simp_all
    have e: "0 = length (concat (replicate (n * 2) ([] :: ptr list)))" "drop 0 bs = bs" by simp_all
    have z: "0 + ?m < 2 ^ 32" using m by simp
    note sp = rehash_loop_spec [OF okh memh tbh tt(1) T' e(2) m(2) bkh l nk0 e(1) z oldn, of call_free, unfolded n(2)]
    from sp show thesis
      apply (elim exE conjE)
      subgoal for h' bn' An' Bn' by (rule that [of h' bn' An' Bn']) simp_all
      done
  qed
  let ?h' = "h2\<lparr>arrs := (arrs h2)(a := None), tables := (tables h2)(t := None)\<rparr>"
  have run: "htable_rehash call_hash call_free t h = Some (?t, NULL, ?h')"
  proof -
    have w1: "unat (of_nat n * 2 :: 32 word) = n * 2"
      using unat_of_nat_32 [OF n(4)] by (simp add: mult.commute)
    have w2: "unat (of_nat n :: 32 word) = n" using n(4) by (simp add: unat_of_nat_32)
    have w3: "(6 * of_nat n div 4 :: 32 word) = of_nat (3 * n div 2)"
      using of_nat_32_div4 [OF n(5)] by (simp add: mult.commute)
    have T2: "tables h2 t = Some T" "arrs h2 a = Some bs" using r(10,11) tt T(1,2) by simp_all
    show ?thesis using T guard b tt tn mem htable_create_ok [OF b hash_f comp_f] r(1) T2
      by (simp add: htable_rehash_def heap_defs Let_def calloc_arr_ok w1 w2 w3)
  qed
  have "hheap_ok ?h'" using r(2) unfolding hheap_ok_def lheap_ok_def by auto
  moreover have "table_at ?h' ?t hash_f comp_f (n * 2) ?a bn (length (concat Bn))"
    using r(4) tt mset_eq_length [OF r(7)] by (simp add: table_at_def)
  moreover have "buckets ?h' comp_f bn An Bn" using r(5) by simp
  moreover have "nkeys_ok ?h' (n * 2) Bn" using r(6) nkeys_ok_cong [OF nkey_cong, of ?h' h2] by simp
  ultimately have "ht_at ?h' ?t (n * 2) ?a bn An Bn" by (simp add: ht_at_def)
  then show ?thesis using run b r(3,7,8,9,12)
    by (intro exI [of _ ?t] exI [of _ ?h'] exI [of _ ?a] exI [of _ bn] exI [of _ An] exI [of _ Bn]) simp
qed

text \<open>The steps of \<open>htable_insert\<close> after the rehash: a new node in the bucket of its key.\<close>

lemma insert_steps:
  fixes v :: ptr and f :: fptr
  assumes ht: "ht_at h t n a bs As B" and mem: "never_oom h" and p: "key (ht_heap.more h) p = Some k"
    and new: "\<forall>d \<in> set (concat B). nkey h d \<noteq> Some k" and room: "Suc (length (concat B)) \<le> n * 3 div 4"
  defines "x \<equiv> \<lparr>h_key = p, h_value = v, h_free = f\<rparr>"
  obtains h1 h2 b' h3 h4 h5 h' bs' As' B' T where
    "calloc_hnode h = (brk h, h1)" "brk h \<noteq> NULL" "hnodes h (brk h) = None"
    "upd_hnode (brk h) (\<lambda>n. n\<lparr>h_key := p, h_value := v, h_free := f\<rparr>) h1 = Some h2"
    "tables h2 t = Some T" "t_hash_f T = hash_f" "t_comp_f T = comp_f" "t_vals T = a" "capacity T = of_nat n"
    "key_index call_hash hash_f p (of_nat n) h2 = Some (of_nat (kidx k n))"
    "read_arr a (of_nat (kidx k n)) h2 = Some (bs ! kidx k n)"
    "(if bs ! kidx k n = NULL then list_create comp_f h2 else Some (bs ! kidx k n, h2)) = Some (b', h3)"
    "list_prepend b' (brk h) NODE_FREE h3 = Some (True, h4)" "write_arr a (of_nat (kidx k n)) b' h4 = Some h5"
    "upd_table t (\<lambda>t. t\<lparr>curr_size := curr_size t + 1\<rparr>) h5 = Some h'"
    "ht_at h' t n a bs' As' B'" "mset (concat B') = mset (brk h # concat B)"
    "hnodes h' = (hnodes h)(brk h \<mapsto> x)" "ht_heap.more h' = ht_heap.more h" "never_oom h'" "brk h \<le> brk h'"
proof -
  have ok: "hheap_ok h" and tb: "table_at h t hash_f comp_f n a bs (length (concat B))"
    and bk: "buckets h comp_f bs As B" and nk: "nkeys_ok h n B" using ht by (auto simp: ht_at_def)
  have b: "0 < brk h" "hnodes h (brk h) = None" using ok by simp_all
  let ?h1 = "h\<lparr>allocs := Suc (allocs h), brk := brk h + 24,
          hnodes := (hnodes h)(brk h \<mapsto> \<lparr>h_key = NULL, h_value = NULL, h_free = NULL\<rparr>)\<rparr>"
  let ?h2 = "h\<lparr>allocs := Suc (allocs h), brk := brk h + 24, hnodes := (hnodes h)(brk h \<mapsto> x)\<rparr>"
  have c: "calloc_hnode h = (brk h, ?h1)" using mem b by (simp add: calloc_hnode_ok)
  have u: "upd_hnode (brk h) (\<lambda>n. n\<lparr>h_key := p, h_value := v, h_free := f\<rparr>) ?h1 = Some ?h2"
    by (simp add: heap_defs x_def)
  have ok2: "hheap_ok ?h2"
  proof (rule hheap_okI)
    show "lheap_ok ?h2" using hheap_ok_lheap [OF ok] unfolding lheap_ok_def by (auto intro: trans_less_add1)
    fix q
    show "0 < q \<and> q < brk ?h2" if "hnodes ?h2 q = Some y" for y
      using that hheap_ok_below(1) [OF ok, of q y] b by (simp split: if_splits)
    show "0 < q \<and> q < brk ?h2" if "tables ?h2 q = Some y" for y
      using that hheap_ok_below(2) [OF ok, of q y] by simp
    show "0 < q \<and> q < brk ?h2" if "arrs ?h2 q = Some y" for y
      using that hheap_ok_below(3) [OF ok, of q y] by simp
  qed
  have tb2: "table_at ?h2 t hash_f comp_f n a bs (length (concat B))" using tb by (simp add: table_at_def)
  have bk2: "buckets ?h2 comp_f ([] @ bs) ([] @ As) ([] @ B)" using bk by simp
  have p2: "key (ht_heap.more ?h2) p = Some k" using p by simp
  have len0: "length ([] :: ptr set list) = length ([] :: ptr list)"
      "length ([] :: ptr list list) = length ([] :: ptr list)" by simp_all
  note ki = key_index_eval [OF tb2 p2]
  have n: "length bs = n" "length B = n" "n * 3 < 2 ^ 32"
    using tb buckets_length [OF bk] by (auto simp: table_at_def)
  have i: "kidx k n < length B" using ki(2) n by simp
  have len: "length (B ! kidx k n) < length (concat B) + 1"
    using i by (simp add: length_concat member_le_sum_list less_Suc_eq_le)
  have m: "Suc (length (concat B)) < 2 ^ 32" using room n(3) by simp
  have dn: "brk h \<noteq> NULL" using b by simp
  have old: "nkey ?h2 d = nkey h d" if "d \<in> set (concat B)" for d
    using nkey_upd_fresh [OF _ _ b(2) bspec [OF nkeys_ok_Some [OF nk] that]] by simp
  have new2: "nkey ?h2 (brk h) = Some k" using p by (simp add: nkey_def x_def)
  have "distinct (map (nkey ?h2) (concat B)) \<and> (\<forall>i < length B. \<forall>d \<in> set (B ! i). \<exists>k. nkey ?h2 d = Some k \<and> kidx k n = i)"
  proof
    have "map (nkey ?h2) (concat B) = map (nkey h) (concat B)" using old by (rule map_cong [OF refl])
    then show "distinct (map (nkey ?h2) (concat B))" using nk by (simp only: nkeys_ok_def)
    show "\<forall>i < length B. \<forall>d \<in> set (B ! i). \<exists>k. nkey ?h2 d = Some k \<and> kidx k n = i"
    proof (intro allI impI ballI)
      fix i d assume d: "i < length B" "d \<in> set (B ! i)"
      then have "d \<in> set (concat B)" by auto
      from old [OF this] show "\<exists>k. nkey ?h2 d = Some k \<and> kidx k n = i"
        using nk d unfolding nkeys_ok_def by metis
    qed
  qed
  then have nk2: "nkeys_ok ?h2 n B" unfolding nkeys_ok_def .
  have fresh: "\<forall>d \<in> set (concat B). nkey ?h2 d \<noteq> Some k" using new old by metis
  show thesis
  proof (rule add_steps [OF ok2 _ tb2 bk2 len0 dn m len ki(2)])
    show "never_oom ?h2" using mem by simp
    fix b' h3 h4 h5 h' A'
    assume s: "read_arr a (of_nat (kidx k n)) ?h2 = Some (bs ! kidx k n)"
      "(if bs ! kidx k n = NULL then list_create comp_f ?h2 else Some (bs ! kidx k n, ?h2)) = Some (b', h3)"
      "list_prepend b' (brk h) NODE_FREE h3 = Some (True, h4)" "write_arr a (of_nat (kidx k n)) b' h4 = Some h5"
      "upd_table t (\<lambda>t. t\<lparr>curr_size := curr_size t + 1\<rparr>) h5 = Some h'"
      and a: "hheap_ok h'" "table_at h' t hash_f comp_f n a (bs[kidx k n := b']) (Suc (length (concat B)))"
      "buckets h' comp_f ([] @ bs[kidx k n := b']) ([] @ As[kidx k n := A']) ([] @ B[kidx k n := brk h # B ! kidx k n])"
      "hnodes h' = hnodes ?h2" "ht_heap.more h' = ht_heap.more ?h2" "oom h' = oom ?h2" "brk ?h2 \<le> brk h'"
    let ?B = "B[kidx k n := brk h # B ! kidx k n]"
    have ms: "mset (concat ?B) = mset (brk h # concat B)" by (rule concat_insert_mset [OF i])
    have "nkeys_ok h' n ?B"
      using nkeys_ok_insert [OF nk2 new2 i fresh] nkeys_ok_cong [OF nkey_cong [OF a(4,5)]] by simp
    then have at: "ht_at h' t n a (bs[kidx k n := b']) (As[kidx k n := A']) ?B"
      using a(1-3) mset_eq_length [OF ms] by (simp add: ht_at_def)
    obtain T where T: "tables ?h2 t = Some T" "t_hash_f T = hash_f" "t_comp_f T = comp_f" "t_vals T = a" "capacity T = of_nat n"
      using tb by (auto simp: table_at_def)
    show thesis
      by (rule that [OF c dn b(2) u T ki(1) s at ms]) (use a(4-7) mem in simp_all)
  qed
qed

lemma ht_map_card:
  assumes "nkeys_ok h n B" "\<forall>k d. M k = Some d \<longleftrightarrow> d \<in> set (concat B) \<and> nkey h d = Some k"
  shows "card (dom M) = length (concat B)" "finite (dom M)"
proof -
  have d: "distinct (map (nkey h) (concat B))" using assms(1) unfolding nkeys_ok_def by blast
  then have inj: "inj_on (nkey h) (set (concat B))" and dist: "distinct (concat B)" by (simp_all only: distinct_map)
  have "Some ` dom M = nkey h ` set (concat B)"
  proof (intro equalityI subsetI)
    fix v assume "v \<in> Some ` dom M"
    then obtain k d where "v = Some k" "M k = Some d" by blast
    then show "v \<in> nkey h ` set (concat B)" using assms(2) by (metis imageI)
  next
    fix v assume "v \<in> nkey h ` set (concat B)"
    then obtain d where d: "d \<in> set (concat B)" "v = nkey h d" by blast
    then obtain k where "nkey h d = Some k" using nkeys_ok_Some [OF assms(1)] by blast
    then have "M k = Some d" "v = Some k" using assms(2) d by auto
    then show "v \<in> Some ` dom M" by blast
  qed
  then have c: "card (dom M) = card (nkey h ` set (concat B))" and f: "finite (Some ` dom M)"
    by (metis card_image inj_Some, metis List.finite_set finite_imageI)
  show "card (dom M) = length (concat B)" unfolding c card_image [OF inj] by (rule distinct_card [OF dist])
  show "finite (dom M)" using f by (rule finite_imageD) simp
qed

lemma ht_map_finite: "ht_map h t M \<Longrightarrow> finite (dom M)"
proof -
  assume "ht_map h t M"
  then obtain n a bs As B where 1: "ht_at h t n a bs As B"
      "\<forall>k d. M k = Some d \<longleftrightarrow> d \<in> set (concat B) \<and> nkey h d = Some k" by (rule ht_mapE)
  then have "nkeys_ok h n B" unfolding ht_at_def by (elim conjE)
  from ht_map_card(2) [OF this 1(2)] show ?thesis .
qed

lemma htable_insert_spec:
  assumes ht: "ht_map h t M" and mem: "never_oom h" and p: "key (ht_heap.more h) p = Some k" and v: "v \<noteq> NULL"
    and cap: "\<exists>T. tables h t = Some T \<and> unat (capacity T) * 6 < 2 ^ 32"
  shows "if M k \<noteq> None then htable_insert call_hash call_cmp call_free t p v f h = Some (False, t, h)
     else \<exists>t' h' d. htable_insert call_hash call_cmp call_free t p v f h = Some (True, t', h')
       \<and> hnodes h d = None \<and> hnodes h' = (hnodes h)(d \<mapsto> \<lparr>h_key = p, h_value = v, h_free = f\<rparr>)
       \<and> ht_map h' t' (M(k \<mapsto> d)) \<and> ht_heap.more h' = ht_heap.more h \<and> never_oom h'
       \<and> brk h \<le> brk h'
       \<and> (\<exists>T T'. tables h t = Some T \<and> tables h' t' = Some T' \<and> (capacity T' = capacity T
             \<or> unat (capacity T') = 2 * unat (capacity T) \<and> unat (capacity T) * 3 div 4 = card (dom M)))"
proof -
  obtain n a bs As B where 1: "ht_at h t n a bs As B" "length (concat B) \<le> n * 3 div 4" "length (concat B) < 2 ^ 31"
      "\<forall>k d. M k = Some d \<longleftrightarrow> d \<in> set (concat B) \<and> nkey h d = Some k"
    by (rule ht_mapE [OF ht])
  have ok: "hheap_ok h" and tb: "table_at h t hash_f comp_f n a bs (length (concat B))" and nk: "nkeys_ok h n B"
    using 1(1) by (auto simp: ht_at_def)
  have tn: "t \<noteq> NULL" and pn: "p \<noteq> NULL" using table_at_nonnull [OF ok tb] key_nonnull [OF p] by auto
  note find = htable_find_spec [OF ht p]
  obtain T where T: "tables h t = Some T" "max_size T = of_nat (n * 3 div 4)" "curr_size T = of_nat (length (concat B))"
      "capacity T = of_nat n" using tb by (auto simp: table_at_def)
  have n: "2 \<le> n" "n * 3 < 2 ^ 32" using tb by (auto simp: table_at_def)
  then have un: "unat (of_nat n :: 32 word) = n" by (simp add: unat_of_nat_32)
  then have n6: "n * 6 < 2 ^ 32" using cap T(1,4) by auto
  have dnn: "d \<noteq> NULL" if "M k = Some d" for d
    using that 1(4) nkey_nonnull [OF ok] by blast
  show ?thesis
  proof (cases "M k")
    case (Some d)
    then show ?thesis using find dnn tn pn v by (simp add: htable_insert_def)
  next
    case None
    have "\<exists>t1 h1 a1 bs1 As1 B1 n1.
        (if max_size T < curr_size T + 1 then do {
               (p_new, _, h) \<leftarrow> htable_rehash call_hash call_free t h;
               Some (p_new, h)
             } else Some (t, h)) = Some (t1, h1)
        \<and> t1 \<noteq> NULL \<and> ht_at h1 t1 n1 a1 bs1 As1 B1 \<and> mset (concat B1) = mset (concat B)
        \<and> hnodes h1 = hnodes h \<and> ht_heap.more h1 = ht_heap.more h \<and> never_oom h1 \<and> brk h \<le> brk h1
        \<and> Suc (length (concat B1)) \<le> n1 * 3 div 4
        \<and> (n1 = n \<or> n1 = n * 2 \<and> n * 3 div 4 = length (concat B))"
    proof (cases "length (concat B) = n * 3 div 4")
      case True
      have "max_size T < curr_size T + 1"
        using T(2,3) True of_nat_32_less [of "n * 3 div 4" "Suc (n * 3 div 4)"] n(2) by (simp add: add.commute)
      moreover obtain t1 h1 a1 bs1 As1 B1 where r: "htable_rehash call_hash call_free t h = Some (t1, NULL, h1)"
        "t1 \<noteq> NULL" "ht_at h1 t1 (n * 2) a1 bs1 As1 B1" "mset (concat B1) = mset (concat B)"
        "hnodes h1 = hnodes h" "ht_heap.more h1 = ht_heap.more h" "never_oom h1" "brk h \<le> brk h1"
        using htable_rehash_spec [OF 1(1) mem True n6] by blast
      moreover have "Suc (length (concat B1)) \<le> n * 2 * 3 div 4"
        using mset_eq_length [OF r(4)] True n(1) by simp
      ultimately show ?thesis
        by (intro exI [of _ t1] exI [of _ h1] exI [of _ a1] exI [of _ bs1] exI [of _ As1] exI [of _ B1] exI [of _ "n * 2"]) (simp add: True)
    next
      case False
      have "\<not> max_size T < curr_size T + 1"
        using T(2,3) False 1(2) of_nat_32_less [of "n * 3 div 4" "Suc (length (concat B))"] n(2) by (simp add: add.commute)
      then show ?thesis using 1(1,2) False tn mem
        by (intro exI [of _ t] exI [of _ h] exI [of _ a] exI [of _ bs] exI [of _ As] exI [of _ B] exI [of _ n]) simp
    qed
    then obtain t1 h1 a1 bs1 As1 B1 n1 where r:
        "(if max_size T < curr_size T + 1 then do {
               (p_new, _, h) \<leftarrow> htable_rehash call_hash call_free t h;
               Some (p_new, h)
             } else Some (t, h)) = Some (t1, h1)"
        "t1 \<noteq> NULL" "ht_at h1 t1 n1 a1 bs1 As1 B1" "mset (concat B1) = mset (concat B)"
        "hnodes h1 = hnodes h" "ht_heap.more h1 = ht_heap.more h" "never_oom h1"
        "Suc (length (concat B1)) \<le> n1 * 3 div 4" "brk h \<le> brk h1"
        "n1 = n \<or> n1 = n * 2 \<and> n * 3 div 4 = length (concat B)" by blast
    have nk1: "nkey h1 = nkey h" by (rule nkey_cong [OF r(5,6)])
    have set1: "set (concat B1) = set (concat B)" using r(4) by (rule mset_eq_setD)
    have p1: "key (ht_heap.more h1) p = Some k" using p r(6) by simp
    have new: "\<forall>d \<in> set (concat B1). nkey h1 d \<noteq> Some k"
      unfolding set1 nk1 using 1(4) None by (metis option.distinct(1))
    show ?thesis
    proof (rule insert_steps [OF r(3,7) p1 new r(8), where v = v and f = f])
      fix h2 h3 b' h4 h5 h6 h' bs' As' B' T1
      assume s: "calloc_hnode h1 = (brk h1, h2)" "brk h1 \<noteq> NULL" "hnodes h1 (brk h1) = None"
        "upd_hnode (brk h1) (\<lambda>n. n\<lparr>h_key := p, h_value := v, h_free := f\<rparr>) h2 = Some h3"
        "tables h3 t1 = Some T1" "t_hash_f T1 = hash_f" "t_comp_f T1 = comp_f" "t_vals T1 = a1" "capacity T1 = of_nat n1"
        "key_index call_hash hash_f p (of_nat n1) h3 = Some (of_nat (kidx k n1))"
        "read_arr a1 (of_nat (kidx k n1)) h3 = Some (bs1 ! kidx k n1)"
        "(if bs1 ! kidx k n1 = NULL then list_create comp_f h3 else Some (bs1 ! kidx k n1, h3)) = Some (b', h4)"
        "list_prepend b' (brk h1) NODE_FREE h4 = Some (True, h5)" "write_arr a1 (of_nat (kidx k n1)) b' h5 = Some h6"
        "upd_table t1 (\<lambda>t. t\<lparr>curr_size := curr_size t + 1\<rparr>) h6 = Some h'"
        and e: "ht_at h' t1 n1 a1 bs' As' B'" "mset (concat B') = mset (brk h1 # concat B1)"
        "hnodes h' = (hnodes h1)(brk h1 \<mapsto> \<lparr>h_key = p, h_value = v, h_free = f\<rparr>)"
        "ht_heap.more h' = ht_heap.more h1" "never_oom h'" "brk h1 \<le> brk h'"
      have run: "htable_insert call_hash call_cmp call_free t p v f h = Some (True, t1, h')"
        using find None tn pn v T(1) r(1,2) s
        by (cases "bs1 ! kidx k n1 = NULL") (simp_all add: htable_insert_def)
      have set': "set (concat B') = insert (brk h1) (set (concat B))"
        using mset_eq_setD [OF e(2)] set1 by simp
      have fk: "nkey h' (brk h1) = Some k" using e(3,4) p1 by (simp add: nkey_def)
      have old: "nkey h' d = nkey h d" if "d \<in> set (concat B)" for d
        using nkey_upd_fresh [OF _ _ _ bspec [OF nkeys_ok_Some [OF nk] that], of h'] s(3) e(3,4) r(5,6) by simp
      have M': "\<forall>k d. M k = Some d \<longleftrightarrow> d \<in> set (concat B) \<and> nkey h' d = Some k" using 1(4) old by metis
      have "(M(k \<mapsto> brk h1)) k' = Some d \<longleftrightarrow> d \<in> set (concat B') \<and> nkey h' d = Some k'" for k' d
        unfolding set' by (rule key_map_insert [OF M' None fk])
      moreover have "length (concat B') \<le> n1 * 3 div 4" using mset_eq_length [OF e(2)] r(8) by simp
      ultimately have "ht_map h' t1 (M(k \<mapsto> brk h1))" using e(1) unfolding ht_map_def by blast
      moreover have "\<exists>T T'. tables h t = Some T \<and> tables h' t1 = Some T' \<and> (capacity T' = capacity T
             \<or> unat (capacity T') = 2 * unat (capacity T) \<and> unat (capacity T) * 3 div 4 = card (dom M))"
      proof -
        obtain T' where "tables h' t1 = Some T'" "capacity T' = of_nat n1"
          using e(1) by (auto simp: ht_at_def table_at_def)
        moreover have "unat (of_nat (n * 2) :: 32 word) = n * 2" using n6 by (simp add: unat_of_nat_32 del: of_nat_mult)
        ultimately have "tables h' t1 = Some T' \<and> (capacity T' = capacity T
             \<or> unat (capacity T') = 2 * unat (capacity T) \<and> unat (capacity T) * 3 div 4 = card (dom M))"
          using r(10) unfolding T(4) un ht_map_card(1) [OF nk 1(4)] by (elim disjE conjE) (simp_all add: un)
        then show ?thesis using T(1) by (intro exI [of _ T] exI [of _ T']) simp
      qed
      ultimately show ?thesis using run None s(3) e(3-6) r(5,6,9) by auto
    qed
  qed
qed

end

end
