(* ===== verification/HTableSilent.thy ===== *)
theory HTableSilent
  imports HTableInsert
begin

text \<open>
  What \<open>htable_insert\<close> does when the list of a new bucket cannot be allocated: it ignores the
  results of \<open>list_create\<close> and \<open>list_prepend\<close>.
\<close>

context key_contract
begin

lemma htable_insert_silent:
  assumes ht: "ht_at h t n a bs As B" and p: "key (ht_heap.more h) p = Some k" and v: "v \<noteq> NULL"
    and new: "\<forall>d \<in> set (concat B). nkey h d \<noteq> Some k" and room: "Suc (length (concat B)) \<le> n * 3 div 4"
    and bucket: "bs ! kidx k n = NULL" and mem: "can_alloc h" "oom h (Suc (allocs h))"
  shows "\<exists>h'. htable_insert call_hash call_cmp call_free t p v f h = Some (True, t, h')
     \<and> htable_find call_hash call_cmp t p h' = Some NULL
     \<and> (\<exists>T'. tables h' t = Some T' \<and> curr_size T' = of_nat (Suc (length (concat B))))"
proof -
  have ok: "hheap_ok h" and tb: "table_at h t hash_f comp_f n a bs (length (concat B))"
    using ht by (auto simp: ht_at_def)
  have tn: "t \<noteq> NULL" and pn: "p \<noteq> NULL" using table_at_nonnull [OF ok tb] key_nonnull [OF p] by auto
  have n: "length bs = n" "n * 3 < 2 ^ 32" "2 \<le> n" using tb by (auto simp: table_at_def)
  have small: "length (concat B) < 2 ^ 31" using room n(2) by simp
  note ki = key_index_eval [OF tb p]
  note b = ht_at_bucket [OF ht p]
  have "B ! kidx k n = []" using b(2) bucket by (simp add: bucket_ok_def)
  then have find: "htable_find call_hash call_cmp t p h = Some NULL"
    using htable_find_at [OF ht p small] by simp
  obtain T where T: "tables h t = Some T" "max_size T = of_nat (n * 3 div 4)" "curr_size T = of_nat (length (concat B))"
      "capacity T = of_nat n" "t_hash_f T = hash_f" "t_comp_f T = comp_f" "t_vals T = a" "arrs h a = Some bs"
    using tb by (auto simp: table_at_def)
  have guard: "\<not> max_size T < curr_size T + 1"
    using T(2,3) room of_nat_32_less [of "n * 3 div 4" "Suc (length (concat B))"] n(2) by (simp add: add.commute)
  let ?x = "\<lparr>h_key = p, h_value = v, h_free = f\<rparr>"
  let ?h2 = "h\<lparr>allocs := Suc (allocs h), brk := brk h + 24, hnodes := (hnodes h)(brk h \<mapsto> ?x)\<rparr>"
  let ?h3 = "h\<lparr>allocs := Suc (Suc (allocs h)), brk := brk h + 24, hnodes := (hnodes h)(brk h \<mapsto> ?x)\<rparr>"
  let ?h' = "?h3\<lparr>arrs := (arrs h)(a \<mapsto> bs), tables := (tables h)(t \<mapsto> T\<lparr>curr_size := curr_size T + 1\<rparr>)\<rparr>"
  have bk: "0 < brk h" using ok by simp
  have kh: "call_hash hash_f p cap h' = Some (hash k cap)" if "cap \<noteq> 0" "ht_heap.more h' = ht_heap.more h" for cap h'
    using key_hash [of h' p k cap] p that by simp
  have nz: "(of_nat n :: 32 word) \<noteq> 0" using of_nat_32_eq_0 [of n] n by simp
  have idx: "key_index call_hash hash_f p (of_nat n) h' = Some (of_nat (kidx k n))"
    if "ht_heap.more h' = ht_heap.more h" for h'
    using kh [OF nz that] nz by (simp add: key_index_def kidx_def)
  have same: "bs[kidx k n := NULL] = bs" using bucket by (metis list_update_id)
  have u: "unat (of_nat (kidx k n) :: 32 word) = kidx k n" by (rule ki(3))
  have create: "list_create comp_f ?h2 = Some (NULL, ?h3)"
    using mem(2) comp_f by (simp add: list_create_def calloc_list_def calloc_def Let_def)
  have "htable_insert call_hash call_cmp call_free t p v f h = Some (True, t, ?h')"
    using find tn pn v T guard bk mem(1) idx u ki(2) n(1) bucket create same
    by (simp add: htable_insert_def calloc_hnode_ok heap_defs list_prepend_def)
  moreover have "htable_find call_hash call_cmp t p ?h' = Some NULL"
    using tn pn T idx u ki(2) n(1) bucket by (simp add: htable_find_def read_arr_def)
  ultimately show ?thesis using T(3) by (intro exI [of _ ?h']) (simp add: add.commute)
qed

end

end
