(* ===== verification/HTableDestroy.thy ===== *)
theory HTableDestroy
  imports HTableSilent
begin

text \<open>
  Destruction of a table. The user's free functions act on the user's part of the heap; then
  calls through the list's function pointers, which reach \<open>node_free\<close>, act on the table's part,
  so the contract of the list's callbacks holds and the lemmas on \<open>list_destroy\<close> apply.
\<close>

abbreviation hwith_more :: "'z hheap \<Rightarrow> 'z \<Rightarrow> 'z hheap" where
  "hwith_more h z \<equiv> ht_heap.more_update (\<lambda>_. z) h"

lemma hwith_more_upd [simp]:
  "hwith_more (h\<lparr>hnodes := m\<rparr>) z = (hwith_more h z)\<lparr>hnodes := m\<rparr>"
  by (rule ht_heap.equality) simp_all

lemma hwith_more_same [simp]: "hwith_more h (ht_heap.more h) = h"
  by (rule ht_heap.equality) simp_all

lemma lists_with_more [simp]:
  "lrep (with_more h e) p c A xs = lrep h p c A xs" "buckets (with_more h e) c bs As B = buckets h c bs As B"
  by (simp_all add: buckets_def bucket_ok_def lrep_def list_at_def)

text \<open>The heap of a client's extension, without lists.\<close>

definition ext_heap :: "'z ht_heap_ext \<Rightarrow> 'z hheap" where
  "ext_heap e = \<lparr>brk = 0, allocs = 0, oom = (\<lambda>_. False), nodes = Map.empty, lists = Map.empty, \<dots> = e\<rparr>"

lemma ext_heap_sel [simp]:
  "hnodes (ext_heap (list_heap.more h)) = hnodes h" "ht_heap.more (ext_heap (list_heap.more h)) = ht_heap.more h"
  "list_heap.more (ext_heap e) = e"
  by (cases h; simp add: ext_heap_def)+

lemma with_more_ext:
  "with_more h (list_heap.more ((hwith_more (ext_heap (list_heap.more h)) z)\<lparr>hnodes := m\<rparr>))
     = (hwith_more h z)\<lparr>hnodes := m\<rparr>"
  by (cases h) (simp add: ext_heap_def)

lemma with_more_ext0:
  "with_more h (list_heap.more (hwith_more (ext_heap (list_heap.more h)) z)) = hwith_more h z"
  by (cases h) (simp add: ext_heap_def)

text \<open>What freeing a sequence of table nodes does to the user's part of the heap.\<close>

primrec free_nodes ::
  "(fptr \<Rightarrow> ptr \<Rightarrow> 'z \<Rightarrow> 'z option) \<Rightarrow> (ptr \<rightharpoonup> htable_node_t) \<Rightarrow> ptr list \<Rightarrow> 'z \<Rightarrow> 'z option" where
  "free_nodes eff hn [] z = Some z"
| "free_nodes eff hn (d # ds) z = (case hn d of None \<Rightarrow> None | Some x \<Rightarrow>
     (if h_free x \<noteq> NULL then eff (h_free x) (h_value x) z else Some z) \<bind> free_nodes eff hn ds)"

lemma free_nodes_append: "free_nodes eff hn (xs @ ys) z = free_nodes eff hn xs z \<bind> free_nodes eff hn ys"
  by (induction xs arbitrary: z) (auto split: option.splits Option.bind_split)

lemma free_nodes_cong:
  "(\<And>d. d \<in> set ds \<Longrightarrow> hn d = hn' d) \<Longrightarrow> free_nodes eff hn ds z = free_nodes eff hn' ds z"
proof (induction ds arbitrary: z)
  case (Cons d ds)
  then have "free_nodes eff hn ds = free_nodes eff hn' ds" by (auto simp: fun_eq_iff)
  then show ?case using Cons.prems by (cases "hn d") simp_all
qed simp

lemma free_nodes_mapped: "free_nodes eff hn ds z = Some z' \<Longrightarrow> d \<in> set ds \<Longrightarrow> hn d \<noteq> None"
proof (induction ds arbitrary: z)
  case (Cons e es)
  then show ?case by (cases "d = e") (auto split: option.splits Option.bind_splits)
qed simp

locale user_free =
  fixes call_free :: "'z hfree_call"
    and eff :: "fptr \<Rightarrow> ptr \<Rightarrow> 'z \<Rightarrow> 'z option"
  assumes user_local: "call_free f d h = map_option (hwith_more h) (eff f d (ht_heap.more h))"
begin

definition ext_eff :: "fptr \<Rightarrow> ptr \<Rightarrow> 'z ht_heap_ext \<Rightarrow> 'z ht_heap_ext option" where
  "ext_eff f d e = map_option list_heap.more (dispatch_free call_free f d (ext_heap e))"

lemma node_free_eval:
  "hnodes h d = Some x \<Longrightarrow> node_free call_free d h
     = map_option (\<lambda>z. (hwith_more h z)\<lparr>hnodes := if d = NULL then hnodes h else (hnodes h)(d := None)\<rparr>)
         (if h_free x \<noteq> NULL then eff (h_free x) (h_value x) (ht_heap.more h) else Some (ht_heap.more h))"
  by (cases "eff (h_free x) (h_value x) (ht_heap.more h)")
    (simp_all add: node_free_def user_local heap_defs)

sublocale lists: free_contract "dispatch_free call_free" ext_eff
proof
  fix f d :: nat and h :: "'z hheap"
  assume "f \<noteq> NULL"
  show "dispatch_free call_free f d h = map_option (with_more h) (ext_eff f d (list_heap.more h))"
  proof (cases "f = NODE_FREE")
    case False
    then show ?thesis
      by (simp add: dispatch_free_def ext_eff_def user_local option.map_comp o_def with_more_ext0)
  next
    case True
    show ?thesis
    proof (cases "hnodes h d")
      case None
      then show ?thesis using True by (simp add: dispatch_free_def ext_eff_def node_free_def)
    next
      case (Some x)
      then show ?thesis using True node_free_eval [of h d x] node_free_eval [of "ext_heap (list_heap.more h)" d x]
        by (simp add: dispatch_free_def ext_eff_def option.map_comp o_def with_more_ext)
    qed
  qed
qed

text \<open>The effect of the list callback on the nodes of a bucket.\<close>

lemma free_bucket:
  assumes "free_nodes eff (hnodes h) ds (ht_heap.more h) = Some z" "distinct ds" "NULL \<notin> set ds"
  shows "free_all ext_eff (bitems ds) (list_heap.more h)
     = Some (list_heap.more ((hwith_more h z)\<lparr>hnodes := hnodes h |` (- set ds)\<rparr>))"
  using assms
proof (induction ds arbitrary: h)
  case Nil
  then have z: "z = ht_heap.more h" by simp
  show ?case unfolding z by (simp add: restrict_map_def)
next
  case (Cons d ds)
  obtain x z1 where x: "hnodes h d = Some x"
    "(if h_free x \<noteq> NULL then eff (h_free x) (h_value x) (ht_heap.more h) else Some (ht_heap.more h)) = Some z1"
    "free_nodes eff (hnodes h) ds z1 = Some z"
    using Cons.prems(1) by (auto split: option.splits simp: bind_eq_Some_conv)
  let ?h = "(hwith_more h z1)\<lparr>hnodes := (hnodes h)(d := None)\<rparr>"
  have "dispatch_free call_free NODE_FREE d h = Some ?h"
    using node_free_eval [OF x(1)] x(2) Cons.prems(3) by (simp add: dispatch_free_def)
  then have e: "ext_eff NODE_FREE d (list_heap.more h) = Some (list_heap.more ?h)"
  proof -
    have nz: "NODE_FREE \<noteq> NULL" by (simp add: NODE_FREE_def)
    have "Some ?h = map_option (with_more h) (ext_eff NODE_FREE d (list_heap.more h))"
      by (rule trans [OF _ lists.free_local [OF nz]])
        (rule \<open>dispatch_free call_free NODE_FREE d h = Some ?h\<close> [symmetric])
    then obtain y where y: "ext_eff NODE_FREE d (list_heap.more h) = Some y" "?h = with_more h y"
      by (cases "ext_eff NODE_FREE d (list_heap.more h)") auto
    have "list_heap.more (with_more h y) = y" by simp
    with y show ?thesis by simp
  qed
  have "free_nodes eff (hnodes ?h) ds z1 = free_nodes eff (hnodes h) ds z1"
    by (rule free_nodes_cong) (use Cons.prems(2) in auto)
  then have fn: "free_nodes eff (hnodes ?h) ds (ht_heap.more ?h) = Some z" using x(3) by simp
  have "free_all ext_eff (bitems ds) (list_heap.more ?h)
     = Some (list_heap.more ((hwith_more ?h z)\<lparr>hnodes := hnodes ?h |` (- set ds)\<rparr>))"
    by (rule Cons.IH [OF fn]) (use Cons.prems(2,3) in simp_all)
  then show ?case using e Cons.prems(2) by (simp add: NODE_FREE_def Compl_insert)
qed

text \<open>The loop of \<open>htable_destroy_items\<close> over the remaining buckets.\<close>

lemma destroy_items_loop_spec:
  assumes "buckets h c bo Ao Bo" "lheap_ok h" "tables h t = Some T" "t_vals T = a"
    and "arrs h a = Some (replicate j NULL @ bo)" "j + length bo < 2 ^ 32"
    and "free_nodes eff (hnodes h) (concat Bo) (ht_heap.more h) = Some z" "distinct (concat Bo)"
  shows "\<exists>h'. destroy_items_loop call_free (length bo) t (of_nat j) h = Some h'
     \<and> tables h' = tables h \<and> arrs h' = (arrs h)(a \<mapsto> replicate (j + length bo) NULL)
     \<and> hnodes h' = hnodes h |` (- set (concat Bo)) \<and> nodes h' = nodes h |` (- \<Union> (set Ao))
     \<and> lists h' = lists h |` (- set bo) \<and> ht_heap.more h' = z \<and> brk h' = brk h \<and> oom h' = oom h"
  using assms
proof (induction bo arbitrary: h j Ao Bo)
  case Nil
  then show ?case using buckets_length [OF Nil.prems(1)] by (auto simp: restrict_map_def)
next
  case (Cons b bo)
  obtain A Ar ds Br where AB: "Ao = A # Ar" "Bo = ds # Br"
    using buckets_length [OF Cons.prems(1)] by (cases Ao; cases Bo) auto
  have bk: "buckets h c bo Ar Br" using buckets_Cons [OF Cons.prems(1)] AB by simp
  have bd: "bucket_ok h c b A ds" using buckets_nth [OF Cons.prems(1), of 0] AB by simp
  obtain z1 where z1: "free_nodes eff (hnodes h) ds (ht_heap.more h) = Some z1"
      "free_nodes eff (hnodes h) (concat Br) z1 = Some z"
    using Cons.prems(7) AB by (auto simp: free_nodes_append bind_eq_Some_conv)
  have uj: "unat (of_nat j :: 32 word) = j" using Cons.prems(6) by (simp add: unat_of_nat_32)
  have read: "read_arr a (of_nat j) h = Some b" using Cons.prems(5) uj by (simp add: read_arr_def nth_append)
  have "\<exists>h1. (\<exists>r. list_destroy (dispatch_free call_free) b h = Some (r, NULL, h1)) \<and> lheap_ok h1
     \<and> nodes h1 = nodes h |` (- A) \<and> lists h1 = lists h |` (- {b})
     \<and> hnodes h1 = hnodes h |` (- set ds) \<and> tables h1 = tables h \<and> arrs h1 = arrs h
     \<and> ht_heap.more h1 = z1 \<and> brk h1 = brk h \<and> oom h1 = oom h"
  proof (cases "b = NULL")
    case True
    then have "A = {}" "ds = []" using bd by (auto simp: bucket_ok_def)
    moreover have "lists h |` (- {b}) = lists h"
      using True lheap_ok_NULL(2) [OF Cons.prems(2)] by (auto simp: restrict_map_def fun_eq_iff)
    ultimately show ?thesis using True z1(1) Cons.prems(2)
      by (intro exI [of _ h] conjI exI [of _ False]) (simp_all add: list_destroy_def restrict_map_def)
  next
    case False
    have rep: "lrep h b c A (bitems ds)" using bd False by (simp add: bucket_ok_def)
    have ds: "distinct ds" "NULL \<notin> set ds" using Cons.prems(8) AB bucket_ok_nodes [OF bd] by auto
    let ?X = "(hwith_more h z1)\<lparr>hnodes := hnodes h |` (- set ds)\<rparr>"
    obtain h0 where h0: "list_destroy (dispatch_free call_free) b h
        = map_option (\<lambda>z. (True, NULL, with_more h0 z)) (free_all ext_eff (bitems ds) (list_heap.more h))"
      "nodes h0 = nodes h |` (- A)" "lists h0 = (lists h)(b := None)" "brk h0 = brk h" "oom h0 = oom h"
      "\<forall>z. lheap_ok (with_more h0 z)"
      using lists.list_destroy_spec [OF Cons.prems(2) rep] by blast
    let ?h1 = "with_more h0 (list_heap.more ?X)"
    have "list_destroy (dispatch_free call_free) b h = Some (True, NULL, ?h1)"
      using h0(1) free_bucket [OF z1(1) ds] by simp
    moreover have "hnodes ?h1 = hnodes ?X \<and> tables ?h1 = tables ?X \<and> arrs ?h1 = arrs ?X
        \<and> ht_heap.more ?h1 = ht_heap.more ?X" by (rule ht_more_eq) simp
    moreover have "lists h |` (- {b}) = (lists h)(b := None)" by (auto simp: restrict_map_def)
    ultimately show ?thesis using h0(2-6) by (intro exI [of _ ?h1] conjI exI [of _ True]) simp_all
  qed
  then obtain h1 r where h1: "list_destroy (dispatch_free call_free) b h = Some (r, NULL, h1)" "lheap_ok h1"
     "nodes h1 = nodes h |` (- A)" "lists h1 = lists h |` (- {b})" "hnodes h1 = hnodes h |` (- set ds)"
     "tables h1 = tables h" "arrs h1 = arrs h" "ht_heap.more h1 = z1" "brk h1 = brk h" "oom h1 = oom h" by blast
  let ?h2 = "h1\<lparr>arrs := (arrs h1)(a \<mapsto> replicate (Suc j) NULL @ bo)\<rparr>"
  have upd: "(replicate j NULL @ b # bo)[j := NULL] = replicate (Suc j) NULL @ bo"
    by (simp add: list_update_append replicate_append_same [symmetric])
  have w: "write_arr a (of_nat j) NULL h1 = Some ?h2"
    using Cons.prems(5) h1(7) uj upd by (simp add: write_arr_def)
  have bk1: "buckets h1 c bo Ar Br"
  proof -
    let ?h' = "with_more h1 (list_heap.more h)"
    have fr: "lframe h ?h' {b} A" using h1(3,4,9,10) by (simp add: lframe_def)
    have sep: "Ar ! i \<inter> A = {} \<and> (bo ! i = NULL \<or> bo ! i \<notin> {b})" if "i < length bo" for i
    proof -
      have "Suc i < length (b # bo)" "0 < length (b # bo)" "Suc i \<noteq> 0" using that by simp_all
      then have "Ao ! Suc i \<inter> Ao ! 0 = {} \<and> ((b # bo) ! Suc i \<noteq> NULL \<longrightarrow> (b # bo) ! Suc i \<noteq> (b # bo) ! 0)"
        using Cons.prems(1) unfolding buckets_def by blast
      then show ?thesis using AB by auto
    qed
    have "buckets ?h' c bo Ar Br"
      by (rule buckets_frame [OF bk Cons.prems(2) fr]) (use sep in auto)
    then show ?thesis by simp
  qed
  have "distinct (concat Br)" "set ds \<inter> set (concat Br) = {}" using Cons.prems(8) AB by auto
  then have "free_nodes eff (hnodes h1) (concat Br) z1 = free_nodes eff (hnodes h) (concat Br) z1"
    unfolding h1(5) by (intro free_nodes_cong) (auto simp: restrict_map_def)
  then have fn: "free_nodes eff (hnodes ?h2) (concat Br) (ht_heap.more ?h2) = Some z"
    using z1(2) h1(8) by simp
  have ex: "\<exists>h'. destroy_items_loop call_free (length bo) t (of_nat (Suc j)) ?h2 = Some h'
     \<and> tables h' = tables ?h2 \<and> arrs h' = (arrs ?h2)(a \<mapsto> replicate (Suc j + length bo) NULL)
     \<and> hnodes h' = hnodes ?h2 |` (- set (concat Br)) \<and> nodes h' = nodes ?h2 |` (- \<Union> (set Ar))
     \<and> lists h' = lists ?h2 |` (- set bo) \<and> ht_heap.more h' = z \<and> brk h' = brk ?h2 \<and> oom h' = oom ?h2"
  proof (rule Cons.IH)
    show "buckets ?h2 c bo Ar Br" using bk1 by simp
    show "lheap_ok ?h2" using h1(2) by (simp add: lheap_ok_def)
    show "free_nodes eff (hnodes ?h2) (concat Br) (ht_heap.more ?h2) = Some z" by (rule fn)
  qed (use Cons.prems(3,4,6) h1(6) \<open>distinct (concat Br)\<close> in simp_all)
  have step: "destroy_items_loop call_free (length (b # bo)) t (of_nat j) h
      = destroy_items_loop call_free (length bo) t (of_nat (Suc j)) ?h2"
    using Cons.prems(3,4) read h1(1) w by (simp add: add.commute)
  have sets: "- A \<inter> - \<Union> (set Ar) = - \<Union> (set Ao)" "- {b} \<inter> - set bo = - set (b # bo)"
      "- set ds \<inter> - set (concat Br) = - set (concat Bo)" using AB by auto
  obtain h' where r: "destroy_items_loop call_free (length bo) t (of_nat (Suc j)) ?h2 = Some h'"
     "tables h' = tables ?h2" "arrs h' = (arrs ?h2)(a \<mapsto> replicate (Suc j + length bo) NULL)"
     "hnodes h' = hnodes ?h2 |` (- set (concat Br))" "nodes h' = nodes ?h2 |` (- \<Union> (set Ar))"
     "lists h' = lists ?h2 |` (- set bo)" "ht_heap.more h' = z" "brk h' = brk ?h2" "oom h' = oom ?h2"
    using ex by blast
  have "hnodes h' = hnodes h |` (- set (concat Bo))" "nodes h' = nodes h |` (- \<Union> (set Ao))"
    "lists h' = lists h |` (- set (b # bo))"
    unfolding r(4-6) sets [symmetric] using h1(3-5) by simp_all
  then show ?case unfolding step using r(1-3,7-9) h1(6,7,9,10) by (intro exI [of _ h'] conjI) simp_all
qed

end

text \<open>Destruction of a table, for functions of both contracts.\<close>

locale owned_table = key_contract call_hash call_cmp hash_f comp_f key hash + user_free call_free eff
  for call_hash :: "'z hash_call" and call_cmp :: "'z hcmp_call" and hash_f comp_f :: fptr
    and key :: "'z \<Rightarrow> ptr \<Rightarrow> 'k option" and hash :: "'k \<Rightarrow> 32 word \<Rightarrow> 32 word"
    and call_free :: "'z hfree_call" and eff :: "fptr \<Rightarrow> ptr \<Rightarrow> 'z \<Rightarrow> 'z option"
begin

lemma htable_destroy_spec:
  assumes ht: "ht_at h t n a bs As B" and fn: "free_nodes eff (hnodes h) (concat B) (ht_heap.more h) = Some z"
  shows "\<exists>h'. htable_destroy call_free t h = Some (True, NULL, h')
     \<and> tables h' = (tables h)(t := None) \<and> arrs h' = (arrs h)(a := None)
     \<and> hnodes h' = hnodes h |` (- set (concat B)) \<and> nodes h' = nodes h |` (- \<Union> (set As))
     \<and> lists h' = lists h |` (- set bs) \<and> ht_heap.more h' = z \<and> brk h' = brk h \<and> oom h' = oom h"
proof -
  have ok: "hheap_ok h" and tb: "table_at h t hash_f comp_f n a bs (length (concat B))"
    and bk: "buckets h comp_f bs As B" and nk: "nkeys_ok h n B" using ht by (auto simp: ht_at_def)
  have tn: "t \<noteq> NULL" "a \<noteq> NULL" using table_at_nonnull [OF ok tb] by auto
  obtain T where T: "tables h t = Some T" "t_vals T = a" "capacity T = of_nat n" "arrs h a = Some bs" "length bs = n"
      "n < 2 ^ 32" using tb by (auto simp: table_at_def)
  have "distinct (map (nkey h) (concat B))" using nk unfolding nkeys_ok_def by blast
  then have dist: "distinct (concat B)" by (simp only: distinct_map)
  have a0: "arrs h a = Some (replicate 0 NULL @ bs)" "0 + length bs < 2 ^ 32" using T by simp_all
  obtain h1 where h1: "destroy_items_loop call_free (length bs) t (of_nat 0) h = Some h1"
     "tables h1 = tables h" "arrs h1 = (arrs h)(a \<mapsto> replicate (0 + length bs) NULL)"
     "hnodes h1 = hnodes h |` (- set (concat B))" "nodes h1 = nodes h |` (- \<Union> (set As))"
     "lists h1 = lists h |` (- set bs)" "ht_heap.more h1 = z" "brk h1 = brk h" "oom h1 = oom h"
    using destroy_items_loop_spec [OF bk hheap_ok_lheap [OF ok] T(1,2) a0 fn dist] by blast
  let ?h = "h1\<lparr>arrs := (arrs h1)(a := None), tables := (tables h1)(t := None)\<rparr>"
  have "htable_destroy call_free t h = Some (True, NULL, ?h)"
    using T tn h1(1-3) by (simp add: htable_destroy_def htable_destroy_items_def heap_defs unat_of_nat_32)
  then show ?thesis using h1 by (intro exI [of _ ?h]) simp
qed

end

end
