(* ===== verification/CString.thy ===== *)
theory CString
  imports CHeap CListSort
begin

text \<open>
  Bytes in memory and the functions of \<open>string.h\<close> that the programs call on them. A byte that is
  not mapped is outside every object, so reading or writing it is undefined (\<open>None\<close>).
\<close>

type_synonym byte = "8 word"
type_synonym mem = "ptr \<rightharpoonup> byte"

section \<open>The library functions\<close>

fun strnlen :: "mem \<Rightarrow> ptr \<Rightarrow> nat \<Rightarrow> nat option" where
  "strnlen m p 0 = Some 0"
| "strnlen m p (Suc n) = do {
     c \<leftarrow> m p;
     if c = 0 then Some 0 else map_option Suc (strnlen m (Suc p) n)
   }"

fun strncmp :: "mem \<Rightarrow> ptr \<Rightarrow> ptr \<Rightarrow> nat \<Rightarrow> int option" where
  "strncmp m p q 0 = Some 0"
| "strncmp m p q (Suc n) = do {
     a \<leftarrow> m p;
     b \<leftarrow> m q;
     if a \<noteq> b then Some (uint a - uint b)
     else if a = 0 then Some 0 else strncmp m (Suc p) (Suc q) n
   }"

definition write_byte :: "mem \<Rightarrow> ptr \<Rightarrow> byte \<Rightarrow> mem option" where
  "write_byte m p c = (case m p of None \<Rightarrow> None | Some _ \<Rightarrow> Some (m(p \<mapsto> c)))"

fun fill_zero :: "mem \<Rightarrow> ptr \<Rightarrow> nat \<Rightarrow> mem option" where
  "fill_zero m p 0 = Some m"
| "fill_zero m p (Suc n) = do {
     m \<leftarrow> write_byte m p 0;
     fill_zero m (Suc p) n
   }"

fun strncpy :: "mem \<Rightarrow> ptr \<Rightarrow> ptr \<Rightarrow> nat \<Rightarrow> mem option" where
  "strncpy m dst src 0 = Some m"
| "strncpy m dst src (Suc n) = do {
     c \<leftarrow> m src;
     m \<leftarrow> write_byte m dst c;
     if c = 0 then fill_zero m (Suc dst) n else strncpy m (Suc dst) (Suc src) n
   }"

text \<open>The string that starts an array, when it ends inside the array.\<close>

definition cstr :: "byte list \<Rightarrow> byte list option" where
  "cstr bs = (if 0 \<in> set bs then Some (takeWhile (\<lambda>c. c \<noteq> 0) bs) else None)"

section \<open>Strings in memory\<close>

text \<open>The string at an address, when its terminator is among the first \<open>n\<close> bytes.\<close>

fun read_str :: "mem \<Rightarrow> ptr \<Rightarrow> nat \<Rightarrow> byte list option" where
  "read_str m p 0 = None"
| "read_str m p (Suc n) = do {
     c \<leftarrow> m p;
     if c = 0 then Some [] else map_option ((#) c) (read_str m (Suc p) n)
   }"

lemma read_str_strnlen: "read_str m p n = Some s \<Longrightarrow> n \<le> k \<Longrightarrow> strnlen m p k = Some (length s)"
proof (induction m p n arbitrary: s k rule: read_str.induct)
  case (2 m p n)
  then show ?case
    by (cases k) (auto simp: bind_eq_Some_conv split: if_splits)
qed simp

lemma read_str_nth: "read_str m p n = Some s \<Longrightarrow> i < length s \<Longrightarrow> m (p + i) = Some (s ! i)"
proof (induction m p n arbitrary: s i rule: read_str.induct)
  case (2 m p n)
  then show ?case by (cases i) (auto simp: bind_eq_Some_conv split: if_splits)
qed simp

lemma read_str_cong: "(\<And>i. i < n \<Longrightarrow> m (p + i) = m' (p + i)) \<Longrightarrow> read_str m p n = read_str m' p n"
proof (induction n arbitrary: p)
  case (Suc n)
  have "read_str m (Suc p) n = read_str m' (Suc p) n"
    using Suc.prems [of "Suc _"] by (intro Suc.IH) simp
  moreover have "m p = m' p" using Suc.prems [of 0] by simp
  ultimately show ?case by (cases "m' p") simp_all
qed simp

lemma read_str_length: "read_str m p n = Some s \<Longrightarrow> length s < n"
  by (induction m p n arbitrary: s rule: read_str.induct)
    (auto simp: bind_eq_Some_conv split: if_splits)

lemma read_str_end: "read_str m p n = Some s \<Longrightarrow> m (p + length s) = Some 0 \<and> 0 \<notin> set s"
  by (induction m p n arbitrary: s rule: read_str.induct)
    (auto simp: bind_eq_Some_conv split: if_splits)

lemma read_strI:
  "(\<And>i. i < length s \<Longrightarrow> m (p + i) = Some (s ! i)) \<Longrightarrow> 0 \<notin> set s \<Longrightarrow> m (p + length s) = Some 0
     \<Longrightarrow> length s < n \<Longrightarrow> read_str m p n = Some s"
proof (induction s arbitrary: p n)
  case Nil
  then show ?case by (cases n) auto
next
  case (Cons c s)
  then obtain k where k: "n = Suc k" by (cases n) auto
  have "read_str m (Suc p) k = Some s"
  proof (rule Cons.IH)
    show "m (Suc p + i) = Some (s ! i)" if "i < length s" for i using Cons.prems(1) [of "Suc i"] that by simp
  qed (use Cons.prems k in auto)
  then show ?case using Cons.prems(1) [of 0] Cons.prems(2) k by auto
qed

text \<open>\<open>strncmp\<close> on strings: the difference of the first bytes that differ, terminators included.\<close>

fun bytes_cmp :: "byte list \<Rightarrow> byte list \<Rightarrow> int" where
  "bytes_cmp [] [] = 0"
| "bytes_cmp [] (b # ys) = - uint b"
| "bytes_cmp (a # xs) [] = uint a"
| "bytes_cmp (a # xs) (b # ys) = 
     (if a \<noteq> b then uint a - uint b else if a = 0 then 0 else bytes_cmp xs ys)"

lemma read_str_Suc:
  "read_str m p (Suc n) = Some s \<longleftrightarrow>
     (\<exists>c. m p = Some c \<and> (if c = 0 then s = [] else \<exists>t. s = c # t \<and> read_str m (Suc p) n = Some t))"
  by (auto simp: bind_eq_Some_conv split: if_splits)

lemma strncmp_bytes:
  "read_str m p n = Some s \<Longrightarrow> read_str m q n = Some s' \<Longrightarrow> strncmp m p q n = Some (bytes_cmp s s')"
proof (induction n arbitrary: p q s s')
  case 0
  then show ?case by simp
next
  case (Suc n)
  obtain a where a: "m p = Some a" "if a = 0 then s = [] else \<exists>t. s = a # t \<and> read_str m (Suc p) n = Some t"
    using Suc.prems(1) unfolding read_str_Suc by blast
  obtain b where b: "m q = Some b" "if b = 0 then s' = [] else \<exists>t. s' = b # t \<and> read_str m (Suc q) n = Some t"
    using Suc.prems(2) unfolding read_str_Suc by blast
  show ?case
  proof (cases "a = 0 \<or> b = 0")
    case True
    then show ?thesis using a b by (cases s; cases s') (auto split: if_splits)
  next
    case False
    then obtain t t' where "s = a # t" "read_str m (Suc p) n = Some t" "s' = b # t'" "read_str m (Suc q) n = Some t'"
      using a(2) b(2) by auto
    then show ?thesis using Suc.IH a(1) b(1) False by simp
  qed
qed

lemma bytes_cmp_eq: "0 \<notin> set s \<Longrightarrow> 0 \<notin> set s' \<Longrightarrow> bytes_cmp s s' = 0 \<longleftrightarrow> s = s'"
  by (induction s s' rule: bytes_cmp.induct) (auto simp: uint_0_iff word_uint_eq_iff [symmetric])

text \<open>\<open>strncmp\<close> is a comparison that a sort may rely on.\<close>

lemma bytes_cmp_flip: "bytes_cmp s t + bytes_cmp t s = 0"
proof (induction s t rule: bytes_cmp.induct)
  case (4 a xs b ys)
  then show ?case by (cases "a = b") simp_all
qed simp_all

lemma bytes_cmp_trans: "bytes_cmp s t \<le> 0 \<Longrightarrow> bytes_cmp t u \<le> 0 \<Longrightarrow> bytes_cmp s u \<le> 0"
proof (induction s u arbitrary: t rule: bytes_cmp.induct)
  case (4 a xs b ys)
  then show ?case by (cases t) (auto split: if_splits simp: word_uint_eq_iff)
next
  case (3 a xs)
  then show ?case by (cases t) (auto split: if_splits simp: word_uint_eq_iff)
qed auto

interpretation names: cmp_order bytes_cmp
proof
  show "bytes_cmp y x \<le> 0" if "0 < bytes_cmp x y" for x y
    using that bytes_cmp_flip [of x y] by simp
  show "bytes_cmp x z \<le> 0" if "bytes_cmp x y \<le> 0" "bytes_cmp y z \<le> 0" for x y z
    using that by (rule bytes_cmp_trans)
qed

section \<open>Copying a string\<close>

lemma write_byte_Some: "m p = Some x \<Longrightarrow> write_byte m p c = Some (m(p \<mapsto> c))"
  by (simp add: write_byte_def)

lemma fill_zero_spec:
  assumes "\<And>i. i < n \<Longrightarrow> m (p + i) \<noteq> None"
  shows "fill_zero m p n = Some (\<lambda>a. if p \<le> a \<and> a < p + n then Some 0 else m a)"
  using assms
proof (induction n arbitrary: m p)
  case 0
  then show ?case by (auto simp: fun_eq_iff)
next
  case (Suc n)
  obtain x where x: "m p = Some x" using Suc.prems [of 0] by auto
  have "(m(p \<mapsto> 0)) (Suc p + i) \<noteq> None" if "i < n" for i
    using Suc.prems [of "Suc i"] that by simp
  then have "fill_zero (m(p \<mapsto> 0)) (Suc p) n
      = Some (\<lambda>a. if Suc p \<le> a \<and> a < Suc p + n then Some 0 else (m(p \<mapsto> 0)) a)"
    by (rule Suc.IH)
  then show ?case using x by (auto simp: write_byte_Some fun_eq_iff)
qed

text \<open>
  \<open>strncpy\<close> writes the string, up to \<open>n\<close> bytes of it, and pads with zeros up to \<open>n\<close> bytes.
\<close>

definition overlay :: "mem \<Rightarrow> ptr \<Rightarrow> nat \<Rightarrow> byte list \<Rightarrow> mem" where
  "overlay m dst n s = (\<lambda>a. if dst \<le> a \<and> a < dst + n
     then Some (if a - dst < length s then s ! (a - dst) else 0) else m a)"

lemma overlay_other: "p + k \<le> dst \<or> dst + n \<le> p \<Longrightarrow> i < k \<Longrightarrow> overlay m dst n s (p + i) = m (p + i)"
  by (auto simp: overlay_def)

lemma overlay_dom: "overlay m dst n s a = None \<Longrightarrow> m a = None"
  by (auto simp: overlay_def split: if_splits)

lemma read_overlay_other:
  "p + k \<le> dst \<or> dst + n \<le> p \<Longrightarrow> read_str (overlay m dst n s) p k = read_str m p k"
  by (intro read_str_cong overlay_other)

lemma strncpy_spec:
  assumes "read_str m src k = Some s" "\<And>i. i < n \<Longrightarrow> m (dst + i) \<noteq> None"
    and "src + k \<le> dst \<or> dst + n \<le> src"
  shows "strncpy m dst src n = Some (overlay m dst n s)"
  using assms
proof (induction n arbitrary: m src dst s k)
  case 0
  then show ?case by (auto simp: overlay_def fun_eq_iff)
next
  case (Suc n)
  then obtain k' where k: "k = Suc k'" by (cases k) auto
  obtain c where c: "m src = Some c" "if c = 0 then s = [] else \<exists>t. s = c # t \<and> read_str m (Suc src) k' = Some t"
    using Suc.prems(1) unfolding k read_str_Suc by blast
  obtain x where x: "m dst = Some x" using Suc.prems(2) [of 0] by auto
  let ?m = "m(dst \<mapsto> c)"
  have dst: "?m (Suc dst + i) \<noteq> None" if "i < n" for i using Suc.prems(2) [of "Suc i"] that by simp
  show ?case
  proof (cases "c = 0")
    case True
    then show ?thesis using c x fill_zero_spec [of n ?m "Suc dst", OF dst]
      by (auto simp: write_byte_Some fun_eq_iff overlay_def)
  next
    case False
    then obtain t where t: "s = c # t" "read_str m (Suc src) k' = Some t" using c(2) by auto
    have "read_str ?m (Suc src) k' = read_str m (Suc src) k'"
      using Suc.prems(3) k by (intro read_str_cong) auto
    then have r: "read_str ?m (Suc src) k' = Some t" using t(2) by simp
    have "strncpy ?m (Suc dst) (Suc src) n = Some (overlay ?m (Suc dst) n t)"
      by (rule Suc.IH [OF r dst]) (use Suc.prems(3) k in auto)
    then show ?thesis using c(1) x t(1) False
      by (auto simp: overlay_def write_byte_Some fun_eq_iff nth_Cons' Suc_diff_le split: if_splits)
  qed
qed

lemma read_overlay:
  assumes "0 \<notin> set s" "n \<le> k" "length (take n s) < k"
    and "length s < n \<or> (\<forall>i. n \<le> i \<longrightarrow> i < k \<longrightarrow> m (dst + i) = Some 0)"
  shows "read_str (overlay m dst n s) dst k = Some (take n s)"
proof (rule read_strI)
  show "overlay m dst n s (dst + i) = Some (take n s ! i)" if "i < length (take n s)" for i
    using that by (simp add: overlay_def)
  show "0 \<notin> set (take n s)" using assms(1) by (meson in_set_takeD)
  show "overlay m dst n s (dst + length (take n s)) = Some 0"
    using assms(3,4) by (cases "length s < n") (auto simp: overlay_def min_def)
qed (rule assms(3))

end
