(* ===== verification/Chat.thy ===== *)
theory Chat
  imports HTable CString
begin

text \<open>
  The account handlers of ChatRoom/src/server_client_helper.c on the server's state: the heap of
  the hash table (HTable) extended with the bytes of the packets and of the character arrays
  inside \<open>client_t\<close>, the structs of server.h, and the trace of what is sent and closed.

  The structs are laid out as on x86-64: \<open>client_t\<close> takes 56 bytes with \<open>p_username\<close> at offset 16,
  \<open>p_password\<close> at 26 and \<open>fd\<close> at 52; the packets are packed. A write past \<open>p_password\<close> and its
  one byte of padding hits \<open>fd\<close>; the model has no bytes there, so it is undefined. A local variable
  whose address is taken has an address like a heap object. A mutex is a flag: locking a locked
  mutex in the only running thread never returns, unlocking one that is not locked is undefined.
  Output on the terminal is left out here; the listing of the accounts is in ChatListing.
\<close>

definition CREATE :: byte where "CREATE = 1"
definition LOGIN :: byte where "LOGIN = 2"
definition MSG :: byte where "MSG = 3"
definition DISCONNECT :: byte where "DISCONNECT = 4"
definition DELETE :: byte where "DELETE = 5"
definition UPDATE :: byte where "UPDATE = 6"
definition FILE_UPLOAD :: byte where "FILE_UPLOAD = 7"
definition FILE_DOWNLOAD :: byte where "FILE_DOWNLOAD = 8"
definition INIT :: byte where "INIT = 1"
definition ACKNOWLEDGE :: byte where "ACKNOWLEDGE = 17"
definition FAILURE :: byte where "FAILURE = 255"
definition SERVER_ERROR :: int where "SERVER_ERROR = 6"
definition INVALID_UNAME :: int where "INVALID_UNAME = 7"
definition INVALID_LOGIN :: int where "INVALID_LOGIN = 8"
definition UNAME_MAX :: nat where "UNAME_MAX = 10"
definition PASS_MAX :: nat where "PASS_MAX = 25"

lemmas chat_consts = CREATE_def LOGIN_def MSG_def DISCONNECT_def DELETE_def UPDATE_def FILE_UPLOAD_def
  FILE_DOWNLOAD_def INIT_def ACKNOWLEDGE_def FAILURE_def SERVER_ERROR_def INVALID_UNAME_def
  INVALID_LOGIN_def UNAME_MAX_def PASS_MAX_def

text \<open>The addresses of the callbacks.\<close>

definition HASH_F :: fptr where "HASH_F = 2"
definition COMP_F :: fptr where "COMP_F = 3"
definition CLIENT_FREE :: fptr where "CLIENT_FREE = 4"

section \<open>State\<close>

record client_t =
  session_id :: "64 word"
  p_addr :: ptr
  fd :: int

record conn_data_t =
  conn_objects :: ptr
  conn_addr :: ptr
  conn_fd :: int

record signals_t =
  client_mutex :: bool
  sess_mutex :: bool

record objects_t =
  o_session_id :: "64 word"
  o_signals :: ptr
  o_htable :: ptr

text \<open>The packets the server sends, with the values of their fields.\<close>

datatype packet =
    init_ack (pack_flag: byte) (res_flag: byte) (ack_session: "64 word")
  | update_ack (pack_flag: byte) (res_flag: byte)
  | login_ack (pack_flag: byte) (res_flag: byte) (num_users: byte)
  | failure (pack_flag: byte) (opcode: byte)
  | dir_files (pack_flag: byte) (dir_name_len: byte) (dir_file_name: "byte list")
  | eof (pack_flag: byte)
  | raw (raw_bytes: "byte list")

datatype action = Send int packet | Close int

text \<open>
  What a thread meets at each \<open>recv\<close>: a failure or bytes (none when the peer has closed), and the
  value \<open>gb_run\<close> has until the next \<open>recv\<close>, which a signal may clear. \<open>files\<close> is the file system,
  \<open>can_open\<close> says which names \<open>fopen\<close> accepts for writing, \<open>dir\<close> is what \<open>readdir\<close> lists, or
  \<open>None\<close> when \<open>opendir\<close> fails, and \<open>send_bad n\<close> says whether the send at place \<open>n\<close> of the trace
  fails.
\<close>

datatype recv_result = Fail (running: bool) | Got (running: bool) (got: "byte list")

record chat_state =
  mem :: mem
  clients :: "ptr \<rightharpoonup> client_t"
  conns :: "ptr \<rightharpoonup> conn_data_t"
  objects :: "ptr \<rightharpoonup> objects_t"
  signals :: "ptr \<rightharpoonup> signals_t"
  script :: "recv_result list"
  gb_run :: bool
  trace :: "action list"
  files :: "byte list \<rightharpoonup> byte list"
  can_open :: "byte list \<Rightarrow> bool"
  dir :: "byte list list option"
  send_bad :: "nat \<Rightarrow> bool"

type_synonym server = "chat_state hheap"

abbreviation st :: "server \<Rightarrow> chat_state" where "st \<equiv> ht_heap.more"

definition on_st :: "(chat_state \<Rightarrow> chat_state option) \<Rightarrow> server \<Rightarrow> server option" where
  "on_st f h = map_option (\<lambda>z. ht_heap.more_update (\<lambda>_. z) h) (f (st h))"

definition put :: "action \<Rightarrow> chat_state \<Rightarrow> chat_state" where
  "put a z = z\<lparr>trace := trace z @ [a]\<rparr>"

definition upd_client :: "ptr \<Rightarrow> (client_t \<Rightarrow> client_t) \<Rightarrow> chat_state \<Rightarrow> chat_state option" where
  "upd_client p f z = map_option (\<lambda>m. z\<lparr>clients := m\<rparr>) (modify p f (clients z))"

definition upd_objects :: "ptr \<Rightarrow> (objects_t \<Rightarrow> objects_t) \<Rightarrow> chat_state \<Rightarrow> chat_state option" where
  "upd_objects p f z = map_option (\<lambda>m. z\<lparr>objects := m\<rparr>) (modify p f (objects z))"

definition upd_mem :: "(mem \<Rightarrow> mem option) \<Rightarrow> chat_state \<Rightarrow> chat_state option" where
  "upd_mem f z = map_option (\<lambda>m. z\<lparr>mem := m\<rparr>) (f (mem z))"

text \<open>\<open>calloc(1, sizeof(client_t))\<close>\<close>

definition calloc_client :: "server \<Rightarrow> ptr \<times> server" where
  "calloc_client h =
     (let (p, h) = calloc 56 h
      in if p = NULL then (NULL, h)
         else (p, ht_heap.more_update (\<lambda>_. (st h)\<lparr>
                clients := (clients (st h))(p \<mapsto> \<lparr>session_id = 0, p_addr = NULL, fd = 0\<rparr>),
                mem := (\<lambda>a. if p + 16 \<le> a \<and> a < p + 52 then Some 0 else mem (st h) a)\<rparr>) h))"

section \<open>Mutexes\<close>

definition mutex_lock :: 
  "(signals_t \<Rightarrow> bool) \<Rightarrow> ((bool \<Rightarrow> bool) \<Rightarrow> signals_t \<Rightarrow> signals_t) \<Rightarrow> ptr \<Rightarrow> chat_state \<Rightarrow> chat_state option" where
  "mutex_lock sel upd p_objects z = do {
     objs \<leftarrow> objects z p_objects;
     s \<leftarrow> signals z (o_signals objs);
     if sel s then None else Some (z\<lparr>signals := (signals z)(o_signals objs \<mapsto> upd (\<lambda>_. True) s)\<rparr>)
   }"

definition mutex_unlock :: 
  "(signals_t \<Rightarrow> bool) \<Rightarrow> ((bool \<Rightarrow> bool) \<Rightarrow> signals_t \<Rightarrow> signals_t) \<Rightarrow> ptr \<Rightarrow> chat_state \<Rightarrow> chat_state option" where
  "mutex_unlock sel upd p_objects z = do {
     objs \<leftarrow> objects z p_objects;
     s \<leftarrow> signals z (o_signals objs);
     if sel s then Some (z\<lparr>signals := (signals z)(o_signals objs \<mapsto> upd (\<lambda>_. False) s)\<rparr>) else None
   }"

abbreviation "lock_client \<equiv> mutex_lock client_mutex client_mutex_update"
abbreviation "unlock_client \<equiv> mutex_unlock client_mutex client_mutex_update"
abbreviation "lock_sess \<equiv> mutex_lock sess_mutex sess_mutex_update"
abbreviation "unlock_sess \<equiv> mutex_unlock sess_mutex sess_mutex_update"

section \<open>Callbacks\<close>

partial_function (option) hash_loop :: "mem \<Rightarrow> ptr \<Rightarrow> 32 word \<Rightarrow> 32 word \<Rightarrow> 32 word option" where
  "hash_loop m p_str i hash = do {
     n \<leftarrow> strnlen m p_str 100;
     if unat i < n then do {
       c \<leftarrow> m (p_str + unat i);
       hash_loop m p_str (i + 1) (hash + scast c)
     } else Some hash
   }"

definition hash_f :: "ptr \<Rightarrow> 32 word \<Rightarrow> mem \<Rightarrow> 32 word option" where
  "hash_f p_data sz m = do {
     hash \<leftarrow> hash_loop m p_data 0 0;
     if sz = 0 then None else Some (hash mod sz)
   }"

definition comp_f :: "ptr \<Rightarrow> ptr \<Rightarrow> server \<Rightarrow> int option" where
  "comp_f item1 item2 h = do {
     n \<leftarrow> hnodes h item1;
     strncmp (mem (st h)) (h_key n) item2 UNAME_MAX
   }"

definition client_free :: "ptr \<Rightarrow> chat_state \<Rightarrow> chat_state option" where
  "client_free p_client z =
     (if p_client = NULL then Some z
      else map_option (\<lambda>m. z\<lparr>clients := m,
             mem := (\<lambda>a. if p_client + 16 \<le> a \<and> a < p_client + 52 then None else mem z a)\<rparr>)
           (release p_client (clients z)))"

text \<open>Calls through the table's function pointers.\<close>

definition call_hash :: "chat_state hash_call" where
  "call_hash f p sz h = (if f = HASH_F then hash_f p sz (mem (st h)) else None)"

definition call_cmp :: "chat_state hcmp_call" where
  "call_cmp f a b h = (if f = COMP_F then comp_f a b h else None)"

definition free_eff :: "fptr \<Rightarrow> ptr \<Rightarrow> chat_state \<Rightarrow> chat_state option" where
  "free_eff f p = (if f = CLIENT_FREE then client_free p else (\<lambda>_. None))"

definition call_free :: "chat_state hfree_call" where
  "call_free f p h = on_st (free_eff f p) h"

section \<open>Handlers\<close>

definition send_fail_pack :: "ptr \<Rightarrow> int \<Rightarrow> chat_state \<Rightarrow> chat_state option" where
  "send_fail_pack p_conn code z = do {
     c \<leftarrow> conns z p_conn;
     Some (put (Close (conn_fd c)) (put (Send (conn_fd c) (failure FAILURE (of_int code))) z))
   }"

text \<open>The start of \<open>create_account\<close>: the table is created for the first account.\<close>

definition ensure_htable :: "ptr \<Rightarrow> server \<Rightarrow> server option" where
  "ensure_htable p_objects h = do {
     h \<leftarrow> on_st (lock_client p_objects) h;
     objs \<leftarrow> objects (st h) p_objects;
     let p_htable = o_htable objs;
     h \<leftarrow> on_st (unlock_client p_objects) h;
     if p_htable = NULL then do {
       h \<leftarrow> on_st (lock_client p_objects) h;
       (t, h) \<leftarrow> htable_create HASH_F COMP_F h;
       h \<leftarrow> on_st (upd_objects p_objects (\<lambda>x. x\<lparr>o_htable := t\<rparr>)) h;
       on_st (unlock_client p_objects) h
     } else Some h
   }"

text \<open>
  The fields of a new client. An \<open>init_pack_t\<close> at \<open>pk\<close> has \<open>uname_len\<close> at 1, \<open>uname\<close> at 2,
  \<open>pass_len\<close> at 12 and \<open>password\<close> at 13.
\<close>

definition init_client :: "ptr \<Rightarrow> ptr \<Rightarrow> ptr \<Rightarrow> ptr \<Rightarrow> server \<Rightarrow> server option" where
  "init_client p_conn p_objects pk p_client h = do {
     c \<leftarrow> conns (st h) p_conn;
     h \<leftarrow> on_st (upd_client p_client (\<lambda>x. x\<lparr>fd := conn_fd c, p_addr := conn_addr c\<rparr>)) h;
     h \<leftarrow> on_st (lock_sess p_objects) h;
     h \<leftarrow> on_st (upd_objects p_objects (\<lambda>x. x\<lparr>o_session_id := o_session_id x + 1\<rparr>)) h;
     objs \<leftarrow> objects (st h) p_objects;
     h \<leftarrow> on_st (upd_client p_client (\<lambda>x. x\<lparr>session_id := o_session_id objs\<rparr>)) h;
     h \<leftarrow> on_st (unlock_sess p_objects) h;
     uname_len \<leftarrow> mem (st h) (pk + 1);
     h \<leftarrow> on_st (upd_mem (\<lambda>m. strncpy m (p_client + 16) (pk + 2) (unat uname_len + 1))) h;
     pass_len \<leftarrow> mem (st h) (pk + 12);
     on_st (upd_mem (\<lambda>m. strncpy m (p_client + 26) (pk + 13) (unat pass_len + 1))) h
   }"

definition create_account :: "ptr \<Rightarrow> ptr \<Rightarrow> server \<Rightarrow> server option" where
  "create_account p_conn pk h =
     (if p_conn = NULL then on_st (send_fail_pack p_conn SERVER_ERROR) h
      else do {
        c \<leftarrow> conns (st h) p_conn;
        let p_objects = conn_objects c;
        if p_objects = NULL then on_st (send_fail_pack p_conn SERVER_ERROR) h
        else do {
          h \<leftarrow> ensure_htable p_objects h;
          let (p_client, h) = calloc_client h;
          if p_client = NULL then on_st (send_fail_pack p_conn SERVER_ERROR) h
          else do {
            h \<leftarrow> init_client p_conn p_objects pk p_client h;
            h \<leftarrow> on_st (lock_client p_objects) h;
            objs \<leftarrow> objects (st h) p_objects;
            (insert_ok, t, h) \<leftarrow> htable_insert call_hash call_cmp call_free (o_htable objs)
                 (p_client + 16) p_client CLIENT_FREE h;
            h \<leftarrow> on_st (upd_objects p_objects (\<lambda>x. x\<lparr>o_htable := t\<rparr>)) h;
            if \<not> insert_ok then do {
              h \<leftarrow> on_st (unlock_client p_objects) h;
              h \<leftarrow> on_st (send_fail_pack p_conn SERVER_ERROR) h;
              on_st (client_free p_client) h
            } else do {
              h \<leftarrow> on_st (unlock_client p_objects) h;
              x \<leftarrow> clients (st h) p_client;
              on_st (\<lambda>z. Some (put (Close (fd x))
                (put (Send (fd x) (init_ack INIT ACKNOWLEDGE (session_id x))) z))) h
            }
          }
        }
      })"

text \<open>\<open>any_pack\<close> is read as an \<open>update_pack_t\<close>, which begins like an \<open>init_pack_t\<close>.\<close>

definition verify_client :: "ptr \<Rightarrow> ptr \<Rightarrow> byte \<Rightarrow> server \<Rightarrow> (ptr \<times> server) option" where
  "verify_client p_conn any_pack opt h =
     (if \<not> (CREATE = opt \<or> LOGIN = opt \<or> DELETE = opt \<or> UPDATE = opt) then Some (NULL, h)
      else do {
        c \<leftarrow> conns (st h) p_conn;
        h \<leftarrow> on_st (lock_client (conn_objects c)) h;
        objs \<leftarrow> objects (st h) (conn_objects c);
        p_node \<leftarrow> htable_find call_hash call_cmp (o_htable objs) (any_pack + 2) h;
        h \<leftarrow> on_st (unlock_client (conn_objects c)) h;
        if p_node = NULL then do {
          h \<leftarrow> on_st (send_fail_pack p_conn INVALID_UNAME) h;
          Some (NULL, h)
        } else do {
          n \<leftarrow> hnodes h p_node;
          r \<leftarrow> strncmp (mem (st h)) (any_pack + 13) (h_value n + 26) PASS_MAX;
          if r \<noteq> 0 then do {
            h \<leftarrow> on_st (send_fail_pack p_conn INVALID_LOGIN) h;
            Some (NULL, h)
          } else Some (p_node, h)
        }
      })"

text \<open>\<open>handle_login\<close> goes on with \<open>recv_msgs\<close>, here the continuation \<open>recv_msgs p_conn p_client\<close>.\<close>

definition handle_login :: "(ptr \<Rightarrow> ptr \<Rightarrow> server \<Rightarrow> server option) \<Rightarrow> ptr \<Rightarrow> ptr \<Rightarrow> server \<Rightarrow> server option" where
  "handle_login recv_msgs p_conn pk h =
     (if p_conn = NULL then on_st (send_fail_pack p_conn SERVER_ERROR) h
      else do {
        c \<leftarrow> conns (st h) p_conn;
        let p_objects = conn_objects c;
        if p_objects = NULL then on_st (send_fail_pack p_conn SERVER_ERROR) h
        else do {
          h \<leftarrow> on_st (lock_client p_objects) h;
          objs \<leftarrow> objects (st h) p_objects;
          h \<leftarrow> on_st (unlock_client p_objects) h;
          if o_htable objs = NULL then on_st (send_fail_pack p_conn INVALID_UNAME) h
          else do {
            (p_node, h) \<leftarrow> verify_client p_conn pk LOGIN h;
            if p_node = NULL then Some h
            else do {
              n \<leftarrow> hnodes h p_node;
              let p_client = h_value n;
              if p_client = NULL then Some h
              else do {
                h \<leftarrow> on_st (lock_client p_objects) h;
                objs \<leftarrow> objects (st h) p_objects;
                t \<leftarrow> tables h (o_htable objs);
                let users = ucast (curr_size t);
                h \<leftarrow> on_st (unlock_client p_objects) h;
                r \<leftarrow> strncmp (mem (st h)) (pk + 13) (p_client + 26) PASS_MAX;
                if r \<noteq> 0 then on_st (send_fail_pack p_conn INVALID_LOGIN) h
                else do {
                  h \<leftarrow> on_st (upd_client p_client (\<lambda>x. x\<lparr>fd := conn_fd c\<rparr>)) h;
                  x \<leftarrow> clients (st h) p_client;
                  h \<leftarrow> on_st (\<lambda>z. Some (put (Send (fd x) (login_ack LOGIN ACKNOWLEDGE users)) z)) h;
                  recv_msgs p_conn p_client h
                }
              }
            }
          }
        }
      })"

text \<open>\<open>remove_client\<close> up to its last statement, and the whole.\<close>

definition remove_client_body :: "ptr \<Rightarrow> ptr \<Rightarrow> server \<Rightarrow> (bool \<times> server) option" where
  "remove_client_body p_conn pk h =
     (if p_conn = NULL then do {
        h \<leftarrow> on_st (send_fail_pack p_conn SERVER_ERROR) h;
        Some (False, h)
      } else do {
        (p_node, h) \<leftarrow> verify_client p_conn pk DELETE h;
        if p_node = NULL then Some (False, h)
        else do {
          n \<leftarrow> hnodes h p_node;
          let p_client = h_value n;
          if p_client = NULL then Some (False, h)
          else do {
            c \<leftarrow> conns (st h) p_conn;
            objs \<leftarrow> objects (st h) (conn_objects c);
            (p_node, h) \<leftarrow> htable_remove call_hash call_cmp (o_htable objs) (p_client + 16) h;
            n \<leftarrow> hnodes h p_node;
            h \<leftarrow> (if h_free n \<noteq> NULL then call_free (h_free n) (h_value n) h else Some h);
            h \<leftarrow> free_hnode p_node h;
            Some (True, h)
          }
        }
      })"

definition remove_client :: "ptr \<Rightarrow> ptr \<Rightarrow> server \<Rightarrow> server option" where
  "remove_client p_conn pk h = do {
     (go_on, h) \<leftarrow> remove_client_body p_conn pk h;
     if \<not> go_on then Some h
     else do {
       c \<leftarrow> conns (st h) p_conn;
       on_st (unlock_client (conn_objects c)) h
     }
   }"

text \<open>An \<open>update_pack_t\<close> has \<open>new_pass_len\<close> at 38 and \<open>new_password\<close> at 39.\<close>

definition update_client :: "ptr \<Rightarrow> ptr \<Rightarrow> server \<Rightarrow> server option" where
  "update_client p_conn pk h =
     (if p_conn = NULL then on_st (send_fail_pack p_conn SERVER_ERROR) h
      else do {
        (p_node, h) \<leftarrow> verify_client p_conn pk UPDATE h;
        if p_node = NULL then Some h
        else do {
          n \<leftarrow> hnodes h p_node;
          let p_client = h_value n;
          new_pass_len \<leftarrow> mem (st h) (pk + 38);
          h \<leftarrow> on_st (upd_mem (\<lambda>m. strncpy m (p_client + 26) (pk + 39) (unat new_pass_len + 1))) h;
          c \<leftarrow> conns (st h) p_conn;
          on_st (\<lambda>z. Some (put (Close (conn_fd c)) (put (Send (conn_fd c) (update_ack UPDATE ACKNOWLEDGE)) z))) h
        }
      })"

end
