(* ===== verification/ChatKey.thy ===== *)
theory ChatKey
  imports HTableDestroy Chat
begin

text \<open>
  The server's callbacks meet the contracts of the hash table. A key is the string of fewer than
  \<open>UNAME_MAX\<close> bytes at an address: on longer names \<open>hash_f\<close>, which reads up to 100 bytes, and
  \<open>comp_f\<close>, which reads 10, do not agree on what the key is.
\<close>

definition uname_at :: "chat_state \<Rightarrow> ptr \<Rightarrow> byte list option" where
  "uname_at z p = (if p = NULL then None else read_str (mem z) p UNAME_MAX)"

definition str_hash :: "byte list \<Rightarrow> 32 word" where
  "str_hash s = sum_list (map scast s)"

lemma hash_loop_spec:
  assumes "read_str m p k = Some s" "k \<le> 100" "i \<le> length s"
  shows "hash_loop m p (of_nat i) a = Some (a + sum_list (map scast (drop i s)))"
  using assms
proof (induction "length s - i" arbitrary: i a)
  case 0
  have len: "length s < 100" using read_str_length [OF assms(1)] assms(2) by simp
  have "strnlen m p 100 = Some (length s)" by (rule read_str_strnlen [OF assms(1,2)])
  then show ?case using 0 len by (subst hash_loop.simps) (simp add: unat_of_nat_32)
next
  case (Suc n)
  have len: "length s < 100" using read_str_length [OF assms(1)] assms(2) by simp
  have sl: "strnlen m p 100 = Some (length s)" by (rule read_str_strnlen [OF assms(1,2)])
  have i: "i < length s" using Suc.hyps(2) by simp
  have u: "unat (of_nat i :: 32 word) = i" using i len by (simp add: unat_of_nat_32)
  have "hash_loop m p (of_nat (Suc i)) (a + scast (s ! i))
      = Some (a + scast (s ! i) + sum_list (map scast (drop (Suc i) s)))"
    by (rule Suc.hyps(1)) (use Suc.hyps(2) assms(1,2) in auto)
  then show ?case using sl u i read_str_nth [OF assms(1) i]
    by (subst hash_loop.simps) (simp add: Cons_nth_drop_Suc [symmetric] add.commute add.left_commute)
qed

lemma hash_f_spec:
  "uname_at z p = Some s \<Longrightarrow> sz \<noteq> 0 \<Longrightarrow> hash_f p sz (mem z) = Some (str_hash s mod sz)"
  using hash_loop_spec [of "mem z" p 10 s 0 0]
  by (simp add: uname_at_def UNAME_MAX_def hash_f_def str_hash_def split: if_splits)

lemma uname_at_str: "uname_at z p = Some s \<Longrightarrow> 0 \<notin> set s \<and> length s < UNAME_MAX"
  using read_str_end read_str_length by (fastforce simp: uname_at_def split: if_splits)

interpretation chat: owned_table call_hash call_cmp HASH_F COMP_F uname_at
  "\<lambda>s cap. str_hash s mod cap" call_free free_eff
proof unfold_locales
  show "HASH_F \<noteq> NULL" "COMP_F \<noteq> NULL" by (simp_all add: HASH_F_def COMP_F_def)
  show "uname_at z NULL = None" for z by (simp add: uname_at_def)
  show "call_hash HASH_F p cap h = Some (str_hash k mod cap)"
    if "uname_at (st h) p = Some k" "cap \<noteq> 0" for h p k cap
    using hash_f_spec [OF that] by (simp add: call_hash_def)
  show "\<exists>r. call_cmp COMP_F d p h = Some r \<and> (r = 0 \<longleftrightarrow> k = k')"
    if "hnodes h d = Some x" "uname_at (st h) (h_key x) = Some k" "uname_at (st h) p = Some k'" for h d x k p k'
  proof -
    have "read_str (mem (st h)) (h_key x) UNAME_MAX = Some k" "read_str (mem (st h)) p UNAME_MAX = Some k'"
      using that(2,3) by (auto simp: uname_at_def split: if_splits)
    from strncmp_bytes [OF this] show ?thesis
      using that(1) bytes_cmp_eq [of k k'] uname_at_str [OF that(2)] uname_at_str [OF that(3)]
      by (simp add: call_cmp_def comp_f_def)
  qed
  show "call_free f d h = map_option (hwith_more h) (free_eff f d (st h))" for f d and h :: server
    by (simp add: call_free_def on_st_def)
qed

section \<open>Changes outside the table\<close>

text \<open>
  A change of the client's part of the heap, or growth of the heap, keeps a represented table as
  long as the keys of its nodes keep their strings.
\<close>

definition env_step :: "server \<Rightarrow> server \<Rightarrow> bool" where
  "env_step h h' \<longleftrightarrow> nodes h' = nodes h \<and> lists h' = lists h \<and> hnodes h' = hnodes h \<and> tables h' = tables h
     \<and> arrs h' = arrs h \<and> brk h \<le> brk h' \<and> oom h' = oom h"

lemma env_step_refl [simp]: "env_step h h" and env_step_trans: "env_step h h1 \<Longrightarrow> env_step h1 h2 \<Longrightarrow> env_step h h2"
  by (auto simp: env_step_def)

lemma env_step_on_st: "on_st f h = Some h' \<Longrightarrow> env_step h h'"
  by (auto simp: on_st_def env_step_def)

lemma env_step_hheap_ok: "env_step h h' \<Longrightarrow> hheap_ok h \<Longrightarrow> hheap_ok h'"
  unfolding env_step_def hheap_ok_def lheap_ok_def by (metis less_le_trans)

lemma ht_map_cong:
  assumes same: "nodes h' = nodes h" "lists h' = lists h" "tables h' = tables h" "arrs h' = arrs h" and ok: "hheap_ok h'"
    and ht: "chat.ht_map h t M" and keys: "\<And>k d. M k = Some d \<Longrightarrow> chat.nkey h' d = Some k"
  shows "chat.ht_map h' t M"
proof -
  obtain n a bs As B where 1: "chat.ht_at h t n a bs As B" "length (concat B) \<le> n * 3 div 4"
      "\<forall>k d. M k = Some d \<longleftrightarrow> d \<in> set (concat B) \<and> chat.nkey h d = Some k"
    by (rule chat.ht_mapE [OF ht])
  have nk: "chat.nkeys_ok h n B" using 1(1) unfolding chat.ht_at_def by blast
  have eq: "chat.nkey h' d = chat.nkey h d" if d: "d \<in> set (concat B)" for d
  proof -
    obtain k where "chat.nkey h d = Some k" using chat.nkeys_ok_Some [OF nk] d by blast
    moreover from this have "M k = Some d" using 1(3) d by simp
    ultimately show ?thesis using keys by simp
  qed
  have mp: "map (chat.nkey h') (concat B) = map (chat.nkey h) (concat B)" using eq by (intro map_cong) auto
  have "chat.nkey h' d = chat.nkey h d" if "i < length B" "d \<in> set (B ! i)" for i d
    using that eq by (metis UN_I nth_mem set_concat)
  then have "chat.nkeys_ok h' n B" using nk unfolding chat.nkeys_ok_def mp by simp
  moreover have "buckets h' COMP_F bs As B = buckets h COMP_F bs As B"
    using same by (simp add: buckets_def bucket_ok_def lrep_def list_at_def)
  then have "table_at h' t HASH_F COMP_F n a bs (length (concat B))" "buckets h' COMP_F bs As B"
    using 1(1) same by (simp_all add: chat.ht_at_def table_at_def)
  ultimately have at: "chat.ht_at h' t n a bs As B" unfolding chat.ht_at_def using ok by simp
  moreover have "M k = Some d \<longleftrightarrow> d \<in> set (concat B) \<and> chat.nkey h' d = Some k" for k d
    using 1(3) eq by metis
  ultimately show ?thesis unfolding chat.ht_map_def using 1(2) by blast
qed

lemma ht_map_hheap_ok: "chat.ht_map h t M \<Longrightarrow> hheap_ok h"
  by (erule chat.ht_mapE) (simp add: chat.ht_at_def)

lemma ht_map_nonnull: "chat.ht_map h t M \<Longrightarrow> t \<noteq> NULL"
  by (erule chat.ht_mapE) (auto simp: chat.ht_at_def dest: table_at_nonnull)

lemma ht_map_env:
  assumes env: "env_step h h'" and ht: "chat.ht_map h t M"
    and keys: "\<And>k d. M k = Some d \<Longrightarrow> chat.nkey h' d = Some k"
  shows "chat.ht_map h' t M"
  by (rule ht_map_cong [OF _ _ _ _ env_step_hheap_ok [OF env ht_map_hheap_ok [OF ht]] ht])
    (use env keys in \<open>simp_all add: env_step_def\<close>)

end
