(* ===== verification/ChatRep.thy ===== *)
theory ChatRep
  imports ChatKey
begin

text \<open>
  What the server's state represents: an account database, from user names to passwords. The
  hash table maps each name to a node, the node's value is the address of a \<open>client_t\<close>, its key is
  the address of the name inside that struct, and the struct's password field holds the password.
\<close>

definition pass_at :: "chat_state \<Rightarrow> ptr \<Rightarrow> byte list option" where
  "pass_at z p = read_str (mem z) p PASS_MAX"

text \<open>The objects of the server do not overlap and lie below the next free address.\<close>

definition layout_ok :: "nat \<Rightarrow> chat_state \<Rightarrow> bool" where
  "layout_ok b z \<longleftrightarrow> conns z NULL = None \<and> objects z NULL = None \<and> (\<forall>c. conns z c \<noteq> None \<longrightarrow> c < b)
     \<and> (\<forall>a. mem z a \<noteq> None \<longrightarrow> a < b)
     \<and> (\<forall>c. clients z c \<noteq> None \<longrightarrow> 0 < c \<and> c + 56 \<le> b \<and> (\<forall>i < 36. mem z (c + 16 + i) \<noteq> None))
     \<and> (\<forall>c c'. clients z c \<noteq> None \<longrightarrow> clients z c' \<noteq> None \<longrightarrow> c \<noteq> c' \<longrightarrow> c + 56 \<le> c' \<or> c' + 56 \<le> c)"

lemma layout_okD:
  assumes "layout_ok b z"
  shows "conns z NULL = None" "objects z NULL = None" "mem z a \<noteq> None \<Longrightarrow> a < b"
    "clients z c \<noteq> None \<Longrightarrow> 0 < c" "clients z c \<noteq> None \<Longrightarrow> c + 56 \<le> b"
    "clients z c \<noteq> None \<Longrightarrow> i < 36 \<Longrightarrow> mem z (c + 16 + i) \<noteq> None"
    "clients z c \<noteq> None \<Longrightarrow> clients z c' \<noteq> None \<Longrightarrow> c \<noteq> c' \<Longrightarrow> c + 56 \<le> c' \<or> c' + 56 \<le> c"
    "conns z c \<noteq> None \<Longrightarrow> c < b"
  using assms unfolding layout_ok_def by presburger+

definition server_ok :: "server \<Rightarrow> bool" where
  "server_ok h \<longleftrightarrow> hheap_ok h \<and> never_oom h \<and> layout_ok (brk h) (st h)"

text \<open>A packet of \<open>n\<close> bytes lies outside every \<open>client_t\<close>.\<close>

definition pack_at :: "chat_state \<Rightarrow> ptr \<Rightarrow> nat \<Rightarrow> bool" where
  "pack_at z pk n \<longleftrightarrow> pk \<noteq> NULL \<and> (\<forall>i < n. mem z (pk + i) \<noteq> None)
     \<and> (\<forall>c. clients z c \<noteq> None \<longrightarrow> pk + n \<le> c \<or> c + 56 \<le> pk)"

definition init_pack :: "chat_state \<Rightarrow> ptr \<Rightarrow> byte \<Rightarrow> byte list \<Rightarrow> byte \<Rightarrow> byte list \<Rightarrow> bool" where
  "init_pack z pk ul u pl p \<longleftrightarrow> pack_at z pk 38 \<and> mem z (pk + 1) = Some ul \<and> mem z (pk + 12) = Some pl
     \<and> read_str (mem z) (pk + 2) UNAME_MAX = Some u \<and> read_str (mem z) (pk + 13) PASS_MAX = Some p"

definition update_pack :: 
  "chat_state \<Rightarrow> ptr \<Rightarrow> byte list \<Rightarrow> byte list \<Rightarrow> byte \<Rightarrow> byte list \<Rightarrow> bool" where
  "update_pack z pk u p nl np \<longleftrightarrow> pack_at z pk 64 \<and> mem z (pk + 38) = Some nl
     \<and> read_str (mem z) (pk + 2) UNAME_MAX = Some u \<and> read_str (mem z) (pk + 13) PASS_MAX = Some p
     \<and> read_str (mem z) (pk + 39) PASS_MAX = Some np"

text \<open>A connection whose server has its mutexes free.\<close>

definition conn_ok :: "chat_state \<Rightarrow> ptr \<Rightarrow> int \<Rightarrow> ptr \<Rightarrow> bool" where
  "conn_ok z p_conn f p_objects \<longleftrightarrow> p_conn \<noteq> NULL \<and> p_objects \<noteq> NULL
     \<and> (\<exists>c. conns z p_conn = Some c \<and> conn_objects c = p_objects \<and> conn_fd c = f)
     \<and> (\<exists>objs s. objects z p_objects = Some objs \<and> signals z (o_signals objs) = Some s
          \<and> \<not> client_mutex s \<and> \<not> sess_mutex s)"

text \<open>Node \<open>d\<close> is the account of user \<open>u\<close> with password \<open>p\<close>.\<close>

definition account_at :: "server \<Rightarrow> ptr \<Rightarrow> byte list \<Rightarrow> byte list \<Rightarrow> bool" where
  "account_at h d u p \<longleftrightarrow> (\<exists>c. hnodes h d = Some \<lparr>h_key = c + 16, h_value = c, h_free = CLIENT_FREE\<rparr>
     \<and> clients (st h) c \<noteq> None \<and> uname_at (st h) (c + 16) = Some u \<and> pass_at (st h) (c + 26) = Some p)"

definition accounts_in :: "server \<Rightarrow> ptr \<Rightarrow> (byte list \<rightharpoonup> byte list) \<Rightarrow> (byte list \<rightharpoonup> ptr) \<Rightarrow> bool" where
  "accounts_in h t A M \<longleftrightarrow> chat.ht_map h t M \<and> dom A = dom M
     \<and> (\<forall>u d p. M u = Some d \<longrightarrow> A u = Some p \<longrightarrow> account_at h d u p)"

definition accounts :: "server \<Rightarrow> ptr \<Rightarrow> (byte list \<rightharpoonup> byte list) \<Rightarrow> bool" where
  "accounts h p_objects A \<longleftrightarrow> server_ok h \<and> (\<exists>objs. objects (st h) p_objects = Some objs
     \<and> (if o_htable objs = NULL then A = Map.empty else \<exists>M. accounts_in h (o_htable objs) A M))"

text \<open>The \<open>client_t\<close> of user \<open>u\<close>.\<close>

definition client_of :: "server \<Rightarrow> ptr \<Rightarrow> (byte list \<rightharpoonup> byte list) \<Rightarrow> byte list \<Rightarrow> ptr \<Rightarrow> bool" where
  "client_of h p_objects A u q \<longleftrightarrow> (\<exists>objs M d. objects (st h) p_objects = Some objs \<and> accounts_in h (o_htable objs) A M
     \<and> M u = Some d \<and> hnodes h d = Some \<lparr>h_key = q + 16, h_value = q, h_free = CLIENT_FREE\<rparr>)"

text \<open>The capacity from which the table could not double twice in 32 bits.\<close>

definition cap_room :: "server \<Rightarrow> ptr \<Rightarrow> bool" where
  "cap_room h p_objects \<longleftrightarrow> (\<forall>objs t. objects (st h) p_objects = Some objs \<longrightarrow> tables h (o_htable objs) = Some t
     \<longrightarrow> unat (capacity t) * 6 < 2 ^ 32)"

text \<open>
  As long as nothing is removed the capacity stays in proportion to the number of accounts: it
  doubles only when three quarters of it are used.
\<close>

definition cap_ok :: "server \<Rightarrow> ptr \<Rightarrow> (byte list \<rightharpoonup> byte list) \<Rightarrow> bool" where
  "cap_ok h p_objects A \<longleftrightarrow> (\<forall>objs t. objects (st h) p_objects = Some objs \<longrightarrow> tables h (o_htable objs) = Some t
     \<longrightarrow> unat (capacity t) \<le> 3 * card (dom A) + 2)"

lemma cap_ok_room: "cap_ok h p_objects A \<Longrightarrow> card (dom A) < 2 ^ 27 \<Longrightarrow> cap_room h p_objects"
  unfolding cap_ok_def cap_room_def by fastforce

section \<open>Frames\<close>

lemma env_step_server_ok:
  "env_step h h' \<Longrightarrow> server_ok h \<Longrightarrow> layout_ok (brk h') (st h') \<Longrightarrow> server_ok h'"
  by (simp add: server_ok_def env_step_hheap_ok) (simp add: env_step_def)

lemma account_at_nkey: "account_at h d u p \<Longrightarrow> chat.nkey h d = Some u"
  by (auto simp: account_at_def chat.nkey_def)

lemma accounts_inI:
  assumes "dom A = dom M" "\<And>u d p. M u = Some d \<Longrightarrow> A u = Some p \<Longrightarrow> account_at h' d u p"
    and "(\<And>k d. M k = Some d \<Longrightarrow> chat.nkey h' d = Some k) \<Longrightarrow> chat.ht_map h' t M"
  shows "accounts_in h' t A M"
proof -
  have "chat.nkey h' d = Some u" if M: "M u = Some d" for u d
  proof -
    obtain p where "A u = Some p" using assms(1) M by blast
    from account_at_nkey [OF assms(2) [OF M this]] show ?thesis .
  qed
  then show ?thesis using assms unfolding accounts_in_def by blast
qed

lemma accounts_in_env:
  assumes "env_step h h'" "accounts_in h t A M"
    and "\<And>u d p. account_at h d u p \<Longrightarrow> M u = Some d \<Longrightarrow> A u = Some p \<Longrightarrow> account_at h' d u p"
  shows "accounts_in h' t A M"
proof (rule accounts_inI)
  show "account_at h' d u p" if "M u = Some d" "A u = Some p" for u d p
    using assms(2,3) that unfolding accounts_in_def by blast
  show "chat.ht_map h' t M" if "\<And>k d. M k = Some d \<Longrightarrow> chat.nkey h' d = Some k"
    using ht_map_env [OF assms(1)] assms(2) that unfolding accounts_in_def by blast
  show "dom A = dom M" using assms(2) unfolding accounts_in_def by blast
qed

lemma layout_ok_core:
  assumes "mem z' = mem z" "clients z' = clients z" "conns z' = conns z" "objects z' NULL = objects z NULL"
  shows "layout_ok b z' = layout_ok b z"
  using assms by (simp add: layout_ok_def)

text \<open>A step that keeps the bytes and structs of the accounts.\<close>

lemma accounts_in_same:
  assumes "accounts_in h t A M" "env_step h h'" "mem (st h') = mem (st h)"
    and "\<And>c. clients (st h) c \<noteq> None \<Longrightarrow> clients (st h') c \<noteq> None"
  shows "accounts_in h' t A M"
proof (rule accounts_in_env [OF assms(2,1)])
  fix u d p assume "account_at h d u p"
  then obtain c where c: "hnodes h d = Some \<lparr>h_key = c + 16, h_value = c, h_free = CLIENT_FREE\<rparr>"
     "clients (st h) c \<noteq> None" "uname_at (st h) (c + 16) = Some u" "pass_at (st h) (c + 26) = Some p"
    unfolding account_at_def by blast
  have "hnodes h' = hnodes h" using assms(2) by (simp add: env_step_def)
  then show "account_at h' d u p" using c assms(3,4) unfolding account_at_def uname_at_def pass_at_def by auto
qed

lemma account_at_overlay:
  assumes "account_at h d u p" "hnodes h' = hnodes h" "mem (st h') = overlay (mem (st h)) a n s"
    and "\<And>c. clients (st h) c \<noteq> None \<Longrightarrow> clients (st h') c \<noteq> None"
    and "\<And>c. hnodes h d = Some \<lparr>h_key = c + 16, h_value = c, h_free = CLIENT_FREE\<rparr> \<Longrightarrow> clients (st h) c \<noteq> None
           \<Longrightarrow> c + 51 \<le> a \<or> a + n \<le> c + 16"
  shows "account_at h' d u p"
proof -
  obtain c where c: "hnodes h d = Some \<lparr>h_key = c + 16, h_value = c, h_free = CLIENT_FREE\<rparr>"
     "clients (st h) c \<noteq> None" "uname_at (st h) (c + 16) = Some u" "pass_at (st h) (c + 26) = Some p"
    using assms(1) unfolding account_at_def by blast
  have s: "c + 51 \<le> a \<or> a + n \<le> c + 16" using assms(5) c(1,2) by blast
  have "read_str (mem (st h')) (c + 16) UNAME_MAX = read_str (mem (st h)) (c + 16) UNAME_MAX"
    "read_str (mem (st h')) (c + 26) PASS_MAX = read_str (mem (st h)) (c + 26) PASS_MAX"
    unfolding assms(3) by (rule read_overlay_other, use s in \<open>auto simp: UNAME_MAX_def PASS_MAX_def\<close>)+
  then show ?thesis using c assms(2,4) unfolding account_at_def uname_at_def pass_at_def by auto
qed

lemma layout_ok_overlay:
  assumes "layout_ok b z" "mem z' = overlay (mem z) a n s" "clients z' = clients z" "conns z' = conns z"
    "objects z' NULL = objects z NULL" "\<And>i. i < n \<Longrightarrow> mem z (a + i) \<noteq> None"
  shows "layout_ok b z'"
proof -
  have eq: "mem z' x = None \<longleftrightarrow> mem z x = None" for x
  proof (cases "a \<le> x \<and> x < a + n")
    case True
    then have "mem z (a + (x - a)) \<noteq> None" by (intro assms(6)) linarith
    then show ?thesis using True assms(2) by (simp add: overlay_def)
  next
    case False
    then show ?thesis by (auto simp: overlay_def assms(2))
  qed
  show ?thesis using assms(1) unfolding layout_ok_def eq assms(3-5) .
qed

section \<open>Mutexes and replies\<close>

lemma on_st_Some: "f (st h) = Some z \<Longrightarrow> on_st f h = Some (hwith_more h z)"
  by (simp add: on_st_def)

lemma hwith_more_again [simp]: "hwith_more (hwith_more h z) z' = hwith_more h z'"
  by (rule ht_heap.equality) simp_all

text \<open>\<open>sigs_free z p_objects sp s\<close>: the server's signals are at \<open>sp\<close>, with both mutexes free.\<close>

definition sigs_free :: "chat_state \<Rightarrow> ptr \<Rightarrow> ptr \<Rightarrow> signals_t \<Rightarrow> bool" where
  "sigs_free z p_objects sp s \<longleftrightarrow> signals z sp = Some s \<and> \<not> client_mutex s \<and> \<not> sess_mutex s
     \<and> (\<exists>objs. objects z p_objects = Some objs \<and> o_signals objs = sp)"

lemma conn_okE:
  assumes "conn_ok z p_conn f p_objects"
  obtains c objs sp s where "p_conn \<noteq> NULL" "p_objects \<noteq> NULL" "conns z p_conn = Some c" "conn_objects c = p_objects"
    "conn_fd c = f" "objects z p_objects = Some objs" "sigs_free z p_objects sp s"
  using assms unfolding conn_ok_def sigs_free_def by blast

lemma sigs_free_lock:
  assumes "sigs_free z p_objects sp s"
  shows "lock_client p_objects z = Some (z\<lparr>signals := (signals z)(sp \<mapsto> s\<lparr>client_mutex := True\<rparr>)\<rparr>)"
    "lock_sess p_objects z = Some (z\<lparr>signals := (signals z)(sp \<mapsto> s\<lparr>sess_mutex := True\<rparr>)\<rparr>)"
  using assms by (auto simp: sigs_free_def mutex_lock_def)

lemma unlock_restores:
  assumes "sigs_free z p_objects sp s" "objects z' p_objects = Some objs" "o_signals objs = sp"
  shows "signals z' = (signals z)(sp \<mapsto> s\<lparr>client_mutex := True\<rparr>)
           \<Longrightarrow> unlock_client p_objects z' = Some (z'\<lparr>signals := signals z\<rparr>)"
    "signals z' = (signals z)(sp \<mapsto> s\<lparr>sess_mutex := True\<rparr>)
           \<Longrightarrow> unlock_sess p_objects z' = Some (z'\<lparr>signals := signals z\<rparr>)"
proof -
  have s: "s\<lparr>client_mutex := False\<rparr> = s" "s\<lparr>sess_mutex := False\<rparr> = s" "signals z sp = Some s"
    using assms(1) by (cases s; simp add: sigs_free_def)+
  have sig: "(signals z)(sp \<mapsto> s) = signals z" using s(3) by (rule fun_upd_idem)
  show "unlock_client p_objects z' = Some (z'\<lparr>signals := signals z\<rparr>)"
    if "signals z' = (signals z)(sp \<mapsto> s\<lparr>client_mutex := True\<rparr>)"
    using that assms(2,3) s(1) sig by (simp add: mutex_unlock_def)
  show "unlock_sess p_objects z' = Some (z'\<lparr>signals := signals z\<rparr>)"
    if "signals z' = (signals z)(sp \<mapsto> s\<lparr>sess_mutex := True\<rparr>)"
    using that assms(2,3) s(2) sig by (simp add: mutex_unlock_def)
qed

text \<open>The two actions of \<open>send_fail_pack\<close>.\<close>

definition put2 :: "int \<Rightarrow> packet \<Rightarrow> chat_state \<Rightarrow> chat_state" where
  "put2 f k z = z\<lparr>trace := trace z @ [Send f k, Close f]\<rparr>"

lemma put_put: "put (Close f) (put (Send f k) z) = put2 f k z"
  by (simp add: put_def put2_def)

lemma put2_sel [simp]:
  "mem (put2 f k z) = mem z" "clients (put2 f k z) = clients z" "conns (put2 f k z) = conns z"
  "objects (put2 f k z) = objects z" "signals (put2 f k z) = signals z" "script (put2 f k z) = script z" "gb_run (put2 f k z) = gb_run z"
  "trace (put2 f k z) = trace z @ [Send f k, Close f]"
  by (simp_all add: put2_def)

definition reply :: "server \<Rightarrow> int \<Rightarrow> packet \<Rightarrow> server" where
  "reply h f k = hwith_more h (put2 f k (st h))"

lemma reply_sel [simp]: "st (reply h f k) = put2 f k (st h)" "hnodes (reply h f k) = hnodes h"
  "tables (reply h f k) = tables h" "brk (reply h f k) = brk h" "env_step h (reply h f k)"
  by (simp_all add: reply_def env_step_def)

lemma send_fail_pack_spec:
  "conns (st h) p_conn = Some c \<Longrightarrow> on_st (send_fail_pack p_conn e) h
     = Some (reply h (conn_fd c) (failure FAILURE (of_int e)))"
  by (simp add: on_st_def send_fail_pack_def put_put reply_def)

text \<open>Steps that keep the bytes, the clients and the database pointer.\<close>

lemma accounts_same:
  assumes "accounts h p_objects A" "env_step h h'" "mem (st h') = mem (st h)" "clients (st h') = clients (st h)"
    "conns (st h') = conns (st h)" "objects (st h') = objects (st h)"
  shows "accounts h' p_objects A"
proof -
  obtain objs where o: "server_ok h" "objects (st h) p_objects = Some objs"
      "if o_htable objs = NULL then A = Map.empty else \<exists>M. accounts_in h (o_htable objs) A M"
    using assms(1) unfolding accounts_def by blast
  have "layout_ok (brk h') (st h')"
  proof -
    have b: "brk h \<le> brk h'" using assms(2) by (simp add: env_step_def)
    have "layout_ok (brk h) (st h)" using o(1) by (simp add: server_ok_def)
    then show ?thesis using b unfolding layout_ok_def assms(3-6) by (meson le_trans less_le_trans)
  qed
  then have "server_ok h'" by (rule env_step_server_ok [OF assms(2) o(1)])
  moreover have "accounts_in h' t A M" if "accounts_in h t A M" for t M
    using accounts_in_same [OF that assms(2,3)] assms(4) by simp
  ultimately show ?thesis using o(2,3) assms(6) unfolding accounts_def by (auto split: if_splits)
qed

lemma accounts_reply: "accounts h p_objects A \<Longrightarrow> accounts (reply h f k) p_objects A"
  by (erule accounts_same) simp_all

end
