(* ===== verification/ChatLogin.thy ===== *)
theory ChatLogin
  imports ChatRep
begin

text \<open>Verification of a client's name and password, and login.\<close>

lemma ucast_of_nat_32: "n < 2 ^ 32 \<Longrightarrow> (ucast (of_nat n :: 32 word) :: byte) = of_nat n"
  by (metis of_nat_unat unat_of_nat_32)

lemma env_step_more [simp]: "env_step h (hwith_more h z)"
  by (simp add: env_step_def)

lemma strncmp_pass:
  assumes "read_str m p PASS_MAX = Some s" "read_str m q PASS_MAX = Some s'"
  shows "\<exists>r. strncmp m p q PASS_MAX = Some r \<and> (r = 0 \<longleftrightarrow> s = s')"
  using strncmp_bytes [OF assms] bytes_cmp_eq [of s s'] read_str_end [OF assms(1)] read_str_end [OF assms(2)] by simp

lemma find_under_lock:
  assumes acc: "accounts h p_objects A" and o: "objects (st h) p_objects = Some objs"
    and name: "uname_at (st h) p = Some u" and z: "mem z = mem (st h)" "clients z = clients (st h)"
  shows "if A u = None then htable_find call_hash call_cmp (o_htable objs) p (hwith_more h z) = Some NULL
     else \<exists>M d. accounts_in h (o_htable objs) A M \<and> M u = Some d \<and> d \<noteq> NULL \<and> o_htable objs \<noteq> NULL
       \<and> htable_find call_hash call_cmp (o_htable objs) p (hwith_more h z) = Some d"
proof (cases "o_htable objs = NULL")
  case True
  then show ?thesis using acc o by (simp add: accounts_def htable_find_def)
next
  case False
  then obtain M where M: "accounts_in h (o_htable objs) A M" using acc o by (auto simp: accounts_def)
  let ?h = "hwith_more h z"
  have ok: "hheap_ok h" using acc by (simp add: accounts_def server_ok_def)
  have "accounts_in ?h (o_htable objs) A M" by (rule accounts_in_same [OF M]) (simp_all add: z)
  then have ht: "chat.ht_map ?h (o_htable objs) M" by (simp add: accounts_in_def)
  have key: "uname_at (st ?h) p = Some u" using name z(1) by (simp add: uname_at_def split: if_splits)
  note find = chat.htable_find_spec [OF ht key]
  have dom: "A u = None \<longleftrightarrow> M u = None" using M unfolding accounts_in_def by (metis domIff)
  show ?thesis
  proof (cases "M u")
    case None
    then show ?thesis using find dom by simp
  next
    case (Some d)
    obtain p' where "A u = Some p'" using dom Some by auto
    then have "account_at h d u p'" using M Some unfolding accounts_in_def by blast
    then have "hnodes h d \<noteq> None" by (auto simp: account_at_def)
    then have "d \<noteq> NULL" using hheap_ok_fresh(4) [OF ok] by metis
    then show ?thesis using find dom Some M False by auto
  qed
qed

lemma verify_client_spec:
  assumes acc: "accounts h p_objects A" and conn: "conn_ok (st h) p_conn f p_objects"
    and pk: "pk \<noteq> NULL" "read_str (mem (st h)) (pk + 2) UNAME_MAX = Some u"
      "read_str (mem (st h)) (pk + 13) PASS_MAX = Some p"
    and opt: "opt \<in> {CREATE, LOGIN, DELETE, UPDATE}"
  shows "case A u of None \<Rightarrow> verify_client p_conn pk opt h
           = Some (NULL, reply h f (failure FAILURE (of_int INVALID_UNAME)))
     | Some p' \<Rightarrow> if p \<noteq> p' then verify_client p_conn pk opt h
           = Some (NULL, reply h f (failure FAILURE (of_int INVALID_LOGIN)))
         else \<exists>objs M d. objects (st h) p_objects = Some objs \<and> accounts_in h (o_htable objs) A M
           \<and> M u = Some d \<and> d \<noteq> NULL \<and> o_htable objs \<noteq> NULL \<and> verify_client p_conn pk opt h = Some (d, h)"
proof -
  obtain c objs sp s where c: "p_conn \<noteq> NULL" "conns (st h) p_conn = Some c" "conn_objects c = p_objects"
    "conn_fd c = f" "objects (st h) p_objects = Some objs" "sigs_free (st h) p_objects sp s"
    using conn by (rule conn_okE) blast
  let ?z = "(st h)\<lparr>signals := (signals (st h))(sp \<mapsto> s\<lparr>client_mutex := True\<rparr>)\<rparr>"
  have sp: "o_signals objs = sp" using c(5,6) by (simp add: sigs_free_def)
  have lock: "on_st (lock_client p_objects) h = Some (hwith_more h ?z)"
    by (rule on_st_Some) (rule sigs_free_lock(1) [OF c(6)])
  have unlock: "on_st (unlock_client p_objects) (hwith_more h ?z) = Some h"
    using unlock_restores(1) [OF c(6), of ?z objs] c(5) sp by (simp add: on_st_def)
  have name: "uname_at (st h) (pk + 2) = Some u" using pk(2) by (simp add: uname_at_def)
  note find = find_under_lock [OF acc c(5) name, of ?z, simplified]
  have fail: "on_st (send_fail_pack p_conn e) h = Some (reply h f (failure FAILURE (of_int e)))" for e
    using send_fail_pack_spec [of h, OF c(2)] c(4) by simp
  show ?thesis
  proof (cases "A u")
    case None
    then show ?thesis using opt c(2,3,5) lock unlock find fail by (auto simp: verify_client_def)
  next
    case (Some p')
    then obtain M d where d: "accounts_in h (o_htable objs) A M" "M u = Some d" "d \<noteq> NULL" "o_htable objs \<noteq> NULL"
      "htable_find call_hash call_cmp (o_htable objs) (pk + 2) (hwith_more h ?z) = Some d"
      using find by auto
    have "account_at h d u p'" using d(1,2) Some unfolding accounts_in_def by blast
    then obtain q where q: "hnodes h d = Some \<lparr>h_key = q + 16, h_value = q, h_free = CLIENT_FREE\<rparr>"
       "read_str (mem (st h)) (q + 26) PASS_MAX = Some p'"
      unfolding account_at_def pass_at_def by blast
    obtain r where r: "strncmp (mem (st h)) (pk + 13) (q + 26) PASS_MAX = Some r" "r = 0 \<longleftrightarrow> p = p'"
      using strncmp_pass [OF pk(3) q(2)] by blast
    have "verify_client p_conn pk opt h = (if p \<noteq> p' then
        Some (NULL, reply h f (failure FAILURE (of_int INVALID_LOGIN))) else Some (d, h))"
      using opt c(2,3,5) lock unlock d(3,5) q(1) r fail by (auto simp: verify_client_def)
    then show ?thesis using Some d(1-4) c(5) by auto
  qed
qed

text \<open>
  Login replies with the number of accounts modulo 256 and makes the connection the client's own
  before it goes on to \<open>recv_msgs\<close>.
\<close>

definition set_fd :: "server \<Rightarrow> ptr \<Rightarrow> int \<Rightarrow> packet \<Rightarrow> server" where
  "set_fd h q f k = hwith_more h (put (Send f k)
     ((st h)\<lparr>clients := (clients (st h))(q := map_option (\<lambda>x. x\<lparr>fd := f\<rparr>) (clients (st h) q))\<rparr>))"

lemma accounts_set_fd:
  assumes "accounts h p_objects A"
  shows "accounts (set_fd h q f k) p_objects A"
proof -
  let ?h = "set_fd h q f k"
  have cl: "clients (st ?h) a = None \<longleftrightarrow> clients (st h) a = None" for a by (simp add: set_fd_def put_def)
  have same: "mem (st ?h) = mem (st h)" "conns (st ?h) = conns (st h)" "objects (st ?h) = objects (st h)"
    by (simp_all add: set_fd_def put_def)
  have env: "env_step h ?h" by (simp add: set_fd_def)
  obtain objs where o: "server_ok h" "objects (st h) p_objects = Some objs"
      "if o_htable objs = NULL then A = Map.empty else \<exists>M. accounts_in h (o_htable objs) A M"
    using assms(1) unfolding accounts_def by blast
  have "brk ?h = brk h" by (simp add: set_fd_def)
  then have "layout_ok (brk ?h) (st ?h)"
    using o(1) unfolding server_ok_def layout_ok_def cl same by simp
  then have "server_ok ?h" by (rule env_step_server_ok [OF env o(1)])
  moreover have "accounts_in ?h t A M" if "accounts_in h t A M" for t M
    by (rule accounts_in_same [OF that env same(1)]) (metis cl)
  ultimately show ?thesis using o(2,3) same(3) unfolding accounts_def by (auto split: if_splits)
qed

lemma handle_login_spec:
  assumes acc: "accounts h p_objects A" and conn: "conn_ok (st h) p_conn f p_objects"
    and pk: "init_pack (st h) pk ul u pl p"
  shows "A u \<noteq> Some p \<Longrightarrow> handle_login recv_msgs p_conn pk h
       = Some (reply h f (failure FAILURE (of_int (if A u = None then INVALID_UNAME else INVALID_LOGIN))))"
    "A u = Some p \<Longrightarrow> \<exists>q x. clients (st h) q = Some x \<and> uname_at (st h) (q + 16) = Some u
       \<and> accounts (set_fd h q f (login_ack LOGIN ACKNOWLEDGE (of_nat (card (dom A))))) p_objects A
       \<and> handle_login recv_msgs p_conn pk h
           = recv_msgs p_conn q (set_fd h q f (login_ack LOGIN ACKNOWLEDGE (of_nat (card (dom A))))) \<and> client_of h p_objects A u q"
proof -
  obtain c objs sp s where c: "p_conn \<noteq> NULL" "p_objects \<noteq> NULL" "conns (st h) p_conn = Some c" "conn_objects c = p_objects"
    "conn_fd c = f" "objects (st h) p_objects = Some objs" "sigs_free (st h) p_objects sp s"
    using conn by (rule conn_okE) blast
  let ?z = "(st h)\<lparr>signals := (signals (st h))(sp \<mapsto> s\<lparr>client_mutex := True\<rparr>)\<rparr>"
  have sp: "o_signals objs = sp" using c(6,7) by (simp add: sigs_free_def)
  have lock: "on_st (lock_client p_objects) h = Some (hwith_more h ?z)"
    by (rule on_st_Some) (rule sigs_free_lock(1) [OF c(7)])
  have unlock: "on_st (unlock_client p_objects) (hwith_more h ?z) = Some h"
    using unlock_restores(1) [OF c(7), of ?z objs] c(6) sp by (simp add: on_st_def)
  have fail: "on_st (send_fail_pack p_conn e) h = Some (reply h f (failure FAILURE (of_int e)))" for e
    using send_fail_pack_spec [of h, OF c(3)] c(5) by simp
  have pk': "pk \<noteq> NULL" "read_str (mem (st h)) (pk + 2) UNAME_MAX = Some u"
      "read_str (mem (st h)) (pk + 13) PASS_MAX = Some p"
    using pk by (auto simp: init_pack_def pack_at_def)
  note v = verify_client_spec [OF acc conn pk', of LOGIN, simplified]
  show "handle_login recv_msgs p_conn pk h
       = Some (reply h f (failure FAILURE (of_int (if A u = None then INVALID_UNAME else INVALID_LOGIN))))"
    if "A u \<noteq> Some p"
  proof (cases "o_htable objs = NULL")
    case True
    then have "A u = None" using acc c(6) by (simp add: accounts_def)
    then show ?thesis using True c(1-4,6) lock unlock fail by (simp add: handle_login_def)
  next
    case False
    then show ?thesis using v that c(1-4,6) lock unlock by (auto simp: handle_login_def split: option.splits)
  qed
  show "\<exists>q x. clients (st h) q = Some x \<and> uname_at (st h) (q + 16) = Some u
       \<and> accounts (set_fd h q f (login_ack LOGIN ACKNOWLEDGE (of_nat (card (dom A))))) p_objects A
       \<and> handle_login recv_msgs p_conn pk h
           = recv_msgs p_conn q (set_fd h q f (login_ack LOGIN ACKNOWLEDGE (of_nat (card (dom A))))) \<and> client_of h p_objects A u q"
    if A: "A u = Some p"
  proof -
  obtain M d where d: "accounts_in h (o_htable objs) A M" "M u = Some d" "d \<noteq> NULL" "o_htable objs \<noteq> NULL"
      "verify_client p_conn pk LOGIN h = Some (d, h)" using v A c(6) by auto
  have "account_at h d u p" using d(1,2) A unfolding accounts_in_def by blast
  then obtain q where q: "hnodes h d = Some \<lparr>h_key = q + 16, h_value = q, h_free = CLIENT_FREE\<rparr>"
     "clients (st h) q \<noteq> None" "uname_at (st h) (q + 16) = Some u" "read_str (mem (st h)) (q + 26) PASS_MAX = Some p"
    unfolding account_at_def pass_at_def by blast
  obtain x where x: "clients (st h) q = Some x" using q(2) by blast
  have qn: "q \<noteq> NULL" using acc q(2) by (auto simp: accounts_def server_ok_def layout_ok_def)
  obtain t where t: "tables h (o_htable objs) = Some t" "ucast (curr_size t) = (of_nat (card (dom A)) :: byte)"
  proof -
    have ht: "chat.ht_map h (o_htable objs) M" and dm: "dom A = dom M" using d(1) by (auto simp: accounts_in_def)
    obtain n a bs As B where 1: "chat.ht_at h (o_htable objs) n a bs As B" "length (concat B) < 2 ^ 31"
      "\<forall>k d. M k = Some d \<longleftrightarrow> d \<in> set (concat B) \<and> chat.nkey h d = Some k" by (rule chat.ht_mapE [OF ht])
    have nk: "chat.nkeys_ok h n B" and tb: "table_at h (o_htable objs) HASH_F COMP_F n a bs (length (concat B))"
      using 1(1) unfolding chat.ht_at_def by blast+
    have "card (dom M) = length (concat B)" by (rule chat.ht_map_card(1) [OF nk 1(3)])
    then have "ucast (of_nat (length (concat B)) :: 32 word) = (of_nat (card (dom A)) :: byte)"
      using dm 1(2) by (simp add: ucast_of_nat_32)
    with tb that show thesis unfolding table_at_def by (metis htable_t.select_convs(7))
  qed
  obtain r where r: "strncmp (mem (st h)) (pk + 13) (q + 26) PASS_MAX = Some r" "r = 0"
    using strncmp_pass [OF pk'(3) q(4)] by blast
  let ?h = "set_fd h q f (login_ack LOGIN ACKNOWLEDGE (of_nat (card (dom A))))"
  have "handle_login recv_msgs p_conn pk h = recv_msgs p_conn q ?h"
  proof -
    let ?h1 = "hwith_more h ((st h)\<lparr>clients := (clients (st h))(q \<mapsto> x\<lparr>fd := f\<rparr>)\<rparr>)"
    have "on_st (upd_client q (\<lambda>x. x\<lparr>fd := f\<rparr>)) h = Some ?h1"
      using x by (simp add: on_st_def upd_client_def)
    moreover have "on_st (\<lambda>z. Some (put (Send f k) z)) ?h1 = Some (set_fd h q f k)" for k
      using x by (simp add: on_st_def set_fd_def put_def)
    ultimately show ?thesis using c(1-6) lock unlock d(3-5) q(1) qn t r x
      by (simp add: handle_login_def)
  qed
  moreover have "client_of h p_objects A u q" using c(6) d(1,2) q(1) unfolding client_of_def by blast
  ultimately show ?thesis using x q(3) accounts_set_fd [OF acc] by blast
  qed
qed

end
