(* ===== verification/ChatCreate.thy ===== *)
theory ChatCreate
  imports ChatLogin
begin

text \<open>Creation of an account.\<close>

section \<open>The table exists\<close>

lemma layout_ok_mono: "layout_ok b z \<Longrightarrow> b \<le> b' \<Longrightarrow> layout_ok b' z"
  unfolding layout_ok_def by (meson le_trans less_le_trans)

definition set_objs :: "ptr \<Rightarrow> objects_t \<Rightarrow> chat_state \<Rightarrow> chat_state" where
  "set_objs p_objects objs z = z\<lparr>objects := (objects z)(p_objects \<mapsto> objs)\<rparr>"

lemma set_objs_sel [simp]:
  "mem (set_objs p x z) = mem z" "clients (set_objs p x z) = clients z" "conns (set_objs p x z) = conns z"
  "signals (set_objs p x z) = signals z" "script (set_objs p x z) = script z" "gb_run (set_objs p x z) = gb_run z" "trace (set_objs p x z) = trace z"
  "objects (set_objs p x z) = (objects z)(p \<mapsto> x)"
  by (simp_all add: set_objs_def)

lemma set_objs_same: "objects z p = Some x \<Longrightarrow> set_objs p x z = z"
  by (simp add: set_objs_def fun_upd_idem)

lemma layout_ok_set_objs [simp]: "p \<noteq> NULL \<Longrightarrow> layout_ok b (set_objs p x z) = layout_ok b z"
  by (simp add: layout_ok_def)

lemma ensure_htable_spec:
  assumes acc: "accounts h p_objects A" and sf: "sigs_free (st h) p_objects sp s"
    and o: "objects (st h) p_objects = Some objs" and pn: "p_objects \<noteq> NULL" and room: "cap_room h p_objects"
  shows "\<exists>h1 t. ensure_htable p_objects h = Some h1 \<and> t \<noteq> NULL
     \<and> st h1 = set_objs p_objects (objs\<lparr>o_htable := t\<rparr>) (st h)
     \<and> accounts h1 p_objects A \<and> cap_room h1 p_objects \<and> brk h \<le> brk h1
     \<and> (cap_ok h p_objects A \<longrightarrow> cap_ok h1 p_objects A)"
proof -
  let ?z = "(st h)\<lparr>signals := (signals (st h))(sp \<mapsto> s\<lparr>client_mutex := True\<rparr>)\<rparr>"
  let ?hl = "hwith_more h ?z"
  have sp: "o_signals objs = sp" using o sf by (simp add: sigs_free_def)
  have lock: "on_st (lock_client p_objects) h = Some ?hl"
    by (rule on_st_Some) (rule sigs_free_lock(1) [OF sf])
  have unlock: "on_st (unlock_client p_objects) ?hl = Some h"
    using unlock_restores(1) [OF sf, of ?z objs] o sp by (simp add: on_st_def)
  show ?thesis
  proof (cases "o_htable objs = NULL")
    case False
    then have "ensure_htable p_objects h = Some h" using lock unlock o by (simp add: ensure_htable_def)
    moreover have "objs\<lparr>o_htable := o_htable objs\<rparr> = objs" by simp
    ultimately show ?thesis using False acc room set_objs_same [of "st h", OF o]
      by (intro exI [of _ h] exI [of _ "o_htable objs"]) simp
  next
    case True
    then have A: "A = Map.empty" using acc o by (simp add: accounts_def)
    have ok: "hheap_ok h" "never_oom h" "layout_ok (brk h) (st h)"
      using acc by (auto simp: accounts_def server_ok_def)
    have okl: "hheap_ok ?hl" by (rule env_step_hheap_ok [OF env_step_more ok(1)])
    let ?hc = "created ?hl HASH_F COMP_F" and ?t = "brk h"
    have b: "0 < brk ?hl" by (rule hheap_ok_fresh(7) [OF okl])
    have run: "htable_create HASH_F COMP_F ?hl = Some (?t, ?hc)"
      using htable_create_ok [OF b chat.hash_f chat.comp_f] ok(2) by simp
    have ht: "chat.ht_map ?hc ?t Map.empty"
      using chat.htable_create_spec [OF okl] run ok(2) by auto
    let ?z' = "set_objs p_objects (objs\<lparr>o_htable := ?t\<rparr>) (st h)"
    let ?h1 = "hwith_more ?hc ?z'"
    have "ensure_htable p_objects h = Some ?h1"
    proof -
      have u: "on_st (upd_objects p_objects (\<lambda>x. x\<lparr>o_htable := ?t\<rparr>)) ?hc
          = Some (hwith_more ?hc (?z\<lparr>objects := (objects (st h))(p_objects \<mapsto> objs\<lparr>o_htable := ?t\<rparr>)\<rparr>))"
        using o by (simp add: on_st_def upd_objects_def)
      have "unlock_client p_objects (?z\<lparr>objects := (objects (st h))(p_objects \<mapsto> objs\<lparr>o_htable := ?t\<rparr>)\<rparr>) = Some ?z'"
        using unlock_restores(1) [OF sf, of "?z\<lparr>objects := (objects (st h))(p_objects \<mapsto> objs\<lparr>o_htable := ?t\<rparr>)\<rparr>"] sp
        by (simp add: set_objs_def)
      then show ?thesis using lock unlock o True run u
        by (simp add: ensure_htable_def) (simp add: on_st_def)
    qed
    moreover have "chat.ht_map ?h1 ?t Map.empty" by (rule ht_map_env [OF _ ht]) (simp_all add: env_step_def)
    moreover have "layout_ok (brk ?h1) ?z'" using layout_ok_mono [OF ok(3)] pn by simp
    ultimately show ?thesis using b ok(2) A pn
      by (intro exI [of _ ?h1] exI [of _ ?t])
        (auto simp: accounts_def accounts_in_def server_ok_def cap_room_def cap_ok_def dest: ht_map_hheap_ok)
  qed
qed

section \<open>The new client\<close>

definition zeroed :: "mem \<Rightarrow> ptr \<Rightarrow> mem" where
  "zeroed m q = (\<lambda>a. if q + 16 \<le> a \<and> a < q + 52 then Some 0 else m a)"

definition client_mem :: "mem \<Rightarrow> ptr \<Rightarrow> nat \<Rightarrow> byte list \<Rightarrow> nat \<Rightarrow> byte list \<Rightarrow> mem" where
  "client_mem m q n u k p = overlay (overlay (zeroed m q) (q + 16) n u) (q + 26) k p"

lemma client_mem_old:
  assumes "m a \<noteq> None" "\<forall>a. m a \<noteq> None \<longrightarrow> a < q"
  shows "client_mem m q n u k p a = m a"
proof -
  have "a < q" using assms by blast
  then show ?thesis by (simp add: client_mem_def overlay_def zeroed_def)
qed

lemma client_mem_strings:
  assumes "0 \<notin> set u" "0 \<notin> set p" "n \<le> 10" "k \<le> 25" "length (take n u) < 10" "length (take k p) < 25"
  shows "read_str (client_mem m q n u k p) (q + 16) 10 = Some (take n u)"
    "read_str (client_mem m q n u k p) (q + 26) 25 = Some (take k p)"
proof -
  have "read_str (overlay (zeroed m q) (q + 16) n u) (q + 16) 10 = Some (take n u)"
    by (rule read_overlay) (use assms in \<open>auto simp: zeroed_def\<close>)
  then show "read_str (client_mem m q n u k p) (q + 16) 10 = Some (take n u)"
    by (simp add: client_mem_def read_overlay_other)
  show "read_str (client_mem m q n u k p) (q + 26) 25 = Some (take k p)"
    unfolding client_mem_def by (rule read_overlay) (use assms in \<open>auto simp: zeroed_def overlay_def\<close>)
qed

text \<open>The state after \<open>calloc\<close> and \<open>init_client\<close>.\<close>

definition with_client :: "server \<Rightarrow> ptr \<Rightarrow> objects_t \<Rightarrow> client_t \<Rightarrow> mem \<Rightarrow> server" where
  "with_client h p_objects objs x m = hwith_more (h\<lparr>allocs := Suc (allocs h), brk := brk h + 56\<rparr>)
     ((set_objs p_objects objs (st h))\<lparr>clients := (clients (st h))(brk h \<mapsto> x), mem := m\<rparr>)"

lemma with_client_sel [simp]:
  "st (with_client h po objs x m) = (set_objs po objs (st h))\<lparr>clients := (clients (st h))(brk h \<mapsto> x), mem := m\<rparr>"
  "brk (with_client h po objs x m) = brk h + 56" "env_step h (with_client h po objs x m)"
  "hnodes (with_client h po objs x m) = hnodes h" "tables (with_client h po objs x m) = tables h"
  "oom (with_client h po objs x m) = oom h"
  by (simp_all add: with_client_def env_step_def)

lemma init_client_spec:
  assumes ok: "server_ok h" and sf: "sigs_free (st h) p_objects sp s" and o: "objects (st h) p_objects = Some objs"
    and c: "conns (st h) p_conn = Some c" and pk: "init_pack (st h) pk ul u pl p"
    and len: "unat ul < 10" "unat pl < 25"
  shows "\<exists>h2. calloc_client h = (brk h, h2) \<and> init_client p_conn p_objects pk (brk h) h2
     = Some (with_client h p_objects (objs\<lparr>o_session_id := o_session_id objs + 1\<rparr>)
         \<lparr>session_id = o_session_id objs + 1, p_addr = conn_addr c, fd = conn_fd c\<rparr>
         (client_mem (mem (st h)) (brk h) (unat ul + 1) u (unat pl + 1) p))"
proof -
  let ?q = "brk h" and ?z = "st h"
  let ?H = "h\<lparr>allocs := Suc (allocs h), brk := brk h + 56\<rparr>"
  have nb: "0 < ?q" "can_alloc h" using ok hheap_ok_fresh(7) by (auto simp: server_ok_def)
  have lay: "layout_ok ?q ?z" using ok by (simp add: server_ok_def)
  have P: "pack_at ?z pk 38" "mem ?z (pk + 1) = Some ul" "mem ?z (pk + 12) = Some pl"
     "read_str (mem ?z) (pk + 2) 10 = Some u" "read_str (mem ?z) (pk + 13) 25 = Some p"
    using pk by (auto simp: init_pack_def UNAME_MAX_def PASS_MAX_def)
  have "mem ?z (pk + 37) \<noteq> None" using P(1) by (simp add: pack_at_def)
  then have pkq: "pk + 38 \<le> ?q" using lay unfolding layout_ok_def by fastforce
  let ?xa = "\<lparr>session_id = 0, p_addr = NULL, fd = 0\<rparr>"
  let ?x1 = "\<lparr>session_id = 0, p_addr = conn_addr c, fd = conn_fd c\<rparr>"
  let ?x = "\<lparr>session_id = o_session_id objs + 1, p_addr = conn_addr c, fd = conn_fd c\<rparr>"
  let ?objs = "objs\<lparr>o_session_id := o_session_id objs + 1\<rparr>"
  let ?m0 = "zeroed (mem ?z) ?q"
  let ?m1 = "overlay ?m0 (?q + 16) (unat ul + 1) u"
  let ?m2 = "overlay ?m1 (?q + 26) (unat pl + 1) p"
  let ?za = "?z\<lparr>clients := (clients ?z)(?q \<mapsto> ?xa), mem := ?m0\<rparr>"
  let ?z1 = "?z\<lparr>mem := ?m0, clients := (clients ?z)(?q \<mapsto> ?x1)\<rparr>"
  let ?sig = "(signals ?z)(sp \<mapsto> s\<lparr>sess_mutex := True\<rparr>)"
  let ?z3 = "?z1\<lparr>signals := ?sig, objects := (objects ?z)(p_objects \<mapsto> ?objs)\<rparr>"
  let ?z4 = "?z3\<lparr>clients := (clients ?z)(?q \<mapsto> ?x)\<rparr>"
  let ?z5 = "(set_objs p_objects ?objs ?z)\<lparr>clients := (clients ?z)(?q \<mapsto> ?x), mem := ?m0\<rparr>"
  have sp: "o_signals objs = sp" using o sf by (simp add: sigs_free_def)
  have sf1: "sigs_free ?z1 p_objects sp s" using sf by (simp add: sigs_free_def)
  have r1: "calloc_client h = (?q, hwith_more ?H ?za)"
    using nb by (simp add: calloc_client_def calloc_def zeroed_def cong: if_cong)
  have r2: "on_st (upd_client ?q (\<lambda>x. x\<lparr>fd := conn_fd c, p_addr := conn_addr c\<rparr>)) (hwith_more ?H ?za)
      = Some (hwith_more ?H ?z1)" by (simp add: on_st_def upd_client_def)
  have r3: "on_st (lock_sess p_objects) (hwith_more ?H ?z1) = Some (hwith_more ?H (?z1\<lparr>signals := ?sig\<rparr>))"
    using sigs_free_lock(2) [OF sf1] by (simp add: on_st_def)
  have r4: "on_st (upd_objects p_objects (\<lambda>x. x\<lparr>o_session_id := o_session_id x + 1\<rparr>)) (hwith_more ?H (?z1\<lparr>signals := ?sig\<rparr>))
      = Some (hwith_more ?H ?z3)"
    using o by (simp add: on_st_def upd_objects_def set_objs_def)
  have r5: "on_st (upd_client ?q (\<lambda>x. x\<lparr>session_id := o_session_id ?objs\<rparr>))
       (hwith_more ?H ?z3)
      = Some (hwith_more ?H ?z4)" by (simp add: on_st_def upd_client_def)
  have "?z4\<lparr>signals := signals ?z\<rparr> = ?z5" by (rule chat_state.equality) (simp_all add: set_objs_def)
  moreover have "unlock_sess p_objects ?z4 = Some (?z4\<lparr>signals := signals ?z1\<rparr>)"
    by (rule unlock_restores(2) [OF sf1, of ?z4 ?objs]) (simp_all add: sp)
  ultimately have r6: "on_st (unlock_sess p_objects) (hwith_more ?H ?z4) = Some (hwith_more ?H ?z5)"
    by (simp add: on_st_def)
  have old: "?m0 a = mem ?z a" if "a < ?q" for a using that by (simp add: zeroed_def)
  have u1: "read_str ?m0 (pk + 2) 10 = Some u"
    using read_str_cong [of 10 ?m0 "pk + 2" "mem ?z"] old pkq P(4) by simp
  have s1: "strncpy ?m0 (?q + 16) (pk + 2) (unat ul + 1) = Some ?m1"
    by (rule strncpy_spec [OF u1]) (use len pkq in \<open>auto simp: zeroed_def\<close>)
  have old1: "?m1 a = mem ?z a" if "a < ?q" for a using that by (simp add: overlay_def zeroed_def)
  have p1: "read_str ?m1 (pk + 13) 25 = Some p"
    using read_str_cong [of 25 ?m1 "pk + 13" "mem ?z"] old1 pkq P(5) by simp
  have s2: "strncpy ?m1 (?q + 26) (pk + 13) (unat pl + 1) = Some ?m2"
    by (rule strncpy_spec [OF p1]) (use len pkq in \<open>auto simp: overlay_def zeroed_def\<close>)
  have l1: "?m0 (pk + 1) = Some ul" "?m1 (pk + 12) = Some pl" using old [of "pk + 1"] old1 [of "pk + 12"] P(2,3) pkq by simp_all
  have r7: "on_st (upd_mem (\<lambda>m. strncpy m (?q + 16) (pk + 2) (unat ul + 1))) (hwith_more ?H ?z5)
      = Some (hwith_more ?H (?z5\<lparr>mem := ?m1\<rparr>))" using s1 by (simp add: on_st_def upd_mem_def)
  have r8: "on_st (upd_mem (\<lambda>m. strncpy m (?q + 26) (pk + 13) (unat pl + 1))) (hwith_more ?H (?z5\<lparr>mem := ?m1\<rparr>))
      = Some (hwith_more ?H (?z5\<lparr>mem := ?m2\<rparr>))" using s2 by (simp add: on_st_def upd_mem_def)
  have "init_client p_conn p_objects pk ?q (hwith_more ?H ?za) = Some (hwith_more ?H (?z5\<lparr>mem := ?m2\<rparr>))"
    unfolding init_client_def using c r2 r3 r4 r5 r6 l1 r7 r8 by simp
  then show ?thesis using r1 by (simp add: with_client_def client_mem_def)
qed

end
