(* ===== verification/ChatKeeps.thy ===== *)
theory ChatKeeps
  imports ChatCreate
begin

text \<open>The whole of \<open>create_account\<close>: what it replies, stores and keeps.\<close>

text \<open>
  What every handler keeps: connections, free mutexes, the signals' address and the bytes of
  the packets.
\<close>

definition keeps :: "ptr \<Rightarrow> chat_state \<Rightarrow> chat_state \<Rightarrow> bool" where
  "keeps p_objects z z' \<longleftrightarrow> conns z' = conns z \<and> signals z' = signals z \<and> script z' = script z \<and> gb_run z' = gb_run z \<and> dom (objects z') = dom (objects z)
     \<and> (\<forall>objs. objects z p_objects = Some objs
          \<longrightarrow> (\<exists>objs'. objects z' p_objects = Some objs' \<and> o_signals objs' = o_signals objs))
     \<and> (\<forall>pk n. pack_at z pk n \<longrightarrow> 0 < n \<longrightarrow> pack_at z' pk n \<and> (\<forall>i < n. mem z' (pk + i) = mem z (pk + i)))"

lemma keeps_refl [simp]: "keeps p z z"
  by (simp add: keeps_def)

lemma keeps_trans: "keeps p z z1 \<Longrightarrow> keeps p z1 z2 \<Longrightarrow> keeps p z z2"
  unfolding keeps_def by (elim conjE, intro conjI) (metis+)

lemma keeps_conn_ok: "keeps po z z' \<Longrightarrow> conn_ok z p_conn f po \<Longrightarrow> conn_ok z' p_conn f po"
  unfolding keeps_def conn_ok_def by metis

lemma keeps_same_mem:
  assumes "conns z' = conns z" "signals z' = signals z" "mem z' = mem z" "script z' = script z \<and> gb_run z' = gb_run z \<and> dom (objects z') = dom (objects z)"
    and "\<And>c. clients z' c \<noteq> None \<Longrightarrow> clients z c \<noteq> None"
    and "\<And>objs. objects z p_objects = Some objs
          \<Longrightarrow> \<exists>objs'. objects z' p_objects = Some objs' \<and> o_signals objs' = o_signals objs"
  shows "keeps p_objects z z'"
  unfolding keeps_def pack_at_def assms(1-3) using assms(4-6) by blast

lemma keeps_read:
  assumes "keeps po z z'" "pack_at z pk n" "a + k \<le> n" "0 < n"
  shows "read_str (mem z') (pk + a) k = read_str (mem z) (pk + a) k"
proof (rule read_str_cong)
  fix i assume "i < k"
  then have "a + i < n" using assms(3) by simp
  then have "mem z' (pk + (a + i)) = mem z (pk + (a + i))" using assms(1,2,4) unfolding keeps_def by blast
  then show "mem z' (pk + a + i) = mem z (pk + a + i)" by (simp add: add.assoc)
qed

lemma keeps_byte: "keeps po z z' \<Longrightarrow> pack_at z pk n \<Longrightarrow> a < n \<Longrightarrow> mem z' (pk + a) = mem z (pk + a)"
  unfolding keeps_def by (metis gr_implies_not0 not_gr_zero)

lemma keeps_pack: "keeps po z z' \<Longrightarrow> pack_at z pk n \<Longrightarrow> 0 < n \<Longrightarrow> pack_at z' pk n"
  unfolding keeps_def by blast

lemma keeps_init_pack: "keeps po z z' \<Longrightarrow> init_pack z pk ul u pl p \<Longrightarrow> init_pack z' pk ul u pl p"
  unfolding init_pack_def
  using keeps_read [of po z z' pk 38 2 UNAME_MAX] keeps_read [of po z z' pk 38 13 PASS_MAX]
    keeps_byte [of po z z' pk 38 1] keeps_byte [of po z z' pk 38 12] keeps_pack [of po z z' pk 38]
  by (simp add: UNAME_MAX_def PASS_MAX_def)

lemma keeps_update_pack: "keeps po z z' \<Longrightarrow> update_pack z pk u p nl np \<Longrightarrow> update_pack z' pk u p nl np"
  unfolding update_pack_def
  using keeps_read [of po z z' pk 64 2 UNAME_MAX] keeps_read [of po z z' pk 64 13 PASS_MAX]
    keeps_read [of po z z' pk 64 39 PASS_MAX]
    keeps_byte [of po z z' pk 64 38] keeps_pack [of po z z' pk 64]
  by (simp add: UNAME_MAX_def PASS_MAX_def)

text \<open>A change of memory below the next free address, and new clients above it.\<close>

lemma keeps_grow:
  assumes lay: "layout_ok b z" and "conns z' = conns z" "signals z' = signals z" "script z' = script z \<and> gb_run z' = gb_run z \<and> dom (objects z') = dom (objects z)"
    and mem: "\<And>a. mem z a \<noteq> None \<Longrightarrow> mem z' a = mem z a"
    and cl: "\<And>c. clients z' c \<noteq> None \<Longrightarrow> clients z c \<noteq> None \<or> b \<le> c"
    and objs: "\<And>objs. objects z p_objects = Some objs
          \<Longrightarrow> \<exists>objs'. objects z' p_objects = Some objs' \<and> o_signals objs' = o_signals objs"
  shows "keeps p_objects z z'"
proof -
  have "pack_at z' pk n \<and> (\<forall>i < n. mem z' (pk + i) = mem z (pk + i))" if p: "pack_at z pk n" "0 < n" for pk n
  proof -
    have m: "mem z' (pk + i) = mem z (pk + i)" if "i < n" for i
      using mem [of "pk + i"] p(1) that by (simp add: pack_at_def)
    have "mem z (pk + (n - 1)) \<noteq> None" using p unfolding pack_at_def by (metis diff_less zero_less_one)
    then have "pk + (n - 1) < b" using layout_okD(3) [OF lay] by blast
    then have top: "pk + n \<le> b" using p(2) by simp
    have "pk + n \<le> c \<or> c + 56 \<le> pk" if "clients z' c \<noteq> None" for c
      using cl [OF that] p(1) top unfolding pack_at_def by (meson le_trans)
    then show ?thesis using p(1) m unfolding pack_at_def by auto
  qed
  then show ?thesis unfolding keeps_def using assms(2-4) objs by blast
qed

section \<open>The account database with a new client\<close>

lemma with_client_layout:
  assumes "layout_ok (brk h) (st h)" "p_objects \<noteq> NULL" "0 < brk h" "n \<le> 10" "k \<le> 25"
  shows "layout_ok (brk h + 56) (st (with_client h p_objects objs x (client_mem (mem (st h)) (brk h) n u k p)))"
proof -
  let ?q = "brk h" and ?z = "st h" and ?m = "client_mem (mem (st h)) (brk h) n u k p"
  note D = layout_okD [OF assms(1)]
  have below: "\<forall>a. mem ?z a \<noteq> None \<longrightarrow> a < ?q" using D(3) by blast
  have cl: "0 < c \<and> c + 56 \<le> ?q" if "clients ?z c \<noteq> None" for c using D(4,5) that by blast
  have m1: "a < ?q + 56" if "?m a \<noteq> None" for a
    using that below assms(4,5) by (force simp: client_mem_def overlay_def zeroed_def split: if_splits)
  have new: "?m (?q + 16 + i) \<noteq> None" if "i < 36" for i
    using that by (simp add: client_mem_def overlay_def zeroed_def)
  have old: "?m (c + 16 + i) \<noteq> None" if "clients ?z c \<noteq> None" "i < 36" for c i
    using client_mem_old [OF D(6) [OF that] below] D(6) [OF that] by simp
  show ?thesis unfolding layout_ok_def
  proof (intro conjI allI impI)
    show "conns (st (with_client h p_objects objs x ?m)) NULL = None" using D(1) by simp
    show "objects (st (with_client h p_objects objs x ?m)) NULL = None" using D(2) assms(2) by simp
    show "a < ?q + 56" if "mem (st (with_client h p_objects objs x ?m)) a \<noteq> None" for a using that m1 by simp
    show "c < ?q + 56" if "conns (st (with_client h p_objects objs x ?m)) c \<noteq> None" for c using that D(8) [of c] by simp
    fix c assume c: "clients (st (with_client h p_objects objs x ?m)) c \<noteq> None"
    show "0 < c" "c + 56 \<le> ?q + 56" using c cl [of c] assms(3) by (auto split: if_splits)
    show "mem (st (with_client h p_objects objs x ?m)) (c + 16 + i) \<noteq> None" if "i < 36" for i
      using c new [OF that] old [of c i] that by (simp split: if_splits)
    fix c' assume c': "clients (st (with_client h p_objects objs x ?m)) c' \<noteq> None" and "c \<noteq> c'"
    then show "c + 56 \<le> c' \<or> c' + 56 \<le> c"
      using c cl [of c] cl [of c'] D(7) [of c c'] by (auto split: if_splits)
  qed
qed

lemma accounts_with_client:
  fixes x :: client_t and u p :: "byte list"
  assumes acc: "accounts h p_objects A" and o: "objects (st h) p_objects = Some objs" and pn: "p_objects \<noteq> NULL"
    and t: "o_htable objs' = o_htable objs" "o_signals objs' = o_signals objs"
    and n: "n \<le> 10" "k \<le> 25"
  defines "h' \<equiv> with_client h p_objects objs' x (client_mem (mem (st h)) (brk h) n u k p)"
  shows "accounts h' p_objects A" "keeps p_objects (st h) (st h')"
    "\<And>M. accounts_in h (o_htable objs) A M \<Longrightarrow> accounts_in h' (o_htable objs) A M"
proof -
  have ok: "server_ok h" using acc by (simp add: accounts_def)
  then have lay: "layout_ok (brk h) (st h)" and b: "0 < brk h" using hheap_ok_fresh(7) by (auto simp: server_ok_def)
  have below: "\<forall>a. mem (st h) a \<noteq> None \<longrightarrow> a < brk h" using layout_okD(3) [OF lay] by blast
  have mem: "mem (st h') a = mem (st h) a" if "mem (st h) a \<noteq> None" for a
    unfolding h'_def using client_mem_old [OF that below] by simp
  have env: "env_step h h'" unfolding h'_def by simp
  have "layout_ok (brk h') (st h')" unfolding h'_def using with_client_layout [OF lay pn b n] by simp
  then have ok': "server_ok h'" by (rule env_step_server_ok [OF env ok])
  have hn: "hnodes h' = hnodes h" "clients (st h') = (clients (st h))(brk h \<mapsto> x)" unfolding h'_def by simp_all
  show "keeps p_objects (st h) (st h')"
  proof (rule keeps_grow [OF lay _ _ _ mem])
    show "clients (st h) c \<noteq> None \<or> brk h \<le> c" if "clients (st h') c \<noteq> None" for c
      using that hn(2) by (auto split: if_splits)
  qed (use o t in \<open>auto simp: h'_def\<close>)
  show in': "accounts_in h' (o_htable objs) A M" if "accounts_in h (o_htable objs) A M" for M
  proof (rule accounts_in_env [OF env that])
    fix u d p assume "account_at h d u p"
    then obtain c where c: "hnodes h d = Some \<lparr>h_key = c + 16, h_value = c, h_free = CLIENT_FREE\<rparr>"
       "clients (st h) c \<noteq> None" "uname_at (st h) (c + 16) = Some u" "pass_at (st h) (c + 26) = Some p"
      unfolding account_at_def by blast
    have bytes: "mem (st h) (c + 16 + i) \<noteq> None" if "i < 36" for i
      using layout_okD(6) [OF lay c(2) that] .
    have eq: "mem (st h') (c + 16 + i) = mem (st h) (c + 16 + i)" if "i < 36" for i
      using mem [OF bytes [OF that]] .
    have "read_str (mem (st h')) (c + 16) 10 = read_str (mem (st h)) (c + 16) 10"
      by (rule read_str_cong) (use eq in simp)
    moreover have "read_str (mem (st h')) (c + 26) 25 = read_str (mem (st h)) (c + 26) 25"
    proof (rule read_str_cong)
      fix i :: nat assume "i < 25"
      then show "mem (st h') (c + 26 + i) = mem (st h) (c + 26 + i)" using eq [of "10 + i"] by (simp add: algebra_simps)
    qed
    ultimately show "account_at h' d u p"
      using c hn unfolding account_at_def uname_at_def pass_at_def UNAME_MAX_def PASS_MAX_def by auto
  qed
  show "accounts h' p_objects A" using acc o ok' in' t(1) unfolding accounts_def
    by (auto simp: h'_def split: if_splits)
qed

lemma accounts_insert:
  assumes acc: "accounts_in h t A M" and new: "hnodes h d = None"
    and hn: "hnodes h' = (hnodes h)(d \<mapsto> \<lparr>h_key = q + 16, h_value = q, h_free = CLIENT_FREE\<rparr>)"
    and st: "mem (st h') = mem (st h)" "clients (st h') = clients (st h)" and ht: "chat.ht_map h' t' (M(u \<mapsto> d))"
    and q: "clients (st h) q \<noteq> None" "uname_at (st h) (q + 16) = Some u" "pass_at (st h) (q + 26) = Some p"
  shows "accounts_in h' t' (A(u \<mapsto> p)) (M(u \<mapsto> d))"
proof -
  have acc0: "account_at h e v r" "dom A = dom M" if "M v = Some e" "A v = Some r" for e v r
    using acc that unfolding accounts_in_def by blast+
  have "account_at h' e v r" if "(M(u \<mapsto> d)) v = Some e" "(A(u \<mapsto> p)) v = Some r" for e v r
  proof (cases "v = u")
    case True
    then show ?thesis using that hn st q by (auto simp: account_at_def uname_at_def pass_at_def)
  next
    case False
    then have a: "account_at h e v r" using that acc0(1) by simp
    then have "hnodes h e \<noteq> None" by (auto simp: account_at_def)
    then have "e \<noteq> d" using new by metis
    then show ?thesis using a hn st by (simp add: account_at_def uname_at_def pass_at_def)
  qed
  moreover have "dom A = dom M" using acc unfolding accounts_in_def by blast
  ultimately show ?thesis using ht unfolding accounts_in_def by simp
qed

end
