(* ===== verification/ChatCreateSpec.thy ===== *)
theory ChatCreateSpec
  imports ChatKeeps
begin

lemma signals_last: "z\<lparr>signals := a, objects := b\<rparr> = z\<lparr>objects := b, signals := a\<rparr>"
  by (rule chat_state.equality) simp_all

lemma nkey_same_mem: "hnodes h' = hnodes h \<Longrightarrow> mem (st h') = mem (st h) \<Longrightarrow> chat.nkey h' = chat.nkey h"
proof
  fix d
  assume "hnodes h' = hnodes h" "mem (st h') = mem (st h)"
  then show "chat.nkey h' d = chat.nkey h d" by (cases "hnodes h d") (simp_all add: chat.nkey_def uname_at_def)
qed

lemma accounts_set_htable:
  assumes ok: "server_ok h" and o: "objects (st h) p_objects = Some objs" and acc: "accounts_in h t A M"
    and h': "h' = hwith_more h z" "z = put2 f k (set_objs p_objects (objs\<lparr>o_htable := t\<rparr>) (st h))" and pn: "p_objects \<noteq> NULL"
  shows "accounts h' p_objects A" "keeps p_objects (st h) (st h')"
proof -
  have env: "env_step h h'" unfolding h'(1) by simp
  have "layout_ok (brk h') (st h')" using ok pn unfolding h' server_ok_def by (simp add: layout_ok_def)
  then have "server_ok h'" by (rule env_step_server_ok [OF env ok])
  moreover have "accounts_in h' t A M" by (rule accounts_in_same [OF acc env]) (simp_all add: h')
  moreover have "t \<noteq> NULL" using acc ht_map_nonnull unfolding accounts_in_def by blast
  ultimately show "accounts h' p_objects A" unfolding accounts_def by (auto simp: h')
  show "keeps p_objects (st h) (st h')" by (rule keeps_same_mem) (use o in \<open>auto simp: h'\<close>)
qed

lemma client_mem_undo:
  assumes "layout_ok (brk h) z" "n \<le> 10" "k \<le> 25"
  shows "(\<lambda>a. if brk h + 16 \<le> a \<and> a < brk h + 52 then None else client_mem (mem z) (brk h) n u k p a) = mem z"
proof
  fix a
  show "(if brk h + 16 \<le> a \<and> a < brk h + 52 then None else client_mem (mem z) (brk h) n u k p a) = mem z a"
  proof (cases "brk h + 16 \<le> a \<and> a < brk h + 52")
    case True
    then have "mem z a = None" using layout_okD(3) [OF assms(1), of a] by linarith
    then show ?thesis using True by simp
  next
    case False
    then show ?thesis using assms(2,3) by (auto simp: client_mem_def overlay_def zeroed_def)
  qed
qed

text \<open>
  The name and the password are cut to the lengths the packet declares. A new name is added and
  acknowledged with the next session number; for a known name the server replies with an error
  and forgets the new client.
\<close>

lemma create_account_spec:
  assumes acc: "accounts h p_objects A" and conn: "conn_ok (st h) p_conn f p_objects" and room: "cap_room h p_objects"
    and pk: "init_pack (st h) pk ul u pl p" and len: "unat ul < 10" "unat pl < 25"
    and o: "objects (st h) p_objects = Some objs"
  defines "u' \<equiv> take (unat ul + 1) u" and "p' \<equiv> take (unat pl + 1) p"
  shows "\<exists>h' t. create_account p_conn pk h = Some h' \<and> keeps p_objects (st h) (st h')
     \<and> objects (st h') p_objects = Some (objs\<lparr>o_session_id := o_session_id objs + 1, o_htable := t\<rparr>)
     \<and> (if A u' = None then accounts h' p_objects (A(u' \<mapsto> p'))
            \<and> trace (st h') = trace (st h) @ [Send f (init_ack INIT ACKNOWLEDGE (o_session_id objs + 1)), Close f]
        else accounts h' p_objects A
            \<and> trace (st h') = trace (st h) @ [Send f (failure FAILURE (of_int SERVER_ERROR)), Close f])
     \<and> (cap_ok h p_objects A \<longrightarrow> cap_ok h' p_objects (if A u' = None then A(u' \<mapsto> p') else A))"
proof -
  obtain c sp s where c: "p_conn \<noteq> NULL" "p_objects \<noteq> NULL" "conns (st h) p_conn = Some c" "conn_objects c = p_objects"
    "conn_fd c = f" "sigs_free (st h) p_objects sp s"
    using conn by (rule conn_okE) blast
  have sp: "o_signals objs = sp" using c(6) o by (simp add: sigs_free_def)
  obtain h1 t where 1: "ensure_htable p_objects h = Some h1" "t \<noteq> NULL"
     "st h1 = set_objs p_objects (objs\<lparr>o_htable := t\<rparr>) (st h)"
     "accounts h1 p_objects A" "cap_room h1 p_objects" "brk h \<le> brk h1"
     "cap_ok h p_objects A \<Longrightarrow> cap_ok h1 p_objects A"
    using ensure_htable_spec [OF acc c(6) o c(2) room] by blast
  have ok1: "server_ok h1" "layout_ok (brk h1) (st h1)" "0 < brk h1"
    using 1(4) hheap_ok_fresh(7) by (auto simp: accounts_def server_ok_def)
  have sf1: "sigs_free (st h1) p_objects sp s" using c(6) o 1(3) by (simp add: sigs_free_def)
  have o1: "objects (st h1) p_objects = Some (objs\<lparr>o_htable := t\<rparr>)" using 1(3) by simp
  have keep1: "keeps p_objects (st h) (st h1)" by (rule keeps_same_mem) (use o in \<open>auto simp: 1(3)\<close>)
  note pk1 = keeps_init_pack [OF keep1 pk]
  have c1: "conns (st h1) p_conn = Some c" using c(3) 1(3) by simp
  let ?n = "unat ul + 1" and ?k = "unat pl + 1" and ?q = "brk h1"
  let ?objs = "objs\<lparr>o_htable := t, o_session_id := o_session_id objs + 1\<rparr>"
  let ?x = "\<lparr>session_id = o_session_id objs + 1, p_addr = conn_addr c, fd = conn_fd c\<rparr>"
  let ?m = "client_mem (mem (st h1)) ?q ?n u ?k p"
  define h2 where "h2 = with_client h1 p_objects ?objs ?x ?m"
  obtain hc where 2: "calloc_client h1 = (?q, hc)" "init_client p_conn p_objects pk ?q hc = Some h2"
    using init_client_spec [OF ok1(1) sf1 o1 c1 pk1 len] by (auto simp: h2_def)
  have nk: "?n \<le> 10" "?k \<le> 25" using len by simp_all
  obtain M where M: "accounts_in h1 t A M" using 1(2,4) o1 by (auto simp: accounts_def)
  have acc2: "accounts h2 p_objects A" "keeps p_objects (st h1) (st h2)" "accounts_in h2 t A M"
    using accounts_with_client [OF 1(4) o1 c(2) _ _ nk, where objs' = ?objs and x = ?x and u = u and p = p] M by (simp_all add: h2_def)
  have z2: "conns (st h2) = conns (st h)" "signals (st h2) = signals (st h)" "trace (st h2) = trace (st h)"
     "objects (st h2) p_objects = Some ?objs" "clients (st h2) ?q = Some ?x" "mem (st h2) = ?m"
    using 1(3) by (simp_all add: h2_def)
  have u0: "0 \<notin> set u" "length u < 10" "0 \<notin> set p" "length p < 25"
    using pk read_str_end read_str_length unfolding init_pack_def UNAME_MAX_def PASS_MAX_def by blast+
  have lens: "length u' < 10" "length p' < 25" using u0 by (simp_all add: u'_def p'_def)
  note strs = client_mem_strings [OF u0(1,3) nk lens [unfolded u'_def p'_def], of "mem (st h1)" ?q]
  have name: "uname_at (st h2) (?q + 16) = Some u'" and pass: "pass_at (st h2) (?q + 26) = Some p'"
    using strs z2(6) by (simp_all add: uname_at_def pass_at_def UNAME_MAX_def PASS_MAX_def u'_def p'_def)
  have sf2: "sigs_free (st h2) p_objects sp s" using c(6) z2(2,4) sp by (simp add: sigs_free_def)
  let ?zl = "(st h2)\<lparr>signals := (signals (st h2))(sp \<mapsto> s\<lparr>client_mutex := True\<rparr>)\<rparr>"
  let ?hl = "hwith_more h2 ?zl"
  have lock: "on_st (lock_client p_objects) h2 = Some ?hl"
    by (rule on_st_Some) (rule sigs_free_lock(1) [OF sf2])
  have unlock: "unlock_client p_objects (z\<lparr>signals := signals ?zl\<rparr>) = Some (z\<lparr>signals := signals (st h2)\<rparr>)"
    if "objects z p_objects = Some y" "o_signals y = sp" for z y
    using unlock_restores(1) [OF sf2, of "z\<lparr>signals := signals ?zl\<rparr>" y] that by simp
  have "accounts_in ?hl t A M" by (rule accounts_in_same [OF acc2(3)]) simp_all
  then have ht: "chat.ht_map ?hl t M" by (simp add: accounts_in_def)
  have mem: "never_oom ?hl" using acc2(1) by (simp add: accounts_def server_ok_def)
  have key: "uname_at (st ?hl) (?q + 16) = Some u'" using name by (simp add: uname_at_def)
  have cap: "\<exists>T. tables ?hl t = Some T \<and> unat (capacity T) * 6 < 2 ^ 32"
  proof -
    obtain T where "tables h1 t = Some T"
    proof (rule chat.ht_mapE [OF ht])
      fix n a bs As B assume "chat.ht_at ?hl t n a bs As B"
      then show thesis using that by (auto simp: chat.ht_at_def table_at_def h2_def)
    qed
    then show ?thesis using 1(5) o1 by (auto simp: cap_room_def h2_def)
  qed
  have qn: "?q \<noteq> NULL" using ok1(3) by simp
  have dom: "A u' = None \<longleftrightarrow> M u' = None" using M unfolding accounts_in_def by (metis domIff)
  note ins = chat.htable_insert_spec [OF ht mem key qn cap, where call_free = call_free and f = CLIENT_FREE]
  have run0: "create_account p_conn pk h = do {
      (insert_ok, t, h) \<leftarrow> htable_insert call_hash call_cmp call_free t (?q + 16) ?q CLIENT_FREE ?hl;
      h \<leftarrow> on_st (upd_objects p_objects (\<lambda>x. x\<lparr>o_htable := t\<rparr>)) h;
      if \<not> insert_ok then do {
        h \<leftarrow> on_st (unlock_client p_objects) h;
        h \<leftarrow> on_st (send_fail_pack p_conn SERVER_ERROR) h;
        on_st (client_free ?q) h
      } else do {
        h \<leftarrow> on_st (unlock_client p_objects) h;
        x \<leftarrow> clients (st h) ?q;
        on_st (\<lambda>z. Some (put (Close (fd x))
                (put (Send (fd x) (init_ack INIT ACKNOWLEDGE (session_id x))) z))) h
      }}"
    using c(1-4) 1(1) 2 qn lock z2(4) by (simp add: create_account_def)
  show ?thesis
  proof (cases "M u'")
    case None
    then obtain t' h5 d where 5: "htable_insert call_hash call_cmp call_free t (?q + 16) ?q CLIENT_FREE ?hl = Some (True, t', h5)"
      "hnodes ?hl d = None" "hnodes h5 = (hnodes ?hl)(d \<mapsto> \<lparr>h_key = ?q + 16, h_value = ?q, h_free = CLIENT_FREE\<rparr>)"
      "chat.ht_map h5 t' (M(u' \<mapsto> d))" "st h5 = st ?hl" "never_oom h5" "brk ?hl \<le> brk h5"
      "\<exists>T T'. tables ?hl t = Some T \<and> tables h5 t' = Some T' \<and> (capacity T' = capacity T
             \<or> unat (capacity T') = 2 * unat (capacity T) \<and> unat (capacity T) * 3 div 4 = card (dom M))"
      using ins by auto
    let ?z6 = "put2 f (init_ack INIT ACKNOWLEDGE (o_session_id objs + 1)) (set_objs p_objects (?objs\<lparr>o_htable := t'\<rparr>) (st h2))"
    let ?h6 = "hwith_more h5 ?z6" and ?h5 = "hwith_more h5 (st h2)"
    have "upd_objects p_objects (\<lambda>x. x\<lparr>o_htable := t'\<rparr>) (st h5)
        = Some ((set_objs p_objects (?objs\<lparr>o_htable := t'\<rparr>) (st h2))\<lparr>signals := signals ?zl\<rparr>)"
      using 5(5) z2(4) by (simp add: upd_objects_def set_objs_def signals_last)
    moreover have "unlock_client p_objects ((set_objs p_objects (?objs\<lparr>o_htable := t'\<rparr>) (st h2))\<lparr>signals := signals ?zl\<rparr>)
        = Some (set_objs p_objects (?objs\<lparr>o_htable := t'\<rparr>) (st h2))"
      using unlock [of "set_objs p_objects (?objs\<lparr>o_htable := t'\<rparr>) (st h2)"] sp by (simp add: set_objs_def)
    ultimately have run: "create_account p_conn pk h = Some ?h6"
      unfolding run0 using 5(1) z2(5) c(5) by (simp add: on_st_def put_put)
    have acc5: "accounts_in ?h5 t' (A(u' \<mapsto> p')) (M(u' \<mapsto> d))"
    proof (rule accounts_insert [OF acc2(3)])
      show "hnodes h2 d = None" using 5(2) by simp
      show "hnodes ?h5 = (hnodes h2)(d \<mapsto> \<lparr>h_key = ?q + 16, h_value = ?q, h_free = CLIENT_FREE\<rparr>)" using 5(3) by simp
      show "chat.ht_map ?h5 t' (M(u' \<mapsto> d))"
      proof (rule ht_map_env [OF _ 5(4)])
        fix k e assume "(M(u' \<mapsto> d)) k = Some e"
        then have "chat.nkey h5 e = Some k" using 5(4) by (metis chat.ht_mapE)
        then show "chat.nkey ?h5 e = Some k" using nkey_same_mem [of ?h5 h5] 5(5) by simp
      qed simp
    qed (use z2(5) name pass in simp_all)
    have "hheap_ok ?h5" by (rule env_step_hheap_ok [OF env_step_more ht_map_hheap_ok [OF 5(4)]])
    moreover have "layout_ok (brk h2) (st h2)" using acc2(1) by (simp add: accounts_def server_ok_def)
    then have "layout_ok (brk h5) (st h2)" by (rule layout_ok_mono) (use 5(7) in simp)
    ultimately have "server_ok ?h5" using 5(6) by (simp add: server_ok_def)
    moreover have "objects (st ?h5) p_objects = Some ?objs" using z2(4) by simp
    moreover have "?h6 = hwith_more ?h5 ?z6" by simp
    moreover have "?z6 = put2 f (init_ack INIT ACKNOWLEDGE (o_session_id objs + 1))
        (set_objs p_objects (?objs\<lparr>o_htable := t'\<rparr>) (st ?h5))" by simp
    ultimately have 6: "accounts ?h6 p_objects (A(u' \<mapsto> p'))" "keeps p_objects (st ?h5) (st ?h6)"
      using accounts_set_htable [OF _ _ acc5 _ _ c(2)] by blast+
    then have "keeps p_objects (st h) (st ?h6)"
      using keeps_trans [OF keep1 keeps_trans [OF acc2(2)]] by simp
    moreover have "cap_ok ?h6 p_objects (A(u' \<mapsto> p'))" if "cap_ok h p_objects A"
    proof -
      obtain T T' where T: "tables h1 t = Some T" "tables h5 t' = Some T'" "capacity T' = capacity T
             \<or> unat (capacity T') = 2 * unat (capacity T) \<and> unat (capacity T) * 3 div 4 = card (dom M)"
        using 5(8) by (auto simp: h2_def)
      have "unat (capacity T) \<le> 3 * card (dom A) + 2"
        using 1(7) [OF that] o1 T(1) unfolding cap_ok_def by fastforce
      moreover have "dom A = dom M" using M unfolding accounts_in_def by blast
      moreover have "card (dom (A(u' \<mapsto> p'))) = Suc (card (dom A))"
      proof -
        have "finite (dom M)" by (rule chat.ht_map_finite [OF ht])
        then show ?thesis using \<open>dom A = dom M\<close> dom None by (simp add: domIff)
      qed
      ultimately have "unat (capacity T') \<le> 3 * card (dom (A(u' \<mapsto> p'))) + 2" using T(3) by auto
      then show ?thesis using T(2) by (simp add: cap_ok_def)
    qed
    ultimately show ?thesis using run 6(1) None dom z2(3)
      by (intro exI [of _ ?h6] exI [of _ t']) simp
  next
    case (Some d)
    then have 5: "htable_insert call_hash call_cmp call_free t (?q + 16) ?q CLIENT_FREE ?hl = Some (False, t, ?hl)"
      using ins by simp
    let ?z6 = "put2 f (failure FAILURE (of_int SERVER_ERROR)) (st h2)"
    let ?z7 = "put2 f (failure FAILURE (of_int SERVER_ERROR)) (set_objs p_objects ?objs (st h1))"
    let ?h7 = "hwith_more h2 ?z7"
    have "upd_objects p_objects (\<lambda>x. x\<lparr>o_htable := t\<rparr>) ?zl = Some ?zl"
      using z2(4) by (simp add: upd_objects_def fun_upd_idem)
    moreover have "unlock_client p_objects ?zl = Some (st h2)"
      using unlock [of "st h2"] z2(4) sp by simp
    moreover have "send_fail_pack p_conn SERVER_ERROR (st h2) = Some ?z6"
      using z2(1) c(3,5) by (simp add: send_fail_pack_def put_put)
    moreover have "client_free ?q ?z6 = Some ?z7"
    proof -
      have "?z6\<lparr>clients := (clients (st h2))(?q := None), mem := mem (st h1)\<rparr> = ?z7"
      proof -
        have "clients (st h1) ?q = None" using layout_okD(5) [OF ok1(2), of ?q] by force
        then show ?thesis by (intro chat_state.equality) (auto simp: h2_def put2_def fun_upd_idem_iff set_objs_def)
      qed
      moreover have "(\<lambda>a. if ?q + 16 \<le> a \<and> a < ?q + 52 then None else mem (st h2) a) = mem (st h1)"
        unfolding z2(6) by (rule client_mem_undo [OF ok1(2) nk])
      ultimately show ?thesis using qn z2(5) by (simp add: client_free_def cong: if_cong)
    qed
    ultimately have run: "create_account p_conn pk h = Some ?h7"
      unfolding run0 using 5 by (simp add: on_st_def)
    have env: "env_step h1 ?h7" by (simp add: env_step_def h2_def with_client_def)
    have lay: "layout_ok (brk h2) ?z7" using layout_ok_mono [OF ok1(2), of "brk h2"] c(2)
      by (simp add: h2_def layout_ok_def)
    have "accounts_in ?h7 t A M" by (rule accounts_in_same [OF M env]) simp_all
    moreover have "server_ok ?h7" using env_step_server_ok [OF env ok1(1)] lay by simp
    ultimately have "accounts ?h7 p_objects A" using 1(2) by (auto simp: accounts_def)
    moreover have "keeps p_objects (st h1) (st ?h7)" by (rule keeps_same_mem) (use o1 in auto)
    moreover have "cap_ok ?h7 p_objects A" if "cap_ok h p_objects A"
      using 1(7) [OF that] o1 by (simp add: cap_ok_def h2_def)
    moreover obtain y where "A u' = Some y" using Some dom by auto
    ultimately show ?thesis using run keeps_trans [OF keep1, of "st ?h7"] 1(3)
      by (intro exI [of _ ?h7] exI [of _ t]) simp
  qed
qed

end
