(* ===== verification/ChatUpdate.thy ===== *)
theory ChatUpdate
  imports ChatCreateSpec
begin

text \<open>Change of a password and removal of an account.\<close>

text \<open>The client of each account is its own.\<close>

lemma accounts_other:
  assumes lay: "layout_ok b (st h)" and acc: "accounts_in h t A M" and d: "M u = Some d"
    and q: "hnodes h d = Some \<lparr>h_key = q + 16, h_value = q, h_free = CLIENT_FREE\<rparr>" "clients (st h) q \<noteq> None"
      "uname_at (st h) (q + 16) = Some u"
    and mem: "\<And>a. a < q + 16 \<or> q + 52 \<le> a \<Longrightarrow> mem (st h') a = mem (st h) a"
    and cl: "\<And>c. c \<noteq> q \<Longrightarrow> clients (st h) c \<noteq> None \<Longrightarrow> clients (st h') c \<noteq> None"
    and hn: "\<And>e. e \<noteq> d \<Longrightarrow> hnodes h' e = hnodes h e"
    and e: "M v = Some e" "A v = Some r" "v \<noteq> u"
  shows "account_at h' e v r"
proof -
  have acc_e: "account_at h e v r" using acc e(1,2) unfolding accounts_in_def by blast
  then obtain c where c: "hnodes h e = Some \<lparr>h_key = c + 16, h_value = c, h_free = CLIENT_FREE\<rparr>"
     "clients (st h) c \<noteq> None" "uname_at (st h) (c + 16) = Some v" "pass_at (st h) (c + 26) = Some r"
    unfolding account_at_def by blast
  have cq: "c \<noteq> q" using c(3) q(3) e(3) by auto
  have ed: "e \<noteq> d" using c(1) q(1) cq by auto
  have sep: "c + 56 \<le> q \<or> q + 56 \<le> c" using layout_okD(7) [OF lay c(2) q(2) cq] .
  have "read_str (mem (st h')) (c + 16) UNAME_MAX = read_str (mem (st h)) (c + 16) UNAME_MAX"
    "read_str (mem (st h')) (c + 26) PASS_MAX = read_str (mem (st h)) (c + 26) PASS_MAX"
    by (rule read_str_cong, rule mem, use sep in \<open>auto simp: UNAME_MAX_def PASS_MAX_def\<close>)+
  then show ?thesis using c hn [OF ed] cl [OF cq] unfolding account_at_def uname_at_def pass_at_def by auto
qed

lemma keeps_outside:
  assumes "clients z q \<noteq> None" "conns z' = conns z" "signals z' = signals z" "script z' = script z \<and> gb_run z' = gb_run z \<and> dom (objects z') = dom (objects z)"
    and "objects z' = objects z" "\<And>a. a < q + 16 \<or> q + 52 \<le> a \<Longrightarrow> mem z' a = mem z a"
    and "\<And>c. clients z' c \<noteq> None \<Longrightarrow> clients z c \<noteq> None"
  shows "keeps p_objects z z'"
proof -
  have "pack_at z' pk n \<and> (\<forall>i < n. mem z' (pk + i) = mem z (pk + i))" if p: "pack_at z pk n" for pk n
  proof -
    have "pk + n \<le> q \<or> q + 56 \<le> pk" using p assms(1) unfolding pack_at_def by blast
    then have "mem z' (pk + i) = mem z (pk + i)" if "i < n" for i using that by (intro assms(6)) linarith
    then show ?thesis using p assms(7) unfolding pack_at_def by auto
  qed
  then show ?thesis using assms(2-5) unfolding keeps_def by auto
qed

text \<open>The account that \<open>verify_client\<close> finds.\<close>

lemma verify_client_account:
  assumes acc: "accounts h p_objects A" and conn: "conn_ok (st h) p_conn f p_objects"
    and pk: "pk \<noteq> NULL" "read_str (mem (st h)) (pk + 2) UNAME_MAX = Some u"
      "read_str (mem (st h)) (pk + 13) PASS_MAX = Some p"
    and opt: "opt \<in> {CREATE, LOGIN, DELETE, UPDATE}" and A: "A u = Some p"
  obtains objs M d q where "objects (st h) p_objects = Some objs" "accounts_in h (o_htable objs) A M" "M u = Some d"
    "d \<noteq> NULL" "o_htable objs \<noteq> NULL" "verify_client p_conn pk opt h = Some (d, h)"
    "hnodes h d = Some \<lparr>h_key = q + 16, h_value = q, h_free = CLIENT_FREE\<rparr>" "clients (st h) q \<noteq> None"
    "uname_at (st h) (q + 16) = Some u" "pass_at (st h) (q + 26) = Some p" "q \<noteq> NULL"
proof -
  obtain objs M d where 1: "objects (st h) p_objects = Some objs" "accounts_in h (o_htable objs) A M"
     "M u = Some d" "d \<noteq> NULL" "o_htable objs \<noteq> NULL" "verify_client p_conn pk opt h = Some (d, h)"
    using verify_client_spec [OF acc conn pk opt] A by auto
  have "account_at h d u p" using 1(2,3) A unfolding accounts_in_def by blast
  then obtain q where q: "hnodes h d = Some \<lparr>h_key = q + 16, h_value = q, h_free = CLIENT_FREE\<rparr>" "clients (st h) q \<noteq> None"
    "uname_at (st h) (q + 16) = Some u" "pass_at (st h) (q + 26) = Some p" unfolding account_at_def by blast
  have "q \<noteq> NULL" using acc q(2) layout_okD(4) unfolding accounts_def server_ok_def by fastforce
  with 1 q that show thesis by blast
qed

lemma verify_client_fails:
  assumes acc: "accounts h p_objects A" and conn: "conn_ok (st h) p_conn f p_objects"
    and pk: "pk \<noteq> NULL" "read_str (mem (st h)) (pk + 2) UNAME_MAX = Some u"
      "read_str (mem (st h)) (pk + 13) PASS_MAX = Some p"
    and opt: "opt \<in> {CREATE, LOGIN, DELETE, UPDATE}" and A: "A u \<noteq> Some p"
  shows "verify_client p_conn pk opt h
     = Some (NULL, reply h f (failure FAILURE (of_int (if A u = None then INVALID_UNAME else INVALID_LOGIN))))"
  using verify_client_spec [OF acc conn pk opt] A by (auto split: option.splits)

lemma update_client_spec:
  assumes acc: "accounts h p_objects A" and conn: "conn_ok (st h) p_conn f p_objects"
    and pk: "update_pack (st h) pk u p nl np" and len: "length np \<le> unat nl" "unat nl < 25"
  shows "A u \<noteq> Some p \<Longrightarrow> update_client p_conn pk h
     = Some (reply h f (failure FAILURE (of_int (if A u = None then INVALID_UNAME else INVALID_LOGIN))))"
    "A u = Some p \<Longrightarrow> \<exists>h'. update_client p_conn pk h = Some h' \<and> accounts h' p_objects (A(u \<mapsto> np))
     \<and> keeps p_objects (st h) (st h') \<and> objects (st h') = objects (st h) \<and> tables h' = tables h
     \<and> trace (st h') = trace (st h) @ [Send f (update_ack UPDATE ACKNOWLEDGE), Close f]"
proof -
  obtain c where c: "p_conn \<noteq> NULL" "conns (st h) p_conn = Some c" "conn_fd c = f"
    using conn by (rule conn_okE) blast
  have P: "pk \<noteq> NULL" "read_str (mem (st h)) (pk + 2) UNAME_MAX = Some u" "pack_at (st h) pk 64"
      "read_str (mem (st h)) (pk + 13) PASS_MAX = Some p" "read_str (mem (st h)) (pk + 39) 25 = Some np"
      "mem (st h) (pk + 38) = Some nl"
    using pk by (auto simp: update_pack_def pack_at_def PASS_MAX_def)
  have opt: "UPDATE \<in> {CREATE, LOGIN, DELETE, UPDATE}" by simp
  show "update_client p_conn pk h
     = Some (reply h f (failure FAILURE (of_int (if A u = None then INVALID_UNAME else INVALID_LOGIN))))" if "A u \<noteq> Some p"
    using c(1) verify_client_fails [OF acc conn P(1,2,4) opt that] by (simp add: update_client_def)
  show "\<exists>h'. update_client p_conn pk h = Some h' \<and> accounts h' p_objects (A(u \<mapsto> np))
     \<and> keeps p_objects (st h) (st h') \<and> objects (st h') = objects (st h) \<and> tables h' = tables h
     \<and> trace (st h') = trace (st h) @ [Send f (update_ack UPDATE ACKNOWLEDGE), Close f]" if A: "A u = Some p"
  proof -
    obtain objs M d q where v: "objects (st h) p_objects = Some objs" "accounts_in h (o_htable objs) A M" "M u = Some d"
      "d \<noteq> NULL" "o_htable objs \<noteq> NULL" "verify_client p_conn pk UPDATE h = Some (d, h)"
      "hnodes h d = Some \<lparr>h_key = q + 16, h_value = q, h_free = CLIENT_FREE\<rparr>" "clients (st h) q \<noteq> None"
      "uname_at (st h) (q + 16) = Some u" "pass_at (st h) (q + 26) = Some p" "q \<noteq> NULL"
      by (rule verify_client_account [OF acc conn P(1,2,4) opt A])
    have lay: "layout_ok (brk h) (st h)" and ok: "server_ok h" using acc by (auto simp: accounts_def server_ok_def)
    have sep: "pk + 64 \<le> q \<or> q + 56 \<le> pk" using P(3) v(8) unfolding pack_at_def by blast
    let ?n = "unat nl + 1" and ?m = "overlay (mem (st h)) (q + 26) (unat nl + 1) np"
    have mapped: "mem (st h) (q + 26 + i) \<noteq> None" if "i < ?n" for i
      using layout_okD(6) [OF lay v(8), of "10 + i"] that len(2) by (simp add: add.assoc)
    have copy: "strncpy (mem (st h)) (q + 26) (pk + 39) ?n = Some ?m"
      by (rule strncpy_spec [OF P(5) mapped]) (use sep len(2) in auto)
    let ?z = "put2 f (update_ack UPDATE ACKNOWLEDGE) ((st h)\<lparr>mem := ?m\<rparr>)"
    let ?h = "hwith_more h ?z"
    have run: "update_client p_conn pk h = Some ?h"
      using c v(4,6,7) P(6) copy by (simp add: update_client_def on_st_def upd_mem_def put_put)
    have np0: "0 \<notin> set np" using read_str_end [OF P(5)] by simp
    have "read_str ?m (q + 26) 25 = Some (take ?n np)"
      by (rule read_overlay) (use np0 len in auto)
    then have pass: "pass_at (st ?h) (q + 26) = Some np" using len(1) by (simp add: pass_at_def PASS_MAX_def)
    have name: "uname_at (st ?h) (q + 16) = Some u"
      using v(9) read_overlay_other [of "q + 16" 10 "q + 26" ?n "mem (st h)" np] by (simp add: uname_at_def UNAME_MAX_def)
    have out: "mem (st ?h) a = mem (st h) a" if "a < q + 16 \<or> q + 52 \<le> a" for a
      using that len(2) by (auto simp: overlay_def)
    have cl: "clients (st ?h) = clients (st h)" by simp
    have dom: "dom A = dom M" using v(2) unfolding accounts_in_def by blast
    have "accounts_in ?h (o_htable objs) (A(u \<mapsto> np)) M"
    proof (rule accounts_inI)
      show "dom (A(u \<mapsto> np)) = dom M" using dom v(3) by auto
      show "account_at ?h e w r" if e: "M w = Some e" "(A(u \<mapsto> np)) w = Some r" for w e r
      proof (cases "w = u")
        case True
        then show ?thesis using e v(3,7,8) name pass by (simp add: account_at_def)
      next
        case False
        have w: "A w = Some r" using e(2) False by simp
        show ?thesis
          by (rule accounts_other [OF lay v(2,3,7,8,9) out _ _ e(1) w False]) simp_all
      qed
      show "chat.ht_map ?h (o_htable objs) M" if "\<And>k d. M k = Some d \<Longrightarrow> chat.nkey ?h d = Some k"
        using ht_map_env [of h ?h] that v(2) unfolding accounts_in_def by simp
    qed
    moreover have "layout_ok (brk h) ?z"
      by (rule layout_ok_overlay [OF lay, of _ "q + 26" ?n np]) (use mapped in simp_all)
    then have "server_ok ?h" using env_step_server_ok [OF _ ok, of ?h] by simp
    ultimately have "accounts ?h p_objects (A(u \<mapsto> np))" using v(1,5) by (auto simp: accounts_def)
    moreover have "keeps p_objects (st h) (st ?h)"
      by (rule keeps_outside [OF v(8) _ _ _ _ out]) simp_all
    ultimately show ?thesis using run by (intro exI [of _ ?h]) simp
  qed
qed

lemma remove_client_body_spec:
  assumes acc: "accounts h p_objects A" and conn: "conn_ok (st h) p_conn f p_objects"
    and pk: "init_pack (st h) pk ul u pl p"
  shows "A u \<noteq> Some p \<Longrightarrow> remove_client_body p_conn pk h
     = Some (False, reply h f (failure FAILURE (of_int (if A u = None then INVALID_UNAME else INVALID_LOGIN))))"
    "A u = Some p \<Longrightarrow> \<exists>h'. remove_client_body p_conn pk h = Some (True, h') \<and> accounts h' p_objects (A(u := None))
     \<and> keeps p_objects (st h) (st h') \<and> objects (st h') = objects (st h) \<and> trace (st h') = trace (st h)
     \<and> card (dom (hnodes h) - dom (hnodes h')) = 1 \<and> card (dom (clients (st h)) - dom (clients (st h'))) = 1
     \<and> (\<exists>q. client_of h p_objects A u q \<and> clients (st h') q = None)"
proof -
  obtain c where c: "p_conn \<noteq> NULL" "conns (st h) p_conn = Some c" "conn_objects c = p_objects"
    using conn by (rule conn_okE) blast
  have P: "pk \<noteq> NULL" "read_str (mem (st h)) (pk + 2) UNAME_MAX = Some u"
      "read_str (mem (st h)) (pk + 13) PASS_MAX = Some p"
    using pk by (auto simp: init_pack_def pack_at_def)
  have opt: "DELETE \<in> {CREATE, LOGIN, DELETE, UPDATE}" by simp
  show "remove_client_body p_conn pk h
     = Some (False, reply h f (failure FAILURE (of_int (if A u = None then INVALID_UNAME else INVALID_LOGIN))))"
    if "A u \<noteq> Some p"
    using c(1) verify_client_fails [OF acc conn P opt that] by (simp add: remove_client_body_def)
  show "\<exists>h'. remove_client_body p_conn pk h = Some (True, h') \<and> accounts h' p_objects (A(u := None))
     \<and> keeps p_objects (st h) (st h') \<and> objects (st h') = objects (st h) \<and> trace (st h') = trace (st h)
     \<and> card (dom (hnodes h) - dom (hnodes h')) = 1 \<and> card (dom (clients (st h)) - dom (clients (st h'))) = 1
     \<and> (\<exists>q. client_of h p_objects A u q \<and> clients (st h') q = None)"
    if A: "A u = Some p"
  proof -
    obtain objs M d q where v: "objects (st h) p_objects = Some objs" "accounts_in h (o_htable objs) A M" "M u = Some d"
      "d \<noteq> NULL" "o_htable objs \<noteq> NULL" "verify_client p_conn pk DELETE h = Some (d, h)"
      "hnodes h d = Some \<lparr>h_key = q + 16, h_value = q, h_free = CLIENT_FREE\<rparr>" "clients (st h) q \<noteq> None"
      "uname_at (st h) (q + 16) = Some u" "pass_at (st h) (q + 26) = Some p" "q \<noteq> NULL"
      by (rule verify_client_account [OF acc conn P opt A])
    have lay: "layout_ok (brk h) (st h)" and ok: "server_ok h" using acc by (auto simp: accounts_def server_ok_def)
    have ht: "chat.ht_map h (o_htable objs) M" and dom: "dom A = dom M"
      using v(2) unfolding accounts_in_def by blast+
    obtain h1 where 1: "htable_remove call_hash call_cmp (o_htable objs) (q + 16) h = Some (d, h1)"
       "chat.ht_map h1 (o_htable objs) (M(u := None))" "hnodes h1 = hnodes h" "st h1 = st h" "oom h1 = oom h" "brk h \<le> brk h1"
      using chat.htable_remove_spec [OF ht v(9)] v(3) by auto
    let ?mem = "\<lambda>a. if q + 16 \<le> a \<and> a < q + 52 then None else mem (st h) a"
    let ?z = "(st h)\<lparr>clients := (clients (st h))(q := None), mem := ?mem\<rparr>"
    let ?h = "(hwith_more h1 ?z)\<lparr>hnodes := (hnodes h)(d := None)\<rparr>"
    obtain x where x: "clients (st h) q = Some x" using v(8) by blast
    have "call_free CLIENT_FREE q h1 = Some (hwith_more h1 ?z)"
      using v(11) x 1(4) by (simp add: call_free_def free_eff_def on_st_def client_free_def)
    then have run: "remove_client_body p_conn pk h = Some (True, ?h)"
      using c v(1,4,6,7,11) 1(1,3)
      by (simp add: remove_client_body_def CLIENT_FREE_def heap_defs)
    have out: "mem (st ?h) a = mem (st h) a" if "a < q + 16 \<or> q + 52 \<le> a" for a
      using that by auto
    have hn: "hnodes ?h e = hnodes h e" if "e \<noteq> d" for e using that by simp
    have okh: "hheap_ok ?h"
    proof (rule hheap_okI)
      have 1: "hheap_ok h1" using ht_map_hheap_ok [OF 1(2)] .
      show "lheap_ok ?h" using hheap_ok_lheap [OF 1] by (simp add: lheap_ok_def)
      show "0 < a \<and> a < brk ?h" if "hnodes ?h a = Some y" for a y
        using that hheap_ok_below(1) [OF 1, of a y] \<open>hnodes h1 = hnodes h\<close> by (simp split: if_splits)
      show "0 < a \<and> a < brk ?h" if "tables ?h a = Some y" for a y
        using that hheap_ok_below(2) [OF 1, of a y] by simp
      show "0 < a \<and> a < brk ?h" if "arrs ?h a = Some y" for a y
        using that hheap_ok_below(3) [OF 1, of a y] by simp
    qed
    have "accounts_in ?h (o_htable objs) (A(u := None)) (M(u := None))"
    proof (rule accounts_inI)
      show "dom (A(u := None)) = dom (M(u := None))" using dom by auto
      show "account_at ?h e w r" if e: "(M(u := None)) w = Some e" "(A(u := None)) w = Some r" for w e r
      proof -
        have w: "M w = Some e" "A w = Some r" "w \<noteq> u" using e by (auto split: if_splits)
        show ?thesis
          by (rule accounts_other [OF lay v(2,3,7,8,9) out _ hn w]) simp_all
      qed
      show "chat.ht_map ?h (o_htable objs) (M(u := None))"
        if "\<And>k e. (M(u := None)) k = Some e \<Longrightarrow> chat.nkey ?h e = Some k"
        by (rule ht_map_cong [OF _ _ _ _ okh 1(2) that]) simp_all
    qed
    moreover have "layout_ok (brk ?h) ?z"
    proof -
      have keep: "mem ?z (a + 16 + i) \<noteq> None" if "clients ?z a \<noteq> None" "i < 36" for a i
      proof -
        have a: "a \<noteq> q" "clients (st h) a \<noteq> None" using that(1) by (auto split: if_splits)
        then show ?thesis using layout_okD(7) [OF lay a(2) v(8) a(1)] layout_okD(6) [OF lay a(2) that(2)] that(2) by auto
      qed
      have "layout_ok (brk h) ?z" unfolding layout_ok_def
      proof (intro conjI allI impI)
        fix a i :: nat assume "clients ?z a \<noteq> None" "i < 36"
        then show "mem ?z (a + 16 + i) \<noteq> None" by (rule keep)
      qed (use layout_okD [OF lay] in \<open>auto split: if_splits\<close>)
      then show ?thesis using layout_ok_mono 1(6) by simp
    qed
    then have "server_ok ?h" using okh ok 1(5) by (simp add: server_ok_def)
    ultimately have "accounts ?h p_objects (A(u := None))" using v(1,5) by (auto simp: accounts_def)
    moreover have "keeps p_objects (st h) (st ?h)"
      by (rule keeps_outside [OF v(8) _ _ _ _ out]) (auto split: if_splits)
    moreover have "dom (hnodes h) - dom ((hnodes h)(d := None)) = {d}"
      "dom (clients (st h)) - dom ((clients (st h))(q := None)) = {q}" using v(7) x by auto
    moreover have "client_of h p_objects A u q" using v(1-3,7) unfolding client_of_def by blast
    then have "\<exists>q. client_of h p_objects A u q \<and> clients (st ?h) q = None" by (intro exI [of _ q]) simp
    ultimately show ?thesis using run by (intro exI [of _ ?h]) simp
  qed
qed

text \<open>Its last statement unlocks \<open>client_mutex\<close>, which nothing has locked.\<close>

lemma remove_client_unlocks:
  assumes acc: "accounts h p_objects A" and conn: "conn_ok (st h) p_conn f p_objects"
    and pk: "init_pack (st h) pk ul u pl p" and A: "A u = Some p"
  shows "remove_client p_conn pk h = None"
proof -
  obtain h' where h': "remove_client_body p_conn pk h = Some (True, h')" "keeps p_objects (st h) (st h')"
    using remove_client_body_spec(2) [OF acc conn pk A] by blast
  have "conn_ok (st h') p_conn f p_objects" using keeps_conn_ok [OF h'(2) conn] .
  then show ?thesis using h'(1)
    by (auto simp: remove_client_def conn_ok_def on_st_def mutex_unlock_def)
qed

end
