(* ===== verification/ChatActions.thy ===== *)
theory ChatActions
  imports ChatUpdate
begin

text \<open>
  What a logged-in client can do (ChatRoom/src/server_client_action.c) and the dispatch of a new
  connection, \<open>handle_clients\<close>. Each \<open>recv\<close> takes the next entry of the thread's script; a script
  that ends means a call that never returns. The receive buffer of \<open>recv_msgs\<close> is not initialised,
  so reading a byte that was not received is undefined, while \<open>handle_clients\<close> clears its buffer.

  \<open>recv_msgs\<close>, \<open>handle_file\<close> and \<open>handle_download\<close> call each other; the fuel of \<open>recv_msgs\<close>
  bounds the depth. Every call takes at least one entry of the script, so fuel above the length
  of the script is enough. A download reads the contents the file has when it is opened.
\<close>

definition FILE_OPTIONS :: byte where "FILE_OPTIONS = 9"
definition REQUEST :: byte where "REQUEST = 1"
definition EOF :: int where "EOF = -1"
definition BUFF_SIZE :: nat where "BUFF_SIZE = 1024"

text \<open>The bytes of \<open>./server_files/\<close>.\<close>

definition server_files :: "byte list" where
  "server_files = [46, 47, 115, 101, 114, 118, 101, 114, 95, 102, 105, 108, 101, 115, 47]"

definition nth_byte :: "byte list \<Rightarrow> nat \<Rightarrow> byte option" where
  "nth_byte bs i = (if i < length bs then Some (bs ! i) else None)"

section \<open>Receiving\<close>

text \<open>
  The loop \<open>while (-1 == recv(.., MSG_DONTWAIT)) if (!run) return;\<close>: the bytes received, or
  \<open>None\<close> inside when it returns, with the rest of the script and the flag.
\<close>

fun poll :: "recv_result list \<Rightarrow> (byte list option \<times> recv_result list \<times> bool) option" where
  "poll [] = None"
| "poll (Got r bs # es) = Some (Some (take BUFF_SIZE bs), es, r)"
| "poll (Fail r # es) = (if r then poll es else Some (None, es, r))"

definition recv_poll :: "chat_state \<Rightarrow> (byte list option \<times> chat_state) option" where
  "recv_poll z = map_option (\<lambda>(b, es, r). (b, z\<lparr>script := es, gb_run := r\<rparr>)) (poll (script z))"

section \<open>Directory, upload and download\<close>

fun send_entries :: "int \<Rightarrow> byte list list \<Rightarrow> chat_state \<Rightarrow> chat_state" where
  "send_entries f [] z = z"
| "send_entries f (name # ds) z =
     (if take 1 name = [46] then send_entries f ds z
      else send_entries f ds (put (Send f (dir_files FILE_OPTIONS (of_nat (min 255 (length name))) (take 255 name))) z))"

definition send_dir :: "ptr \<Rightarrow> chat_state \<Rightarrow> chat_state option" where
  "send_dir p_client z = (case dir z of None \<Rightarrow> Some z | Some ds \<Rightarrow> do {
     x \<leftarrow> clients z p_client;
     Some (put (Send (fd x) (eof (of_int EOF))) (send_entries (fd x) ds z))
   })"

text \<open>The path that \<open>snprintf(filename, name_len + 16, ..)\<close> builds.\<close>

definition file_path :: "byte \<Rightarrow> byte list \<Rightarrow> byte list" where
  "file_path name_len name = take (unat name_len + 15) (server_files @ name)"

text \<open>
  The loop of \<open>handle_file\<close>: \<open>recv_out\<close> is unsigned, so a failed \<open>recv\<close> counts as \<open>2 ^ 32 - 1\<close>
  bytes; \<open>fprintf("%s")\<close> stops at the first zero byte.
\<close>

fun upload_loop :: 
  "recv_result list \<Rightarrow> bool \<Rightarrow> 32 word \<Rightarrow> 32 word \<Rightarrow> byte list \<Rightarrow> (byte list \<times> recv_result list \<times> bool) option" where
  "upload_loop [] run file_size running_size out = (if run then None else Some (out, [], run))"
| "upload_loop (Fail r # es) run file_size running_size out =
     (if \<not> run then Some (out, Fail r # es, run)
      else if running_size - 1 = file_size then Some (out, es, r)
      else upload_loop es r file_size (running_size - 1) out)"
| "upload_loop (Got r bs # es) run file_size running_size out =
     (if \<not> run then Some (out, Got r bs # es, run)
      else if take BUFF_SIZE bs = [] then Some (out, es, r)
      else if running_size + of_nat (length (take BUFF_SIZE bs)) = file_size
      then Some (out @ takeWhile (\<lambda>c. c \<noteq> 0) (take BUFF_SIZE bs), es, r)
      else upload_loop es r file_size (running_size + of_nat (length (take BUFF_SIZE bs)))
             (out @ takeWhile (\<lambda>c. c \<noteq> 0) (take BUFF_SIZE bs)))"

definition handle_file :: 
  "(ptr \<Rightarrow> ptr \<Rightarrow> chat_state \<Rightarrow> chat_state option) \<Rightarrow> ptr \<Rightarrow> byte list \<Rightarrow> ptr \<Rightarrow> chat_state \<Rightarrow> chat_state option" where
  "handle_file recv_msgs p_conn pack p_client z =
     (if p_conn = NULL then Some z
      else do {
        name_len \<leftarrow> nth_byte pack 5;
        name \<leftarrow> cstr (drop 6 pack);
        let filename = file_path name_len name;
        if \<not> can_open z filename then Some z
        else do {
          c \<leftarrow> conns z p_conn;
          _ \<leftarrow> objects z (conn_objects c);
          let z = z\<lparr>files := (files z)(filename \<mapsto> [])\<rparr>;
          let file_size = word_rcat (rev (take 4 (drop 1 pack)));
          (out, es, r) \<leftarrow> upload_loop (script z) (gb_run z) file_size 0 [];
          let z = z\<lparr>script := es, gb_run := r, files := (files z)(filename \<mapsto> out)\<rparr>;
          recv_msgs p_conn p_client z
        }
      })"

text \<open>\<open>fgets\<close> with room for \<open>n\<close> characters: the terminator takes one; it stops after a newline.\<close>

fun read_line :: "nat \<Rightarrow> byte list \<Rightarrow> byte list \<times> byte list" where
  "read_line 0 bs = ([], bs)"
| "read_line (Suc n) [] = ([], [])"
| "read_line (Suc n) (b # bs) = (if b = 10 then ([b], bs) else let (l, r) = read_line n bs in (b # l, r))"

definition fgets :: "nat \<Rightarrow> byte list \<Rightarrow> byte list \<times> byte list" where
  "fgets n bs = read_line (n - 1) bs"

lemma read_line_append: "read_line n bs = (l, r) \<Longrightarrow> bs = l @ r \<and> length l \<le> n"
  by (induction n bs arbitrary: l r rule: read_line.induct) (auto split: if_splits prod.splits)

lemma read_line_nonempty: "0 < n \<Longrightarrow> bs \<noteq> [] \<Longrightarrow> read_line n bs = (l, r) \<Longrightarrow> l \<noteq> []"
  by (cases n; cases bs) (auto split: if_splits prod.splits)

lemma fgets_props:
  assumes "bs \<noteq> []" "fgets BUFF_SIZE bs = (l, r)"
  shows "bs = l @ r" "l \<noteq> []" "length l < BUFF_SIZE" "length r < length bs"
proof -
  have 1: "read_line 1023 bs = (l, r)" using assms(2) by (simp add: fgets_def BUFF_SIZE_def)
  from read_line_append [OF this] show "bs = l @ r" "length l < BUFF_SIZE" by (auto simp: BUFF_SIZE_def)
  show "l \<noteq> []" using read_line_nonempty [OF _ assms(1) 1] by simp
  with \<open>bs = l @ r\<close> show "length r < length bs" by simp
qed

definition pad :: "nat \<Rightarrow> byte list \<Rightarrow> byte list" where
  "pad n bs = take n (bs @ replicate n 0)"

function download_loop :: 
  "(ptr \<Rightarrow> ptr \<Rightarrow> chat_state \<Rightarrow> chat_state option) \<Rightarrow> ptr \<Rightarrow> ptr \<Rightarrow> byte list \<Rightarrow> chat_state \<Rightarrow> chat_state option" where
  "download_loop recv_msgs p_conn p_client [] z = Some z"
| "download_loop recv_msgs p_conn p_client (b # bs) z = (case fgets BUFF_SIZE (b # bs) of (line, rest) \<Rightarrow> do {
     x \<leftarrow> clients z p_client;
     let failed = send_bad z (length (trace z));
     let z = put (Send (fd x) (raw (pad BUFF_SIZE line))) z;
     z \<leftarrow> (if failed then recv_msgs p_conn p_client z else Some z);
     download_loop recv_msgs p_conn p_client rest z
   })"
  by pat_completeness auto

termination
  by (relation "measure (\<lambda>(_, _, _, bs, _). length bs)")
    (auto dest!: fgets_props(4) [OF list.simps(3) sym, simplified])

declare download_loop.simps(2) [simp del]

definition handle_download :: 
  "(ptr \<Rightarrow> ptr \<Rightarrow> chat_state \<Rightarrow> chat_state option) \<Rightarrow> ptr \<Rightarrow> byte list \<Rightarrow> ptr \<Rightarrow> chat_state \<Rightarrow> chat_state option" where
  "handle_download recv_msgs p_conn buff p_client z =
     (if p_conn = NULL then Some z
      else do {
        name_len \<leftarrow> nth_byte buff 1;
        name \<leftarrow> cstr (drop 2 buff);
        case files z (file_path name_len name) of
          None \<Rightarrow> Some z
        | Some contents \<Rightarrow> do {
            z \<leftarrow> download_loop recv_msgs p_conn p_client contents z;
            x \<leftarrow> clients z p_client;
            Some (put (Close (fd x)) z)
          }
      })"

section \<open>The message loop\<close>

fun recv_msgs :: "nat \<Rightarrow> ptr \<Rightarrow> ptr \<Rightarrow> chat_state \<Rightarrow> chat_state option" where
  "recv_msgs 0 p_conn p_client z = None"
| "recv_msgs (Suc fuel) p_conn p_client z = do {
     x \<leftarrow> clients z p_client;
     (received, z) \<leftarrow> recv_poll z;
     case received of
       None \<Rightarrow> Some z
     | Some buff \<Rightarrow> do {
         op \<leftarrow> nth_byte buff 0;
         if op = DISCONNECT then Some (put (Close (fd x)) z)
         else if op = MSG then recv_msgs fuel p_conn p_client z
         else if op = FILE_UPLOAD then handle_file (recv_msgs fuel) p_conn (take 261 buff) p_client z
         else if op = FILE_DOWNLOAD then do {
           b \<leftarrow> nth_byte buff 1;
           if b = REQUEST then do {
             z \<leftarrow> send_dir p_client z;
             recv_msgs fuel p_conn p_client z
           } else handle_download (recv_msgs fuel) p_conn buff p_client z
         } else send_fail_pack p_conn SERVER_ERROR z
       }
   }"

section \<open>A new connection\<close>

text \<open>A packet copied into a local variable.\<close>

definition push_local :: "byte list \<Rightarrow> server \<Rightarrow> ptr \<times> server" where
  "push_local bs h = (brk h, ht_heap.more_update (\<lambda>_. (st h)\<lparr>mem :=
      (\<lambda>a. if brk h \<le> a \<and> a < brk h + length bs then Some (bs ! (a - brk h)) else mem (st h) a)\<rparr>)
      (h\<lparr>brk := brk h + length bs\<rparr>))"

definition pop_local :: "ptr \<Rightarrow> nat \<Rightarrow> server \<Rightarrow> server" where
  "pop_local p n h = ht_heap.more_update (\<lambda>_. (st h)\<lparr>mem :=
      (\<lambda>a. if p \<le> a \<and> a < p + n then None else mem (st h) a)\<rparr>) h"

definition with_packet :: "byte list \<Rightarrow> (ptr \<Rightarrow> server \<Rightarrow> server option) \<Rightarrow> server \<Rightarrow> server option" where
  "with_packet bs handler h = (let (pk, h) = push_local bs h in map_option (pop_local pk (length bs)) (handler pk h))"

definition handle_clients :: "nat \<Rightarrow> ptr \<Rightarrow> server \<Rightarrow> server option" where
  "handle_clients fuel p_conn h =
     (if p_conn = NULL then Some h
      else do {
        c \<leftarrow> conns (st h) p_conn;
        if conn_objects c = NULL then Some h
        else do {
          (received, z) \<leftarrow> recv_poll (st h);
          let h = ht_heap.more_update (\<lambda>_. z) h;
          case received of
            None \<Rightarrow> Some h
          | Some bs \<Rightarrow>
              let buff = pad BUFF_SIZE bs; op = buff ! 0
              in if op = CREATE then with_packet (take 38 buff) (create_account p_conn) h
                 else if op = LOGIN then with_packet (take 38 buff)
                   (handle_login (\<lambda>c x. on_st (recv_msgs fuel c x)) p_conn) h
                 else if op = DELETE then with_packet (take 38 buff) (remove_client p_conn) h
                 else if op = UPDATE then with_packet (take 64 buff) (update_client p_conn) h
                 else Some h
        }
      })"

end
