(* ===== verification/ChatActionsSpec.thy ===== *)
theory ChatActionsSpec
  imports ChatActions
begin

text \<open>What the message loop, uploads and downloads do.\<close>

section \<open>Fuel\<close>

lemma poll_shorter: "poll es = Some (b, es', r) \<Longrightarrow> length es' < length es"
  by (induction es rule: poll.induct) (auto split: if_splits)

lemma recv_poll_shorter: "recv_poll z = Some (b, z') \<Longrightarrow> length (script z') < length (script z)"
  by (auto simp: recv_poll_def dest: poll_shorter)

lemma upload_loop_shorter: "upload_loop es run fs rs out = Some (out', es', r) \<Longrightarrow> length es' \<le> length es"
  by (induction es run fs rs out rule: upload_loop.induct) (auto split: if_splits)

lemma send_entries_sel [simp]:
  "script (send_entries f ds z) = script z" "clients (send_entries f ds z) = clients z"
  "files (send_entries f ds z) = files z"
  by (induction f ds z rule: send_entries.induct) (auto simp: put_def)

lemma put_sel [simp]: 
  "script (put a z) = script z" "clients (put a z) = clients z" "conns (put a z) = conns z" "files (put a z) = files z"
  "trace (put a z) = trace z @ [a]" "send_bad (put a z) = send_bad z" "gb_run (put a z) = gb_run z"
  "objects (put a z) = objects z" "can_open (put a z) = can_open z" "mem (put a z) = mem z" "signals (put a z) = signals z"
  by (simp_all add: put_def)

lemma send_dir_script: "send_dir q z = Some z' \<Longrightarrow> script z' = script z"
  by (auto simp: send_dir_def bind_eq_Some_conv split: option.splits)

lemma send_fail_pack_script: "send_fail_pack p e z = Some z' \<Longrightarrow> script z' = script z"
  by (auto simp: send_fail_pack_def bind_eq_Some_conv)

definition shrinks :: "(ptr \<Rightarrow> ptr \<Rightarrow> chat_state \<Rightarrow> chat_state option) \<Rightarrow> bool" where
  "shrinks k \<longleftrightarrow> (\<forall>p q z z'. k p q z = Some z' \<longrightarrow> length (script z') \<le> length (script z))"

lemma shrinksD: "shrinks k \<Longrightarrow> k p q z = Some z' \<Longrightarrow> length (script z') \<le> length (script z)"
  unfolding shrinks_def by blast

lemma download_step:
  assumes "fgets BUFF_SIZE (b # bs) = (line, rest)"
  shows "download_loop k p q (b # bs) z = do {
     x \<leftarrow> clients z q;
     let z1 = put (Send (fd x) (raw (pad BUFF_SIZE line))) z;
     z2 \<leftarrow> (if send_bad z (length (trace z)) then k p q z1 else Some z1);
     download_loop k p q rest z2
   }"
  using assms by (simp add: Let_def download_loop.simps(2))

lemma download_loop_shorter:
  "shrinks k \<Longrightarrow> download_loop k p q bs z = Some z' \<Longrightarrow> length (script z') \<le> length (script z)"
proof (induction "length bs" arbitrary: bs z rule: less_induct)
  case less
  show ?case
  proof (cases bs)
    case Nil
    then show ?thesis using less.prems by simp
  next
    case (Cons b bs')
    obtain line rest where l: "fgets BUFF_SIZE (b # bs') = (line, rest)" by fastforce
    obtain x where x: "clients z q = Some x"
      using less.prems(2) Cons download_step [OF l] by (auto simp: bind_eq_Some_conv)
    let ?z = "put (Send (fd x) (raw (pad BUFF_SIZE line))) z"
    obtain z1 where z1: "(if send_bad z (length (trace z)) then k p q ?z else Some ?z) = Some z1"
       "download_loop k p q rest z1 = Some z'"
      using less.prems(2) Cons x download_step [OF l] by (auto simp: bind_eq_Some_conv Let_def)
    have "length rest < length bs" using fgets_props(4) [OF _ l] Cons by simp
    then have "length (script z') \<le> length (script z1)" using less.hyps less.prems(1) z1(2) by blast
    also have "length (script z1) \<le> length (script z)"
      using z1(1) shrinksD [OF less.prems(1), of p q ?z z1] by (auto split: if_splits)
    finally show ?thesis .
  qed
qed

lemma handle_file_shorter:
  "shrinks k \<Longrightarrow> handle_file k p pack q z = Some z' \<Longrightarrow> length (script z') \<le> length (script z)"
  by (auto simp: handle_file_def bind_eq_Some_conv Let_def split: if_splits
      dest!: upload_loop_shorter dest: shrinksD)

lemma handle_download_shorter:
  "shrinks k \<Longrightarrow> handle_download k p buff q z = Some z' \<Longrightarrow> length (script z') \<le> length (script z)"
  by (auto simp: handle_download_def bind_eq_Some_conv split: if_splits option.splits
      dest!: download_loop_shorter [rotated])

lemma recv_msgs_shrinks: "shrinks (recv_msgs fuel)"
proof (induction fuel)
  case (Suc fuel)
  show ?case unfolding shrinks_def
  proof (intro allI impI)
    fix p q z z' assume run: "recv_msgs (Suc fuel) p q z = Some z'"
    then obtain x b z1 where 1: "clients z q = Some x" "recv_poll z = Some (b, z1)"
      by (auto simp: bind_eq_Some_conv)
    have "length (script z') \<le> length (script z1)"
      using run 1 handle_file_shorter [OF Suc] handle_download_shorter [OF Suc]
      by (auto simp: bind_eq_Some_conv send_fail_pack_script split: if_splits option.splits
          dest!: send_dir_script shrinksD [OF Suc])
    then show "length (script z') \<le> length (script z)" using recv_poll_shorter [OF 1(2)] by simp
  qed
qed (simp add: shrinks_def)

text \<open>Two continuations that agree on shorter scripts are interchangeable.\<close>

definition agree_below :: 
  "nat \<Rightarrow> (ptr \<Rightarrow> ptr \<Rightarrow> chat_state \<Rightarrow> chat_state option) \<Rightarrow> (ptr \<Rightarrow> ptr \<Rightarrow> chat_state \<Rightarrow> chat_state option) \<Rightarrow> bool" where
  "agree_below L k k' \<longleftrightarrow> (\<forall>p q z. length (script z) < L \<longrightarrow> k p q z = k' p q z)"

lemma agreeD: "agree_below L k k' \<Longrightarrow> length (script z) < L \<Longrightarrow> k p q z = k' p q z"
  unfolding agree_below_def by blast

lemma download_loop_agree:
  "agree_below L k k' \<Longrightarrow> shrinks k \<Longrightarrow> length (script z) < L \<Longrightarrow> download_loop k p q bs z = download_loop k' p q bs z"
proof (induction "length bs" arbitrary: bs z rule: less_induct)
  case less
  show ?case
  proof (cases bs)
    case (Cons b bs')
    obtain line rest where l: "fgets BUFF_SIZE (b # bs') = (line, rest)" by fastforce
    have r: "length rest < length bs" using fgets_props(4) [OF _ l] Cons by simp
    show ?thesis
    proof (cases "clients z q")
      case None
      then show ?thesis unfolding Cons download_step [OF l] by simp
    next
      case (Some x)
      let ?z = "put (Send (fd x) (raw (pad BUFF_SIZE line))) z"
      have eq: "k p q ?z = k' p q ?z" using agreeD [OF less.prems(1)] less.prems(3) by simp
      have "download_loop k p q rest z1 = download_loop k' p q rest z1"
        if "(if send_bad z (length (trace z)) then k p q ?z else Some ?z) = Some z1" for z1
      proof -
        have "length (script z1) \<le> length (script z)"
          using that shrinksD [OF less.prems(2), of p q ?z z1] by (auto split: if_splits)
        then show ?thesis using less.hyps [OF r less.prems(1,2)] less.prems(3) by simp
      qed
      then show ?thesis using Some eq unfolding Cons download_step [OF l]
        by (auto simp: Let_def intro!: Option.bind_cong)
    qed
  qed simp
qed

lemma handle_file_agree:
  assumes "agree_below L k k'" "length (script z) < L"
  shows "handle_file k p pack q z = handle_file k' p pack q z"
proof -
  have k: "k p q z' = k' p q z'" if "length (script z') \<le> length (script z)" for z'
    using agreeD [OF assms(1)] that assms(2) by simp
  show ?thesis unfolding handle_file_def Let_def
    by (intro if_cong refl Option.bind_cong) (auto intro!: k dest: upload_loop_shorter split: prod.splits)
qed

lemma handle_download_agree:
  assumes "agree_below L k k'" "shrinks k" "length (script z) < L"
  shows "handle_download k p buff q z = handle_download k' p buff q z"
proof -
  have "download_loop k p q bs z = download_loop k' p q bs z" for bs by (rule download_loop_agree [OF assms])
  then show ?thesis unfolding handle_download_def by presburger
qed

lemma recv_msgs_enough:
  "length (script z) < n \<Longrightarrow> length (script z) < m \<Longrightarrow> recv_msgs n p q z = recv_msgs m p q z"
proof (induction n arbitrary: m p q z)
  case (Suc n)
  then obtain m' where m: "m = Suc m'" by (cases m) auto
  show ?case
  proof (cases "clients z q")
    case (Some x)
    show ?thesis
    proof (cases "recv_poll z")
      case (Some r)
      obtain b z1 where r: "r = (b, z1)" by (cases r)
      have len: "length (script z1) < length (script z)" using recv_poll_shorter Some r by simp
      have agree: "agree_below (length (script z)) (recv_msgs n) (recv_msgs m')"
        unfolding agree_below_def
      proof (intro allI impI)
        fix p' q' and z' :: chat_state assume "length (script z') < length (script z)"
        then show "recv_msgs n p' q' z' = recv_msgs m' p' q' z'"
          using Suc.prems m by (intro Suc.IH) simp_all
      qed
      have "length (script z2) < length (script z)" if "send_dir q z1 = Some z2" for z2
        using send_dir_script [OF that] len by simp
      then show ?thesis using Some r \<open>clients z q = Some x\<close> m len agreeD [OF agree] handle_file_agree [OF agree]
          handle_download_agree [OF agree recv_msgs_shrinks]
        by (auto split: option.splits intro!: Option.bind_cong)
    qed (use Some m in simp)
  qed (use m in simp)
qed simp

section \<open>Contents of files\<close>

abbreviation c_text :: "byte list \<Rightarrow> byte list" where
  "c_text \<equiv> takeWhile (\<lambda>c. c \<noteq> 0)"

lemma c_text_id: "0 \<notin> set bs \<Longrightarrow> c_text bs = bs"
  by (auto simp: takeWhile_eq_all_conv)

lemma c_text_pad: "length l < n \<Longrightarrow> c_text (pad n l) = c_text l"
proof -
  assume l: "length l < n"
  then have "pad n l = l @ replicate (n - length l) 0" by (simp add: pad_def take_replicate min_def)
  moreover have "c_text (xs @ replicate (Suc k) 0) = c_text xs" for xs k by (induction xs) simp_all
  moreover obtain k where "n - length l = Suc k" using l by (metis Suc_diff_Suc)
  ultimately show ?thesis by simp
qed

lemma pad_length [simp]: "length (pad n bs) = n"
  by (simp add: pad_def)

text \<open>A complete upload: the file gets what each chunk has before its first zero byte.\<close>

lemma upload_loop_chunks:
  assumes "chunks \<noteq> []" "\<forall>c \<in> set chunks. c \<noteq> [] \<and> length c \<le> BUFF_SIZE" "r + length (concat chunks) < 2 ^ 32"
  shows "upload_loop (map (Got True) chunks @ es) True (of_nat (r + length (concat chunks))) (of_nat r) out
     = Some (out @ concat (map c_text chunks), es, True)"
  using assms
proof (induction chunks arbitrary: r out)
  case (Cons c cs)
  have c: "c \<noteq> []" "take BUFF_SIZE c = c" using Cons.prems(2) by auto
  have sum: "(of_nat r + of_nat (length c) :: 32 word) = of_nat (r + length c)" by simp
  have len: "length (concat (c # cs)) = length c + length (concat cs)" by simp
  show ?case
  proof (cases "cs = []")
    case True
    then show ?thesis using c by simp
  next
    case False
    then have "0 < length (concat cs)" using Cons.prems(2) by (cases cs) auto
    then have ne: "(of_nat (r + length c) :: 32 word) \<noteq> of_nat (r + (length c + length (concat cs)))"
      using Cons.prems(3) of_nat_32_eq [of "r + length c" "r + (length c + length (concat cs))"] unfolding len by simp
    have "upload_loop (map (Got True) cs @ es) True (of_nat (r + length c + length (concat cs))) (of_nat (r + length c))
        (out @ c_text c) = Some ((out @ c_text c) @ concat (map c_text cs), es, True)"
      using Cons.prems(2,3) False unfolding len by (intro Cons.IH) auto
    then show ?thesis using c ne unfolding len
      by (simp del: of_nat_add add: sum add.assoc)
  qed
qed simp

text \<open>A download in which every send succeeds: lines of the file, each in a block of zeros.\<close>

lemma download_lines:
  assumes "clients z q = Some x" "\<forall>n. \<not> send_bad z n"
  shows "\<exists>ls. concat ls = bs \<and> (\<forall>l \<in> set ls. l \<noteq> [] \<and> length l < BUFF_SIZE)
     \<and> download_loop k p q bs z
        = Some (z\<lparr>trace := trace z @ map (\<lambda>l. Send (fd x) (raw (pad BUFF_SIZE l))) ls\<rparr>)"
  using assms
proof (induction "length bs" arbitrary: bs z rule: less_induct)
  case less
  show ?case
  proof (cases bs)
    case Nil
    then show ?thesis by (intro exI [of _ "[]"]) simp
  next
    case (Cons b bs')
    obtain l rest where l: "fgets BUFF_SIZE (b # bs') = (l, rest)" by fastforce
    have nn: "b # bs' \<noteq> []" by simp
    note f = fgets_props [OF nn l]
    let ?z = "put (Send (fd x) (raw (pad BUFF_SIZE l))) z"
    obtain ls where ls: "concat ls = rest" "\<forall>l \<in> set ls. l \<noteq> [] \<and> length l < BUFF_SIZE"
      "download_loop k p q rest ?z
         = Some (?z\<lparr>trace := trace ?z @ map (\<lambda>l. Send (fd x) (raw (pad BUFF_SIZE l))) ls\<rparr>)"
      using less.hyps [of rest ?z] f(4) Cons less.prems by auto
    then have "download_loop k p q bs z
        = Some (z\<lparr>trace := trace z @ map (\<lambda>l. Send (fd x) (raw (pad BUFF_SIZE l))) (l # ls)\<rparr>)"
      using less.prems unfolding Cons download_step [OF l] by (simp add: put_def)
    then show ?thesis using ls(1,2) f(1-3) Cons by (intro exI [of _ "l # ls"]) simp
  qed
qed

text \<open>The requests of a client, as bytes.\<close>

definition upload_req :: "byte list \<Rightarrow> nat \<Rightarrow> byte \<Rightarrow> byte list \<Rightarrow> bool" where
  "upload_req up sz nl name \<longleftrightarrow> nth_byte up 0 = Some FILE_UPLOAD \<and> nth_byte up 5 = Some nl
     \<and> length up \<le> BUFF_SIZE \<and> (word_rcat (rev (take 4 (drop 1 up))) :: 32 word) = of_nat sz
     \<and> cstr (take 255 (drop 6 up)) = Some name"

definition download_req :: "byte list \<Rightarrow> byte \<Rightarrow> byte list \<Rightarrow> bool" where
  "download_req down nl name \<longleftrightarrow> nth_byte down 0 = Some FILE_DOWNLOAD \<and> nth_byte down 1 = Some nl
     \<and> length down \<le> BUFF_SIZE \<and> cstr (drop 2 down) = Some name"

lemma recv_poll_Got: "script z = Got r bs # es \<Longrightarrow> recv_poll z = Some (Some (take BUFF_SIZE bs), z\<lparr>script := es, gb_run := r\<rparr>)"
  by (simp add: recv_poll_def)

lemma nth_byte_take: "i < n \<Longrightarrow> nth_byte (take n bs) i = nth_byte bs i"
  by (simp add: nth_byte_def)

text \<open>The request to upload, followed by its data.\<close>

lemma recv_msgs_upload:
  assumes q: "clients z q = Some x" and c: "p \<noteq> NULL" "conns z p = Some c" "objects z (conn_objects c) \<noteq> None"
    and up: "upload_req up (length (concat chunks)) nl name" and open_ok: "can_open z (file_path nl name)"
    and chunks: "chunks \<noteq> []" "\<forall>c \<in> set chunks. c \<noteq> [] \<and> length c \<le> BUFF_SIZE" "length (concat chunks) < 2 ^ 32"
    and script: "script z = Got True up # map (Got True) chunks @ es"
  shows "recv_msgs (Suc n) p q z = recv_msgs n p q (z\<lparr>script := es, gb_run := True,
     files := (files z)(file_path nl name \<mapsto> concat (map c_text chunks))\<rparr>)"
proof -
  have tk: "take BUFF_SIZE up = up" and cs: "cstr (drop 6 (take 261 up)) = Some name"
    and b: "nth_byte up 0 = Some FILE_UPLOAD" "nth_byte (take 261 up) 5 = Some nl"
    using up by (simp_all add: upload_req_def drop_take nth_byte_take)
  have fs: "(word_rcat (rev (take 4 (drop 1 (take 261 up)))) :: 32 word) = of_nat (0 + length (concat chunks))"
    using up by (simp add: upload_req_def drop_take)
  have loop: "upload_loop (map (Got True) chunks @ es) True (of_nat (0 + length (concat chunks))) (of_nat 0) []
      = Some ([] @ concat (map c_text chunks), es, True)"
    by (rule upload_loop_chunks) (use chunks in auto)
  have "recv_msgs (Suc n) p q z
      = handle_file (recv_msgs n) p (take 261 up) q (z\<lparr>script := map (Got True) chunks @ es, gb_run := True\<rparr>)"
    using q recv_poll_Got [OF script] tk b(1) by (simp add: chat_consts)
  also have "\<dots> = recv_msgs n p q (z\<lparr>script := es, gb_run := True,
     files := (files z)(file_path nl name \<mapsto> concat (map c_text chunks))\<rparr>)"
    using c b(2) cs open_ok loop unfolding handle_file_def Let_def fs by auto
  finally show ?thesis .
qed

lemma recv_msgs_download:
  assumes q: "clients z q = Some x" and c: "p \<noteq> NULL" and ok: "\<forall>n. \<not> send_bad z n"
    and down: "download_req down nl name" "nl \<noteq> REQUEST" and f: "files z (file_path nl name) = Some contents"
    and script: "script z = Got r down # es"
  shows "\<exists>ls. concat ls = contents \<and> (\<forall>l \<in> set ls. l \<noteq> [] \<and> length l < BUFF_SIZE)
     \<and> recv_msgs (Suc n) p q z = Some (z\<lparr>script := es, gb_run := r,
         trace := trace z @ map (\<lambda>l. Send (fd x) (raw (pad BUFF_SIZE l))) ls @ [Close (fd x)]\<rparr>)"
proof -
  let ?z = "z\<lparr>script := es, gb_run := r\<rparr>"
  obtain ls where ls: "concat ls = contents" "\<forall>l \<in> set ls. l \<noteq> [] \<and> length l < BUFF_SIZE"
    "download_loop (recv_msgs n) p q contents ?z
       = Some (?z\<lparr>trace := trace ?z @ map (\<lambda>l. Send (fd x) (raw (pad BUFF_SIZE l))) ls\<rparr>)"
    using download_lines [of ?z q x contents "recv_msgs n" p] q ok by (auto simp del: chat_state.update_convs)
  have tk: "take BUFF_SIZE down = down" and b: "nth_byte down 0 = Some FILE_DOWNLOAD" "nth_byte down (Suc 0) = Some nl"
    and cs: "cstr (drop 2 down) = Some name" using down(1) by (simp_all add: download_req_def)
  have "recv_msgs (Suc n) p q z = handle_download (recv_msgs n) p down q ?z"
    using q recv_poll_Got [OF script] tk b down(2) by (simp add: chat_consts REQUEST_def)
  also have "\<dots> = Some (z\<lparr>script := es, gb_run := r,
         trace := trace z @ map (\<lambda>l. Send (fd x) (raw (pad BUFF_SIZE l))) ls @ [Close (fd x)]\<rparr>)"
    using c b cs f ls(3) q by (simp add: handle_download_def put_def)
  finally show ?thesis using ls(1,2) by blast
qed

end
