(* ===== verification/ChatDispatch.thy ===== *)
theory ChatDispatch
  imports ChatActionsSpec
begin

text \<open>From the bytes of a new connection to the account database.\<close>

lemma read_str_bytes:
  "(\<And>i. i < k \<Longrightarrow> m (p + i) = Some (bs ! i)) \<Longrightarrow> k \<le> length bs \<Longrightarrow> read_str m p k = cstr (take k bs)"
proof (induction k arbitrary: p bs)
  case 0
  then show ?case by (simp add: cstr_def)
next
  case (Suc k)
  then obtain b bs' where bs: "bs = b # bs'" by (cases bs) auto
  have "read_str m (Suc p) k = cstr (take k bs')"
  proof (rule Suc.IH)
    show "m (Suc p + i) = Some (bs' ! i)" if "i < k" for i using Suc.prems(1) [of "Suc i"] that bs by simp
  qed (use Suc.prems(2) bs in simp)
  moreover have "m p = Some b" using Suc.prems(1) [of 0] bs by simp
  ultimately show ?case using bs by (auto simp: cstr_def)
qed

lemma read_field:
  assumes "\<And>i. i < length bs \<Longrightarrow> m (pk + i) = Some (bs ! i)" "a + k \<le> length bs"
  shows "read_str m (pk + a) k = cstr (take k (drop a bs))"
proof (rule read_str_bytes)
  fix i assume "i < k"
  then show "m (pk + a + i) = Some (drop a bs ! i)" using assms(1) [of "a + i"] assms(2) by (simp add: add.assoc)
qed (use assms(2) in simp)

text \<open>The fields of the packets in a buffer.\<close>

definition init_bytes :: "byte list \<Rightarrow> byte \<Rightarrow> byte list \<Rightarrow> byte \<Rightarrow> byte list \<Rightarrow> bool" where
  "init_bytes buff ul u pl p \<longleftrightarrow> buff ! 1 = ul \<and> buff ! 12 = pl
     \<and> cstr (take UNAME_MAX (drop 2 buff)) = Some u \<and> cstr (take PASS_MAX (drop 13 buff)) = Some p"

definition update_bytes :: "byte list \<Rightarrow> byte list \<Rightarrow> byte list \<Rightarrow> byte \<Rightarrow> byte list \<Rightarrow> bool" where
  "update_bytes buff u p nl np \<longleftrightarrow> buff ! 38 = nl
     \<and> cstr (take UNAME_MAX (drop 2 buff)) = Some u \<and> cstr (take PASS_MAX (drop 13 buff)) = Some p
     \<and> cstr (take PASS_MAX (drop 39 buff)) = Some np"

section \<open>The local copy of the packet\<close>

lemma push_local_sel:
  assumes "push_local bs h = (pk, h1)"
  shows "pk = brk h" "brk h1 = brk h + length bs" "env_step h h1" "clients (st h1) = clients (st h)"
    "conns (st h1) = conns (st h)" "objects (st h1) = objects (st h)" "signals (st h1) = signals (st h)"
    "trace (st h1) = trace (st h)" "tables h1 = tables h"
    "mem (st h1) = (\<lambda>a. if brk h \<le> a \<and> a < brk h + length bs then Some (bs ! (a - brk h)) else mem (st h) a)"
    "script (st h1) = script (st h) \<and> gb_run (st h1) = gb_run (st h) \<and> dom (objects (st h1)) = dom (objects (st h))"
  using assms by (auto simp: push_local_def env_step_def)

lemma push_local_accounts:
  assumes acc: "accounts h p_objects A" and push: "push_local bs h = (pk, h1)"
  shows "accounts h1 p_objects A" "keeps p_objects (st h) (st h1)" "pack_at (st h1) pk (length bs)"
    "\<And>i. i < length bs \<Longrightarrow> mem (st h1) (pk + i) = Some (bs ! i)"
proof -
  note s = push_local_sel [OF push]
  have ok: "server_ok h" and lay: "layout_ok (brk h) (st h)" and b: "0 < brk h"
    using acc hheap_ok_fresh(7) by (auto simp: accounts_def server_ok_def)
  note D = layout_okD [OF lay]
  have old: "mem (st h1) a = mem (st h) a" if "mem (st h) a \<noteq> None" for a
    using D(3) [OF that] by (simp add: s(10))
  show bytes: "mem (st h1) (pk + i) = Some (bs ! i)" if "i < length bs" for i using that s(1,10) by simp
  show "keeps p_objects (st h) (st h1)"
    by (rule keeps_grow [OF lay s(5,7,11) old]) (use s(4,6) in simp_all)
  have lay1: "layout_ok (brk h1) (st h1)" unfolding layout_ok_def
  proof (intro conjI allI impI)
    show "a < brk h1" if "mem (st h1) a \<noteq> None" for a
      using that D(3) [of a] s(2,10) by (force split: if_splits)
    show "c < brk h1" if "conns (st h1) c \<noteq> None" for c using that D(8) [of c] s(2,5) by simp
    fix c assume c: "clients (st h1) c \<noteq> None"
    show "mem (st h1) (c + 16 + i) \<noteq> None" if "i < 36" for i
      using old D(6) [of c i] c that s(4) by simp
    show "0 < c" "c + 56 \<le> brk h1" using D(4,5) [of c] c s(2,4) by simp_all
    show "c + 56 \<le> c' \<or> c' + 56 \<le> c" if "clients (st h1) c' \<noteq> None" "c \<noteq> c'" for c'
      using D(7) c that s(4) by simp
  qed (use D(1,2) s(5,6) in simp_all)
  show "pack_at (st h1) pk (length bs)" unfolding pack_at_def
    using b s(1,4) bytes D(5) by auto
  obtain objs where o: "objects (st h) p_objects = Some objs"
      "if o_htable objs = NULL then A = Map.empty else \<exists>M. accounts_in h (o_htable objs) A M"
    using acc unfolding accounts_def by blast
  have in1: "accounts_in h1 t A M" if "accounts_in h t A M" for t M
  proof (rule accounts_in_env [OF s(3) that])
    fix u d p assume "account_at h d u p"
    then obtain c where c: "hnodes h d = Some \<lparr>h_key = c + 16, h_value = c, h_free = CLIENT_FREE\<rparr>"
      "clients (st h) c \<noteq> None" "uname_at (st h) (c + 16) = Some u" "pass_at (st h) (c + 26) = Some p"
      unfolding account_at_def by blast
    have "mem (st h1) a = mem (st h) a" if "a < c + 56" for a
      using D(5) [OF c(2)] that by (simp add: s(10))
    then have "read_str (mem (st h1)) (c + 16) UNAME_MAX = read_str (mem (st h)) (c + 16) UNAME_MAX"
      "read_str (mem (st h1)) (c + 26) PASS_MAX = read_str (mem (st h)) (c + 26) PASS_MAX"
      by (auto intro!: read_str_cong simp: UNAME_MAX_def PASS_MAX_def)
    moreover have "hnodes h1 = hnodes h" using s(3) by (simp add: env_step_def)
    ultimately show "account_at h1 d u p" using c s(4) unfolding account_at_def uname_at_def pass_at_def by auto
  qed
  have "server_ok h1" by (rule env_step_server_ok [OF s(3) ok lay1])
  then show "accounts h1 p_objects A" using o in1 s(6) unfolding accounts_def by (auto split: if_splits)
qed

lemma pop_local_accounts:
  assumes acc: "accounts h p_objects A" and pk: "pack_at (st h) pk n"
  shows "accounts (pop_local pk n h) p_objects A" "trace (st (pop_local pk n h)) = trace (st h)"
    "objects (st (pop_local pk n h)) = objects (st h)"
proof -
  let ?h = "pop_local pk n h"
  have ok: "server_ok h" and lay: "layout_ok (brk h) (st h)" using acc by (auto simp: accounts_def server_ok_def)
  note D = layout_okD [OF lay]
  have env: "env_step h ?h" by (simp add: pop_local_def env_step_def)
  have s: "clients (st ?h) = clients (st h)" "conns (st ?h) = conns (st h)" "objects (st ?h) = objects (st h)"
    "mem (st ?h) = (\<lambda>a. if pk \<le> a \<and> a < pk + n then None else mem (st h) a)" "brk ?h = brk h" "hnodes ?h = hnodes h"
    by (simp_all add: pop_local_def)
  show "trace (st ?h) = trace (st h)" "objects (st ?h) = objects (st h)" by (simp_all add: pop_local_def)
  have keep: "mem (st ?h) a = mem (st h) a" if "clients (st h) c \<noteq> None" "c + 16 \<le> a" "a < c + 52" for c a
    using pk that unfolding pack_at_def s(4) by fastforce
  have lay1: "layout_ok (brk ?h) (st ?h)" unfolding layout_ok_def
  proof (intro conjI allI impI)
    show "a < brk ?h" if "mem (st ?h) a \<noteq> None" for a
      using that D(3) [of a] s(4,5) by (force split: if_splits)
    show "c < brk ?h" if "conns (st ?h) c \<noteq> None" for c using that D(8) [of c] s(2,5) by simp
    fix c assume c: "clients (st ?h) c \<noteq> None"
    show "mem (st ?h) (c + 16 + i) \<noteq> None" if "i < 36" for i
      using keep [of c "c + 16 + i"] D(6) [of c i] c that s(1) by simp
    show "0 < c" "c + 56 \<le> brk ?h" using D(4,5) [of c] c s(1,5) by simp_all
    show "c + 56 \<le> c' \<or> c' + 56 \<le> c" if "clients (st ?h) c' \<noteq> None" "c \<noteq> c'" for c'
      using D(7) c that s(1) by simp
  qed (use D(1,2) s(2,3) in simp_all)
  have in1: "accounts_in ?h t A M" if "accounts_in h t A M" for t M
  proof (rule accounts_in_env [OF env that])
    fix u d p assume "account_at h d u p"
    then obtain c where c: "hnodes h d = Some \<lparr>h_key = c + 16, h_value = c, h_free = CLIENT_FREE\<rparr>"
      "clients (st h) c \<noteq> None" "uname_at (st h) (c + 16) = Some u" "pass_at (st h) (c + 26) = Some p"
      unfolding account_at_def by blast
    have "read_str (mem (st ?h)) (c + 16) UNAME_MAX = read_str (mem (st h)) (c + 16) UNAME_MAX"
      "read_str (mem (st ?h)) (c + 26) PASS_MAX = read_str (mem (st h)) (c + 26) PASS_MAX"
      by (rule read_str_cong, rule keep [OF c(2)], simp_all add: UNAME_MAX_def PASS_MAX_def)+
    then show "account_at ?h d u p" using c s(1,6) unfolding account_at_def uname_at_def pass_at_def by auto
  qed
  have "server_ok ?h" by (rule env_step_server_ok [OF env ok lay1])
  moreover obtain objs where o: "objects (st h) p_objects = Some objs"
      "if o_htable objs = NULL then A = Map.empty else \<exists>M. accounts_in h (o_htable objs) A M"
    using acc unfolding accounts_def by blast
  ultimately show "accounts ?h p_objects A" using in1 s(3) unfolding accounts_def by (auto split: if_splits)
qed

lemma push_local_init_pack:
  assumes acc: "accounts h p_objects A" and push: "push_local (take 38 buff) h = (pk, h1)"
    and bytes: "init_bytes buff ul u pl p" "38 \<le> length buff"
  shows "init_pack (st h1) pk ul u pl p"
proof -
  have l: "length (take 38 buff) = 38" using bytes(2) by simp
  note L = push_local_accounts(3,4) [OF acc push, unfolded l]
  have F: "read_str (mem (st h1)) (pk + a) k = cstr (take k (drop a (take 38 buff)))" if "a + k \<le> 38" for a k
    by (rule read_field [OF push_local_accounts(4) [OF acc push]]) (use that l in simp_all)
  have "read_str (mem (st h1)) (pk + 2) UNAME_MAX = cstr (take UNAME_MAX (drop 2 (take 38 buff)))"
    "read_str (mem (st h1)) (pk + 13) PASS_MAX = cstr (take PASS_MAX (drop 13 (take 38 buff)))"
    by (rule F, simp add: UNAME_MAX_def PASS_MAX_def)+
  moreover have "take UNAME_MAX (drop 2 (take 38 buff)) = take UNAME_MAX (drop 2 buff)"
    "take PASS_MAX (drop 13 (take 38 buff)) = take PASS_MAX (drop 13 buff)"
    by (simp_all add: drop_take UNAME_MAX_def PASS_MAX_def)
  ultimately show ?thesis using bytes L(1) L(2) [of 1] L(2) [of 12] unfolding init_pack_def init_bytes_def by simp
qed

lemma push_local_update_pack:
  assumes acc: "accounts h p_objects A" and push: "push_local (take 64 buff) h = (pk, h1)"
    and bytes: "update_bytes buff u p nl np" "64 \<le> length buff"
  shows "update_pack (st h1) pk u p nl np"
proof -
  have l: "length (take 64 buff) = 64" using bytes(2) by simp
  note L = push_local_accounts(3,4) [OF acc push, unfolded l]
  have F: "read_str (mem (st h1)) (pk + a) k = cstr (take k (drop a (take 64 buff)))" if "a + k \<le> 64" for a k
    by (rule read_field [OF push_local_accounts(4) [OF acc push]]) (use that l in simp_all)
  have "read_str (mem (st h1)) (pk + 2) UNAME_MAX = cstr (take UNAME_MAX (drop 2 (take 64 buff)))"
    "read_str (mem (st h1)) (pk + 13) PASS_MAX = cstr (take PASS_MAX (drop 13 (take 64 buff)))"
    "read_str (mem (st h1)) (pk + 39) PASS_MAX = cstr (take PASS_MAX (drop 39 (take 64 buff)))"
    by (rule F, simp add: UNAME_MAX_def PASS_MAX_def)+
  moreover have "take UNAME_MAX (drop 2 (take 64 buff)) = take UNAME_MAX (drop 2 buff)"
    "take PASS_MAX (drop 13 (take 64 buff)) = take PASS_MAX (drop 13 buff)"
    "take PASS_MAX (drop 39 (take 64 buff)) = take PASS_MAX (drop 39 buff)"
    by (simp_all add: drop_take UNAME_MAX_def PASS_MAX_def)
  ultimately show ?thesis using bytes L(1) L(2) [of 38] unfolding update_pack_def update_bytes_def by simp
qed

section \<open>A connection that creates or changes an account\<close>

text \<open>The state after the poll.\<close>

lemma accounts_polled:
  assumes "accounts h p_objects A" "recv_poll (st h) = Some (b, z)"
  shows "accounts (hwith_more h z) p_objects A" "trace z = trace (st h)" "objects z = objects (st h)"
    "\<And>c f. conn_ok (st h) c f p_objects \<Longrightarrow> conn_ok z c f p_objects"
    "cap_room h p_objects \<Longrightarrow> cap_room (hwith_more h z) p_objects"
    "conns z = conns (st h)" "signals z = signals (st h)"
proof -
  obtain es r where z: "z = (st h)\<lparr>script := es, gb_run := r\<rparr>" using assms(2) by (auto simp: recv_poll_def)
  show "accounts (hwith_more h z) p_objects A" by (rule accounts_same [OF assms(1)]) (simp_all add: z)
  show "trace z = trace (st h)" "objects z = objects (st h)" "conns z = conns (st h)" "signals z = signals (st h)"
    by (simp_all add: z)
  show "conn_ok z c f p_objects" if "conn_ok (st h) c f p_objects" for c f using that by (simp add: z conn_ok_def)
  show "cap_room (hwith_more h z) p_objects" if "cap_room h p_objects" using that by (simp add: z cap_room_def)
qed

text \<open>
  What a served connection leaves: the database \<open>A'\<close>, the actions \<open>acts\<close> on the network, the next
  session number and the rest of the script; connections stay as they are.
\<close>

definition served :: 
  "server \<Rightarrow> server \<Rightarrow> ptr \<Rightarrow> (byte list \<rightharpoonup> byte list) \<Rightarrow> (byte list \<rightharpoonup> byte list) \<Rightarrow> 64 word \<Rightarrow> action list \<Rightarrow> bool" where
  "served h h' p_objects A A' sid acts \<longleftrightarrow> accounts h' p_objects A' \<and> trace (st h') = trace (st h) @ acts
     \<and> (\<exists>objs. objects (st h') p_objects = Some objs \<and> o_session_id objs = sid)
     \<and> (\<forall>c f. conn_ok (st h) c f p_objects \<longrightarrow> conn_ok (st h') c f p_objects)
     \<and> (cap_ok h p_objects A \<longrightarrow> cap_ok h' p_objects A')
     \<and> conns (st h') = conns (st h) \<and> signals (st h') = signals (st h)
     \<and> map_option o_signals (objects (st h') p_objects) = map_option o_signals (objects (st h) p_objects)
     \<and> dom (objects (st h')) = dom (objects (st h))"

lemma pop_local_sel [simp]:
  "conns (st (pop_local pk n h)) = conns (st h)" "signals (st (pop_local pk n h)) = signals (st h)"
  "objects (st (pop_local pk n h)) = objects (st h)" "trace (st (pop_local pk n h)) = trace (st h)"
  "script (st (pop_local pk n h)) = script (st h)" "gb_run (st (pop_local pk n h)) = gb_run (st h)" "tables (pop_local pk n h) = tables h"
  by (simp_all add: pop_local_def)

lemma conn_ok_cong:
  "conns z' = conns z \<Longrightarrow> objects z' = objects z \<Longrightarrow> signals z' = signals z \<Longrightarrow> conn_ok z' c f p = conn_ok z c f p"
  by (simp add: conn_ok_def)

lemma cap_ok_cong:
  "objects (st h') = objects (st h) \<Longrightarrow> tables h' = tables h \<Longrightarrow> dom A' = dom A \<Longrightarrow> cap_ok h' p A' = cap_ok h p A"
  by (simp add: cap_ok_def)

lemma handle_clients_create_spec:
  assumes acc: "accounts h p_objects A" and conn: "conn_ok (st h) p_conn f p_objects" and room: "cap_room h p_objects"
    and got: "recv_poll (st h) = Some (Some bs, z)" and op: "pad BUFF_SIZE bs ! 0 = CREATE"
    and bytes: "init_bytes (pad BUFF_SIZE bs) ul u pl p" and len: "unat ul < 10" "unat pl < 25"
    and o: "objects (st h) p_objects = Some objs"
  defines "u' \<equiv> take (unat ul + 1) u" and "p' \<equiv> take (unat pl + 1) p" and "sid \<equiv> o_session_id objs + 1"
  shows "\<exists>h'. handle_clients fuel p_conn h = Some h' \<and> script (st h') = script z \<and> gb_run (st h') = gb_run z
     \<and> (if A u' = None then served h h' p_objects A (A(u' \<mapsto> p')) sid [Send f (init_ack INIT ACKNOWLEDGE sid), Close f]
        else served h h' p_objects A A sid [Send f (failure FAILURE (of_int SERVER_ERROR)), Close f])"
proof -
  let ?hz = "hwith_more h z" and ?buff = "pad BUFF_SIZE bs"
  have long: "38 \<le> length ?buff" by (simp add: BUFF_SIZE_def)
  obtain c where c: "p_conn \<noteq> NULL" "conns (st h) p_conn = Some c" "conn_objects c = p_objects" "p_objects \<noteq> NULL"
    using conn by (rule conn_okE) blast
  note P = accounts_polled [OF acc got]
  obtain pk h1 where push: "push_local (take 38 ?buff) ?hz = (pk, h1)" by fastforce
  note L = push_local_accounts [OF P(1) push] and S = push_local_sel [OF push]
  have pk: "init_pack (st h1) pk ul u pl p" by (rule push_local_init_pack [OF P(1) push bytes long])
  have conns1: "conn_ok (st h1) c f p_objects" if "conn_ok (st h) c f p_objects" for c f
    using keeps_conn_ok [OF L(2)] P(4) [OF that] by simp
  have room1: "cap_room h1 p_objects" using P(5) [OF room] S(6,9) by (simp add: cap_room_def)
  have cap1: "cap_ok h1 p_objects A" if "cap_ok h p_objects A" using that S(6,9) P(3) by (simp add: cap_ok_def)
  have o1: "objects (st h1) p_objects = Some objs" using S(6) P(3) o by simp
  obtain h2 t where h2: "create_account p_conn pk h1 = Some h2" "keeps p_objects (st h1) (st h2)"
     "objects (st h2) p_objects = Some (objs\<lparr>o_session_id := sid, o_htable := t\<rparr>)"
     "if A u' = None then accounts h2 p_objects (A(u' \<mapsto> p'))
            \<and> trace (st h2) = trace (st h1) @ [Send f (init_ack INIT ACKNOWLEDGE sid), Close f]
        else accounts h2 p_objects A
            \<and> trace (st h2) = trace (st h1) @ [Send f (failure FAILURE (of_int SERVER_ERROR)), Close f]"
     "cap_ok h1 p_objects A \<longrightarrow> cap_ok h2 p_objects (if A u' = None then A(u' \<mapsto> p') else A)"
    using create_account_spec [OF L(1) conns1 [OF conn] room1 pk len o1] unfolding u'_def p'_def sid_def by blast
  have "pack_at (st h2) pk (length (take 38 ?buff))" using keeps_pack [OF h2(2) L(3)] by (simp add: BUFF_SIZE_def)
  note pop = pop_local_accounts(1) [OF _ this]
  let ?h' = "pop_local pk (length (take 38 ?buff)) h2"
  have "handle_clients fuel p_conn h = Some ?h'"
    using c got op push h2(1) by (simp add: handle_clients_def with_packet_def Let_def)
  moreover have "script (st ?h') = script z \<and> gb_run (st ?h') = gb_run z" using h2(2) L(2) by (simp add: keeps_def)
  moreover have tr: "trace (st h1) = trace (st h)" using S(8) P(2) by simp
  moreover have "conn_ok (st ?h') c f p_objects" if "conn_ok (st h) c f p_objects" for c f
    using keeps_conn_ok [OF h2(2) conns1 [OF that]] conn_ok_cong [of "st ?h'" "st h2"] by simp
  moreover have "cap_ok ?h' p_objects (if A u' = None then A(u' \<mapsto> p') else A)" if "cap_ok h p_objects A"
    using h2(5) cap1 [OF that] cap_ok_cong [of ?h' h2] by simp
  moreover have "conns (st ?h') = conns (st h)" "signals (st ?h') = signals (st h)"
      "dom (objects (st ?h')) = dom (objects (st h))"
    using h2(2) S(5-7) P(3,6,7) by (simp_all add: keeps_def)
  ultimately show ?thesis using h2(3,4) pop o unfolding served_def
    by (intro exI [of _ ?h']) (cases "A u' = None"; simp)
qed

lemma handle_clients_update_spec:
  assumes acc: "accounts h p_objects A" and conn: "conn_ok (st h) p_conn f p_objects"
    and got: "recv_poll (st h) = Some (Some bs, z)" and op: "pad BUFF_SIZE bs ! 0 = UPDATE"
    and bytes: "update_bytes (pad BUFF_SIZE bs) u p nl np" and len: "length np \<le> unat nl" "unat nl < 25"
    and o: "objects (st h) p_objects = Some objs"
  shows "\<exists>h'. handle_clients fuel p_conn h = Some h' \<and> script (st h') = script z \<and> gb_run (st h') = gb_run z
     \<and> (if A u = Some p then served h h' p_objects A (A(u \<mapsto> np)) (o_session_id objs)
              [Send f (update_ack UPDATE ACKNOWLEDGE), Close f]
        else served h h' p_objects A A (o_session_id objs)
              [Send f (failure FAILURE (of_int (if A u = None then INVALID_UNAME else INVALID_LOGIN))), Close f])"
proof -
  let ?hz = "hwith_more h z" and ?buff = "pad BUFF_SIZE bs"
  have long: "64 \<le> length ?buff" by (simp add: BUFF_SIZE_def)
  obtain c where c: "p_conn \<noteq> NULL" "conns (st h) p_conn = Some c" "conn_objects c = p_objects" "p_objects \<noteq> NULL"
    using conn by (rule conn_okE) blast
  note P = accounts_polled [OF acc got]
  obtain pk h1 where push: "push_local (take 64 ?buff) ?hz = (pk, h1)" by fastforce
  note L = push_local_accounts [OF P(1) push] and S = push_local_sel [OF push]
  have pk: "update_pack (st h1) pk u p nl np" by (rule push_local_update_pack [OF P(1) push bytes long])
  have conns1: "conn_ok (st h1) c f p_objects" if "conn_ok (st h) c f p_objects" for c f
    using keeps_conn_ok [OF L(2)] P(4) [OF that] by simp
  have tr: "trace (st h1) = trace (st h)" using S(8) P(2) by simp
  have cap1: "cap_ok h1 p_objects A" if "cap_ok h p_objects A" using that S(6,9) P(3) by (simp add: cap_ok_def)
  have run: "handle_clients fuel p_conn h = map_option (pop_local pk (length (take 64 ?buff))) (update_client p_conn pk h1)"
    using c got op push by (simp add: handle_clients_def with_packet_def Let_def chat_consts)
  obtain h2 where h2: "update_client p_conn pk h1 = Some h2" "keeps p_objects (st h1) (st h2)" "objects (st h2) = objects (st h1)"
    "tables h2 = tables h1"
    "if A u = Some p then accounts h2 p_objects (A(u \<mapsto> np))
         \<and> trace (st h2) = trace (st h1) @ [Send f (update_ack UPDATE ACKNOWLEDGE), Close f]
     else accounts h2 p_objects A \<and> trace (st h2) = trace (st h1)
         @ [Send f (failure FAILURE (of_int (if A u = None then INVALID_UNAME else INVALID_LOGIN))), Close f]"
  proof (cases "A u = Some p")
    case True
    then show thesis using update_client_spec(2) [OF L(1) conns1 [OF conn] pk len] that by auto
  next
    case False
    let ?h2 = "reply h1 f (failure FAILURE (of_int (if A u = None then INVALID_UNAME else INVALID_LOGIN)))"
    have "keeps p_objects (st h1) (st ?h2)" by (rule keeps_same_mem) auto
    then show thesis using False that [of ?h2] update_client_spec(1) [OF L(1) conns1 [OF conn] pk len False]
        accounts_reply [OF L(1)] by simp
  qed
  have pk2: "pack_at (st h2) pk (length (take 64 ?buff))" using keeps_pack [OF h2(2) L(3)] by (simp add: BUFF_SIZE_def)
  let ?h' = "pop_local pk (length (take 64 ?buff)) h2"
  have "handle_clients fuel p_conn h = Some ?h'" using run h2(1) by simp
  moreover have "script (st ?h') = script z \<and> gb_run (st ?h') = gb_run z" using h2(2) L(2) by (simp add: keeps_def)
  moreover have "conn_ok (st ?h') c f p_objects" if "conn_ok (st h) c f p_objects" for c f
    using keeps_conn_ok [OF h2(2) conns1 [OF that]] conn_ok_cong [of "st ?h'" "st h2"] by simp
  moreover have "cap_ok ?h' p_objects A'" if "cap_ok h p_objects A" "dom A' = dom A" for A'
    using cap1 [OF that(1)] cap_ok_cong [of ?h' h1 A' A] h2(3,4) that(2) by simp
  moreover have "dom (A(u \<mapsto> np)) = dom A" if "A u = Some p" using that by auto
  moreover have "conns (st ?h') = conns (st h)" "signals (st ?h') = signals (st h)"
      "dom (objects (st ?h')) = dom (objects (st h))"
    using h2(2) S(5-7) P(3,6,7) by (simp_all add: keeps_def)
  ultimately show ?thesis
    using h2(3,5) pop_local_accounts(1) [OF _ pk2] o S(6) P(3) tr unfolding served_def
    by (intro exI [of _ ?h']) (cases "A u = Some p"; simp)
qed

text \<open>Any other first byte, and a closed or aborted connection: nothing is answered.\<close>

lemma handle_clients_other_spec:
  assumes acc: "accounts h p_objects A" and conn: "conn_ok (st h) p_conn f p_objects"
    and got: "recv_poll (st h) = Some (b, z)"
    and op: "\<forall>bs. b = Some bs \<longrightarrow> pad BUFF_SIZE bs ! 0 \<notin> {CREATE, LOGIN, DELETE, UPDATE}"
    and o: "objects (st h) p_objects = Some objs"
  shows "\<exists>h'. handle_clients fuel p_conn h = Some h' \<and> script (st h') = script z \<and> gb_run (st h') = gb_run z
     \<and> served h h' p_objects A A (o_session_id objs) []"
proof -
  obtain c where c: "p_conn \<noteq> NULL" "conns (st h) p_conn = Some c" "conn_objects c = p_objects" "p_objects \<noteq> NULL"
    using conn by (rule conn_okE) blast
  note P = accounts_polled [OF acc got]
  have "handle_clients fuel p_conn h = Some (hwith_more h z)"
    using c got op by (cases b) (simp_all add: handle_clients_def Let_def)
  moreover have "served h (hwith_more h z) p_objects A A (o_session_id objs) []"
    using P o by (simp add: served_def cap_ok_def)
  ultimately show ?thesis by simp
qed

section \<open>Login\<close>

text \<open>A login that succeeds, followed by a disconnect of the client.\<close>

lemma handle_clients_login_spec:
  assumes acc: "accounts h p_objects A" and conn: "conn_ok (st h) p_conn f p_objects"
    and got: "recv_poll (st h) = Some (Some bs, z)" and op: "pad BUFF_SIZE bs ! 0 = LOGIN"
    and bytes: "init_bytes (pad BUFF_SIZE bs) ul u pl p" and o: "objects (st h) p_objects = Some objs"
  shows "if A u = Some p then \<exists>pk h2 q x. handle_clients fuel p_conn h
            = map_option (pop_local pk 38) (on_st (recv_msgs fuel p_conn q) h2)
         \<and> accounts h2 p_objects A \<and> clients (st h2) q = Some x \<and> fd x = f
         \<and> uname_at (st h2) (q + 16) = Some u \<and> pack_at (st h2) pk 38 \<and> script (st h2) = script z \<and> gb_run (st h2) = gb_run z
         \<and> objects (st h2) = objects (st h) \<and> tables h2 = tables h
         \<and> (\<forall>c f. conn_ok (st h) c f p_objects \<longrightarrow> conn_ok (st h2) c f p_objects)
         \<and> conns (st h2) = conns (st h) \<and> signals (st h2) = signals (st h)
         \<and> trace (st h2) = trace (st h) @ [Send f (login_ack LOGIN ACKNOWLEDGE (of_nat (card (dom A))))]
     else \<exists>h'. handle_clients fuel p_conn h = Some h' \<and> script (st h') = script z \<and> gb_run (st h') = gb_run z
         \<and> served h h' p_objects A A (o_session_id objs)
              [Send f (failure FAILURE (of_int (if A u = None then INVALID_UNAME else INVALID_LOGIN))), Close f]"
proof -
  let ?hz = "hwith_more h z" and ?buff = "pad BUFF_SIZE bs"
  have long: "38 \<le> length ?buff" "length (take 38 ?buff) = 38" by (simp_all add: BUFF_SIZE_def)
  obtain c where c: "p_conn \<noteq> NULL" "conns (st h) p_conn = Some c" "conn_objects c = p_objects" "p_objects \<noteq> NULL"
    using conn by (rule conn_okE) blast
  note P = accounts_polled [OF acc got]
  obtain pk h1 where push: "push_local (take 38 ?buff) ?hz = (pk, h1)" by fastforce
  note L = push_local_accounts [OF P(1) push, unfolded long(2)] and S = push_local_sel [OF push]
  have pk: "init_pack (st h1) pk ul u pl p" by (rule push_local_init_pack [OF P(1) push bytes long(1)])
  have conns1: "conn_ok (st h1) c f p_objects" if "conn_ok (st h) c f p_objects" for c f
    using keeps_conn_ok [OF L(2)] P(4) [OF that] by simp
  have tr: "trace (st h1) = trace (st h)" using S(8) P(2) by simp
  let ?k = "\<lambda>c x. on_st (recv_msgs fuel c x)"
  have run: "handle_clients fuel p_conn h = map_option (pop_local pk 38) (handle_login ?k p_conn pk h1)"
    using c got op push by (simp add: handle_clients_def with_packet_def Let_def chat_consts BUFF_SIZE_def)
  show ?thesis
  proof (cases "A u = Some p")
    case True
    let ?ack = "login_ack LOGIN ACKNOWLEDGE (of_nat (card (dom A)))"
    obtain q x where q: "clients (st h1) q = Some x" "uname_at (st h1) (q + 16) = Some u"
      "accounts (set_fd h1 q f ?ack) p_objects A" "handle_login ?k p_conn pk h1 = ?k p_conn q (set_fd h1 q f ?ack)"
      using handle_login_spec(2) [OF L(1) conns1 [OF conn] pk True, of ?k] by blast
    let ?h2 = "set_fd h1 q f ?ack"
    have "clients (st ?h2) q = Some (x\<lparr>fd := f\<rparr>)" "mem (st ?h2) = mem (st h1)" "script (st ?h2) = script (st h1)" "gb_run (st ?h2) = gb_run (st h1)"
      "trace (st ?h2) = trace (st h1) @ [Send f ?ack]" using q(1) by (simp_all add: set_fd_def)
    moreover have "pack_at (st ?h2) pk 38" using L(3) by (auto simp: pack_at_def set_fd_def split: if_splits)
    moreover have "script (st h1) = script z" "gb_run (st h1) = gb_run z" using L(2) by (simp_all add: keeps_def)
    moreover have "conn_ok (st ?h2) c f p_objects" if "conn_ok (st h) c f p_objects" for c f
      using conns1 [OF that] conn_ok_cong [of "st ?h2" "st h1"] by (simp add: set_fd_def put_def)
    moreover have "objects (st ?h2) = objects (st h)" "tables ?h2 = tables h"
      "conns (st ?h2) = conns (st h)" "signals (st ?h2) = signals (st h)"
      using S(5-7,9) P(3,6,7) by (simp_all add: set_fd_def put_def)
    ultimately show ?thesis using True run q(2-4) tr
      by (simp add: uname_at_def) (rule exI [of _ pk], rule exI [of _ ?h2], rule exI [of _ q], simp)
  next
    case False
    let ?h2 = "reply h1 f (failure FAILURE (of_int (if A u = None then INVALID_UNAME else INVALID_LOGIN)))"
    have h2: "handle_login ?k p_conn pk h1 = Some ?h2"
      by (rule handle_login_spec(1) [OF L(1) conns1 [OF conn] pk False])
    have "pack_at (st ?h2) pk 38" using L(3) by (simp add: pack_at_def)
    note pop = pop_local_accounts(1) [OF accounts_reply [OF L(1)] this]
    let ?h' = "pop_local pk 38 ?h2"
    have "conn_ok (st ?h') c f p_objects" if "conn_ok (st h) c f p_objects" for c f
      using conns1 [OF that] conn_ok_cong [of "st ?h'" "st h1"] by simp
    moreover have "cap_ok ?h' p_objects A" if "cap_ok h p_objects A" using that S(6,9) P(3) by (simp add: cap_ok_def)
    moreover have "script (st ?h') = script z \<and> gb_run (st ?h') = gb_run z" using L(2) by (simp add: keeps_def)
    moreover have "conns (st ?h') = conns (st h)" "signals (st ?h') = signals (st h)" using S(5,7) P(6,7) by simp_all
    ultimately show ?thesis using False run h2 pop o S(6) P(3) tr
      by (simp add: served_def)
  qed
qed

end
