(* ===== verification/ServerEx.thy ===== *)
theory ServerEx
  imports ChatDispatch
begin

text \<open>
  A concrete server for the witnesses: the objects at 16, the signals at 24, connections at 8 and
  9 on sockets 5 and 6, no table yet, and addresses from 1000 on free.
\<close>

definition ex_chat :: "recv_result list \<Rightarrow> chat_state" where
  "ex_chat es = \<lparr>mem = [500 \<mapsto> 98, 501 \<mapsto> 0, 600 \<mapsto> 99, 601 \<mapsto> 0], clients = Map.empty,
     conns = [8 \<mapsto> \<lparr>conn_objects = 16, conn_addr = 4, conn_fd = 5\<rparr>, 9 \<mapsto> \<lparr>conn_objects = 16, conn_addr = 4, conn_fd = 6\<rparr>],
     objects = [16 \<mapsto> \<lparr>o_session_id = 0, o_signals = 24, o_htable = NULL\<rparr>],
     signals = [24 \<mapsto> \<lparr>client_mutex = False, sess_mutex = False\<rparr>], script = es, gb_run = True, trace = [],
     files = Map.empty, can_open = (\<lambda>_. True), dir = None, send_bad = (\<lambda>_. False)\<rparr>"

definition ex_server :: "recv_result list \<Rightarrow> server" where
  "ex_server es = \<lparr>brk = 1000, allocs = 0, oom = (\<lambda>_. False), nodes = Map.empty, lists = Map.empty,
     hnodes = Map.empty, tables = Map.empty, arrs = Map.empty, \<dots> = ex_chat es\<rparr>"

lemma ex_hheap_ok: "hheap_ok (ex_server es)"
  by (simp add: ex_server_def hheap_ok_def lheap_ok_def)

lemma ex_accounts: "accounts (ex_server es) 16 Map.empty"
proof -
  have "layout_ok 1000 (ex_chat es)" by (auto simp: layout_ok_def ex_chat_def)
  then show ?thesis using ex_hheap_ok by (simp add: accounts_def server_ok_def ex_server_def ex_chat_def)
qed

lemma ex_conn: "conn_ok (st (ex_server es)) 8 5 16" "conn_ok (st (ex_server es)) 9 6 16"
  by (simp_all add: conn_ok_def ex_server_def ex_chat_def)

lemma ex_sel [simp]:
  "script (st (ex_server es)) = es" "trace (st (ex_server es)) = []"
  "objects (st (ex_server es)) 16 = Some \<lparr>o_session_id = 0, o_signals = 24, o_htable = NULL\<rparr>"
  "tables (ex_server es) = Map.empty"
  by (simp_all add: ex_server_def ex_chat_def)

lemma ex_cap: "cap_ok (ex_server es) 16 A" "cap_room (ex_server es) 16"
  by (simp_all add: cap_ok_def cap_room_def)

text \<open>The example server with an empty table at 1000, and the keys "b" at 500 and "c" at 600.\<close>

definition ex_table :: server where
  "ex_table = created (ex_server []) HASH_F COMP_F"

lemma ex_table_create: "htable_create HASH_F COMP_F (ex_server []) = Some (1000, ex_table)"
  unfolding ex_table_def using htable_create_ok [OF _ chat.hash_f chat.comp_f, of "ex_server []"]
  by (simp add: ex_server_def)

lemma ex_table_map: "chat.ht_map ex_table 1000 Map.empty"
proof -
  obtain p h' where p: "htable_create HASH_F COMP_F (ex_server []) = Some (p, h')" 
      "chat.ht_map h' p Map.empty"
    using chat.htable_create_spec [OF ex_hheap_ok, of "[]"] by (auto simp: ex_server_def)
  then have "h' = ex_table" "p = 1000" using ex_table_create by simp_all
  with p(2) show ?thesis by simp
qed

lemma ex_table_sel [simp]: "never_oom ex_table" "st ex_table = ex_chat []"
  "tables ex_table 1000 = Some \<lparr>t_hash_f = HASH_F, t_comp_f = COMP_F, t_vals = 1048,
          load_fact_num = 3, load_fact_denom = 4, max_size = 1, curr_size = 0, capacity = 2\<rparr>"
  by (simp_all add: ex_table_def ex_server_def)

lemma ex_keys: "uname_at (ex_chat es) 500 = Some [98]" "uname_at (ex_chat es) 600 = Some [99]"
  by (auto simp: uname_at_def UNAME_MAX_def ex_chat_def intro!: read_strI)

end
