(* ===== verification/HTableProps.thy ===== *)
theory HTableProps
  imports ServerEx
begin

text \<open>
  The properties of the hash table of ChatRoom/src/htable.c, for the server's callbacks: the
  facts of the contract locale at its interpretation.
\<close>

abbreviation find_key :: "ptr \<Rightarrow> ptr \<Rightarrow> server \<Rightarrow> ptr option" where
  "find_key \<equiv> htable_find call_hash call_cmp"

abbreviation insert_key :: "ptr \<Rightarrow> ptr \<Rightarrow> ptr \<Rightarrow> fptr \<Rightarrow> server \<Rightarrow> (bool \<times> ptr \<times> server) option" where
  "insert_key \<equiv> htable_insert call_hash call_cmp call_free"

abbreviation remove_key :: "ptr \<Rightarrow> ptr \<Rightarrow> server \<Rightarrow> (ptr \<times> server) option" where
  "remove_key \<equiv> htable_remove call_hash call_cmp"

lemma find_key_spec:
  "chat.ht_map h t M \<Longrightarrow> uname_at (st h) p = Some k
     \<Longrightarrow> find_key t p h = Some (case M k of None \<Rightarrow> NULL | Some d \<Rightarrow> d)"
  by (rule chat.htable_find_spec)

lemma ex_cap_table: "\<exists>T. tables ex_table 1000 = Some T \<and> unat (capacity T) * 6 < 2 ^ 32"
  by simp

text \<open>C10: Inserting a new key into a hash table that represents a finite map, with or without a
  rehash, succeeds: a fresh node with the key, the value and the free function is what
  \<open>htable_find\<close> then returns for the key, and for every other key it returns what it did before.\<close>

theorem htable_insert_find:
  assumes "chat.ht_map h t M" "never_oom h" "uname_at (st h) p = Some k" "M k = None" "v \<noteq> NULL"
    and "\<exists>T. tables h t = Some T \<and> unat (capacity T) * 6 < 2 ^ 32"
  shows "\<exists>t' h' d. insert_key t p v f h = Some (True, t', h')
     \<and> hnodes h' d = Some \<lparr>h_key = p, h_value = v, h_free = f\<rparr> \<and> find_key t' p h' = Some d
     \<and> (\<forall>p' k'. uname_at (st h) p' = Some k' \<longrightarrow> k' \<noteq> k \<longrightarrow> find_key t' p' h' = find_key t p' h)"
proof -
  obtain t' h' d where 1: "insert_key t p v f h = Some (True, t', h')"
      "hnodes h' = (hnodes h)(d \<mapsto> \<lparr>h_key = p, h_value = v, h_free = f\<rparr>)"
      "chat.ht_map h' t' (M(k \<mapsto> d))" "st h' = st h"
    using chat.htable_insert_spec [OF assms(1-3,5,6), of call_free f] assms(4) by auto
  have "find_key t' p h' = Some d" using find_key_spec [OF 1(3), of p k] 1(4) assms(3) by simp
  moreover have "find_key t' p' h' = find_key t p' h" if "uname_at (st h) p' = Some k'" "k' \<noteq> k" for p' k'
    using find_key_spec [OF 1(3), of p' k'] find_key_spec [OF assms(1) that(1)] 1(4) that by simp
  ultimately show ?thesis using 1(1,2) by (intro exI [of _ t'] exI [of _ h'] exI [of _ d]) simp
qed

theorem htable_insert_find_witness:
  "\<exists>t' h' d. insert_key 1000 500 77 9 ex_table = Some (True, t', h') \<and> find_key t' 500 h' = Some d
     \<and> find_key t' 600 h' = Some NULL"
proof -
  have keys: "uname_at (st ex_table) 500 = Some [98]" "uname_at (st ex_table) 600 = Some [99]"
    by (simp_all add: ex_keys)
  have "\<exists>t' h' d. insert_key 1000 500 77 9 ex_table = Some (True, t', h')
     \<and> hnodes h' d = Some \<lparr>h_key = 500, h_value = 77, h_free = 9\<rparr> \<and> find_key t' 500 h' = Some d
     \<and> (\<forall>p' k'. uname_at (st ex_table) p' = Some k' \<longrightarrow> k' \<noteq> [98] \<longrightarrow> find_key t' p' h' = find_key 1000 p' ex_table)"
    by (rule htable_insert_find [OF ex_table_map ex_table_sel(1) keys(1) _ _ ex_cap_table]) simp_all
  moreover have "find_key 1000 600 ex_table = Some NULL" using find_key_spec [OF ex_table_map keys(2)] by simp
  ultimately show ?thesis using keys(2) by fastforce
qed

text \<open>Inserting a key that is already in the table fails and changes nothing.\<close>

theorem htable_insert_duplicate:
  assumes "chat.ht_map h t M" "never_oom h" "uname_at (st h) p = Some k" "M k \<noteq> None" "v \<noteq> NULL"
    and "\<exists>T. tables h t = Some T \<and> unat (capacity T) * 6 < 2 ^ 32"
  shows "insert_key t p v f h = Some (False, t, h)"
  using chat.htable_insert_spec [OF assms(1-3,5,6), of call_free f] assms(4) by simp

theorem htable_insert_duplicate_witness:
  "\<exists>t h d. chat.ht_map h t [[98] \<mapsto> d] \<and> insert_key t 500 78 9 h = Some (False, t, h)"
proof -
  have key: "uname_at (st ex_table) 500 = Some [98]" by (simp add: ex_keys)
  obtain t' h' d T T' where 1: "insert_key 1000 500 77 9 ex_table = Some (True, t', h')"
      "chat.ht_map h' t' (Map.empty([98] \<mapsto> d))" "st h' = st ex_table" "never_oom h'"
      "tables ex_table 1000 = Some T" "tables h' t' = Some T'"
      "capacity T' = capacity T \<or> unat (capacity T') = 2 * unat (capacity T)"
    using chat.htable_insert_spec [OF ex_table_map ex_table_sel(1) key _ ex_cap_table, of 77 call_free 9] by auto
  have cap: "\<exists>T. tables h' t' = Some T \<and> unat (capacity T) * 6 < 2 ^ 32" using 1(5-7) by auto
  have dup: "insert_key t' 500 78 9 h' = Some (False, t', h')"
    by (rule htable_insert_duplicate [OF 1(2,4) _ _ _ cap, of _ "[98]"]) (simp_all add: 1(3) ex_keys)
  with 1(2) show ?thesis by blast
qed





text \<open>C14: When the list of a new bucket cannot be allocated, \<open>htable_insert\<close> reports success and
  counts the element, but the key is not in the table.\<close>

theorem htable_insert_silent_failure:
  assumes "chat.ht_at h t n a bs As B" "uname_at (st h) p = Some k" "v \<noteq> NULL"
    and "\<forall>d \<in> set (concat B). chat.nkey h d \<noteq> Some k" "Suc (length (concat B)) \<le> n * 3 div 4"
    and "bs ! chat.kidx k n = NULL" "can_alloc h" "oom h (Suc (allocs h))"
  shows "\<exists>h'. insert_key t p v f h = Some (True, t, h') \<and> find_key t p h' = Some NULL
     \<and> (\<exists>T'. tables h' t = Some T' \<and> curr_size T' = of_nat (Suc (length (concat B))))"
  by (rule chat.htable_insert_silent [OF assms])

theorem htable_insert_silent_failure_witness:
  "\<exists>h h'. insert_key 1000 500 77 9 h = Some (True, 1000, h') \<and> find_key 1000 500 h' = Some NULL"
proof -
  let ?h = "ex_table\<lparr>oom := (\<lambda>n. n = 3)\<rparr>"
  have s: "allocs ?h = 2" "st ?h = ex_chat []" by (simp_all add: ex_table_def ex_server_def)
  have at: "chat.ht_at ?h 1000 2 1048 [NULL, NULL] [{}, {}] [[], []]"
    by (auto simp: chat.ht_at_def hheap_ok_def lheap_ok_def ex_table_def ex_server_def table_at_def
        buckets_def bucket_ok_def chat.nkeys_ok_def nth_Cons split: nat.splits if_splits)
  have "chat.kidx [98] 2 < 2" using chat.kidx_less [of 2 "[98]"] by simp
  then have b: "[NULL, NULL] ! chat.kidx [98] 2 = NULL" by (cases "chat.kidx [98] 2") auto
  have "\<exists>h'. insert_key 1000 500 77 9 ?h = Some (True, 1000, h') \<and> find_key 1000 500 h' = Some NULL
     \<and> (\<exists>T'. tables h' 1000 = Some T' \<and> curr_size T' = of_nat (Suc (length (concat [[], []] :: ptr list))))"
    by (rule htable_insert_silent_failure [OF at, of _ "[98]"]) (use s b in \<open>simp_all add: ex_keys\<close>)
  then show ?thesis by blast
qed

section \<open>Destruction\<close>

text \<open>Freeing nodes that are accounts frees each client once.\<close>

definition client_of :: "(ptr \<rightharpoonup> htable_node_t) \<Rightarrow> ptr \<Rightarrow> ptr" where
  "client_of hn d = h_value (the (hn d))"

lemma free_clients:
  assumes "\<forall>d \<in> set ds. \<exists>x. hn d = Some x \<and> h_free x = CLIENT_FREE \<and> h_value x \<noteq> NULL \<and> clients z (h_value x) \<noteq> None"
    and "inj_on (client_of hn) (set ds)" "distinct ds"
  shows "\<exists>z'. free_nodes free_eff hn ds z = Some z' \<and> clients z' = clients z |` (- client_of hn ` set ds)"
  using assms
proof (induction ds arbitrary: z)
  case Nil
  then show ?case by (simp add: restrict_map_def)
next
  case (Cons d ds)
  obtain x c where x: "hn d = Some x" "h_free x = CLIENT_FREE" "h_value x \<noteq> NULL" "clients z (h_value x) = Some c"
    using Cons.prems(1) by auto
  let ?q = "h_value x"
  obtain z1 where z1: "client_free ?q z = Some z1" "clients z1 = (clients z)(?q := None)"
    using x(3,4) by (simp add: client_free_def)
  have ne: "client_of hn e \<noteq> ?q" if "e \<in> set ds" for e
    using Cons.prems(2,3) that x(1) by (force simp: client_of_def inj_on_def)
  have "\<exists>x. hn e = Some x \<and> h_free x = CLIENT_FREE \<and> h_value x \<noteq> NULL \<and> clients z1 (h_value x) \<noteq> None"
    if e: "e \<in> set ds" for e
    using Cons.prems(1) e ne [OF e] z1(2) by (fastforce simp: client_of_def)
  then obtain z' where z': "free_nodes free_eff hn ds z1 = Some z'" "clients z' = clients z1 |` (- client_of hn ` set ds)"
    using Cons.IH [of z1] Cons.prems(2,3) by (auto simp: inj_on_def)
  have "free_nodes free_eff hn (d # ds) z = Some z'"
    using x(1,2) z1(1) z'(1) by (simp add: free_eff_def CLIENT_FREE_def)
  moreover have "clients z' = clients z |` (- client_of hn ` set (d # ds))"
    using z'(2) z1(2) x(1) by (auto simp: restrict_map_def client_of_def fun_eq_iff)
  ultimately show ?case by blast
qed

lemma free_account_nodes:
  assumes "server_ok h" "chat.nkeys_ok h n B" "\<forall>d \<in> set (concat B). \<exists>u p. account_at h d u p"
  shows "\<exists>z. free_nodes free_eff (hnodes h) (concat B) (st h) = Some z
     \<and> clients z = clients (st h) |` (- client_of (hnodes h) ` set (concat B))"
proof -
  have keys: "distinct (map (chat.nkey h) (concat B))" using assms(2) unfolding chat.nkeys_ok_def by blast
  then have dist: "distinct (concat B)" and inj: "inj_on (chat.nkey h) (set (concat B))" by (simp_all only: distinct_map)
  have acc: "\<exists>q. hnodes h d = Some \<lparr>h_key = q + 16, h_value = q, h_free = CLIENT_FREE\<rparr> \<and> clients (st h) q \<noteq> None"
    if "d \<in> set (concat B)" for d using assms(3) that unfolding account_at_def by blast
  have "inj_on (client_of (hnodes h)) (set (concat B))"
  proof (rule inj_onI)
    fix d e assume d: "d \<in> set (concat B)" "e \<in> set (concat B)" "client_of (hnodes h) d = client_of (hnodes h) e"
    obtain q where q: "hnodes h d = Some \<lparr>h_key = q + 16, h_value = q, h_free = CLIENT_FREE\<rparr>" using acc [OF d(1)] by blast
    obtain r where r: "hnodes h e = Some \<lparr>h_key = r + 16, h_value = r, h_free = CLIENT_FREE\<rparr>" using acc [OF d(2)] by blast
    have "chat.nkey h d = chat.nkey h e" using d(3) q r by (simp add: client_of_def chat.nkey_def)
    with inj d(1,2) show "d = e" by (simp only: inj_on_def)
  qed
  moreover have "\<forall>d \<in> set (concat B). \<exists>x. hnodes h d = Some x \<and> h_free x = CLIENT_FREE \<and> h_value x \<noteq> NULL
      \<and> clients (st h) (h_value x) \<noteq> None"
  proof
    fix d assume "d \<in> set (concat B)"
    from acc [OF this] obtain q where q: "hnodes h d = Some \<lparr>h_key = q + 16, h_value = q, h_free = CLIENT_FREE\<rparr>"
      "clients (st h) q \<noteq> None" by blast
    then have "q \<noteq> NULL" using assms(1) layout_okD(4) unfolding server_ok_def by fastforce
    with q show "\<exists>x. hnodes h d = Some x \<and> h_free x = CLIENT_FREE \<and> h_value x \<noteq> NULL
      \<and> clients (st h) (h_value x) \<noteq> None" by simp
  qed
  ultimately show ?thesis using free_clients dist by blast
qed



end
