(* ===== verification/ChatRefine.thy ===== *)
theory ChatRefine
  imports ServerEx
begin

text \<open>
  The server as an account database: an abstract machine of a map from user names to passwords and
  the last session number, and the proof that \<open>handle_clients\<close>, run on one connection after the
  other, implements it. A request is encoded as the packed structs of packets.h, which is also what
  the client does in packets.py.
\<close>

section \<open>Requests\<close>

datatype request =
    Create "byte list" "byte list"
  | Login "byte list" "byte list"
  | Update "byte list" "byte list" "byte list"

fun encode :: "request \<Rightarrow> byte list" where
  "encode (Create u p) = CREATE # of_nat (length u) # pad UNAME_MAX u @ of_nat (length p) # pad PASS_MAX p"
| "encode (Login u p) = LOGIN # of_nat (length u) # pad UNAME_MAX u @ of_nat (length p) # pad PASS_MAX p"
| "encode (Update u p q) = UPDATE # of_nat (length u) # pad UNAME_MAX u @ of_nat (length p) # pad PASS_MAX p
     @ of_nat (length q) # pad PASS_MAX q"

text \<open>Names and passwords without a zero byte that leave room for the terminator.\<close>

fun request_ok :: "request \<Rightarrow> bool" where
  "request_ok (Create u p) \<longleftrightarrow> 0 \<notin> set u \<and> length u < UNAME_MAX \<and> 0 \<notin> set p \<and> length p < PASS_MAX"
| "request_ok (Login u p) \<longleftrightarrow> 0 \<notin> set u \<and> length u < UNAME_MAX \<and> 0 \<notin> set p \<and> length p < PASS_MAX"
| "request_ok (Update u p q) \<longleftrightarrow> 0 \<notin> set u \<and> length u < UNAME_MAX \<and> 0 \<notin> set p \<and> length p < PASS_MAX
     \<and> 0 \<notin> set q \<and> length q < PASS_MAX"

lemma cstr_pad: "0 \<notin> set u \<Longrightarrow> length u < n \<Longrightarrow> cstr (pad n u) = Some u"
proof -
  assume u: "0 \<notin> set u" "length u < n"
  have "pad n u = u @ replicate (n - length u) 0" using u(2) by (simp add: pad_def take_replicate min_def)
  then have "0 \<in> set (pad n u)" using u(2) by simp
  then show ?thesis using c_text_pad [OF u(2)] c_text_id [OF u(1)] by (simp add: cstr_def)
qed

lemma pad_BUFF: "length bs \<le> 1024 \<Longrightarrow> pad 1024 bs = bs @ replicate (1024 - length bs) 0"
  by (simp add: pad_def take_replicate min_def)

lemma init_bytes_encode:
  assumes "0 \<notin> set u" "length u < UNAME_MAX" "0 \<notin> set p" "length p < PASS_MAX"
  shows "init_bytes (pad BUFF_SIZE (op # ul # pad UNAME_MAX u @ pl # pad PASS_MAX p)) ul u pl p"
    "pad BUFF_SIZE (op # ul # pad UNAME_MAX u @ pl # pad PASS_MAX p) ! 0 = op"
  using cstr_pad [OF assms(1,2)] cstr_pad [OF assms(3,4)]
  by (simp_all add: init_bytes_def pad_BUFF BUFF_SIZE_def UNAME_MAX_def PASS_MAX_def nth_append)

lemma update_bytes_encode:
  assumes "0 \<notin> set u" "length u < UNAME_MAX" "0 \<notin> set p" "length p < PASS_MAX" "0 \<notin> set q" "length q < PASS_MAX"
  shows "update_bytes (pad BUFF_SIZE (op # ul # pad UNAME_MAX u @ pl # pad PASS_MAX p @ ql # pad PASS_MAX q)) u p ql q"
    "pad BUFF_SIZE (op # ul # pad UNAME_MAX u @ pl # pad PASS_MAX p @ ql # pad PASS_MAX q) ! 0 = op"
  using cstr_pad [OF assms(1,2)] cstr_pad [OF assms(3,4)] cstr_pad [OF assms(5,6)]
  by (simp_all add: update_bytes_def pad_BUFF BUFF_SIZE_def UNAME_MAX_def PASS_MAX_def nth_append)

lemma encode_length: "length (encode r) \<le> BUFF_SIZE"
  by (cases r) (simp_all add: BUFF_SIZE_def UNAME_MAX_def PASS_MAX_def)

lemma unat_byte_length: "length u < 256 \<Longrightarrow> unat (of_nat (length u) :: byte) = length u"
  by (simp add: unat_of_nat)

section \<open>The abstract machine\<close>

type_synonym db = "(byte list \<rightharpoonup> byte list) \<times> 64 word"

definition reject :: "(byte list \<rightharpoonup> byte list) \<Rightarrow> byte list \<Rightarrow> packet" where
  "reject A u = failure FAILURE (of_int (if A u = None then INVALID_UNAME else INVALID_LOGIN))"

fun db_step :: "request \<Rightarrow> db \<Rightarrow> db \<times> packet" where
  "db_step (Create u p) (A, s) =
     (if A u = None then ((A(u \<mapsto> p), s + 1), init_ack INIT ACKNOWLEDGE (s + 1))
      else ((A, s + 1), failure FAILURE (of_int SERVER_ERROR)))"
| "db_step (Login u p) (A, s) =
     ((A, s), if A u = Some p then login_ack LOGIN ACKNOWLEDGE (of_nat (card (dom A))) else reject A u)"
| "db_step (Update u p q) (A, s) =
     (if A u = Some p then ((A(u \<mapsto> q), s), update_ack UPDATE ACKNOWLEDGE) else ((A, s), reject A u))"

text \<open>What the client of a request sends: a client that is logged in disconnects.\<close>

fun messages :: "request \<Rightarrow> db \<Rightarrow> byte list list" where
  "messages (Login u p) (A, s) = encode (Login u p) # (if A u = Some p then [[DISCONNECT]] else [])"
| "messages r d = [encode r]"

text \<open>A run over the requests of connections \<open>c\<close> with sockets \<open>f\<close>: the final database, what is
  received and what is done on the sockets.\<close>

fun db_run :: "(ptr \<times> int \<times> request) list \<Rightarrow> db \<Rightarrow> db \<times> byte list list \<times> action list" where
  "db_run [] d = (d, [], [])"
| "db_run ((c, f, r) # rs) d =
     (let (d1, k) = db_step r d; (d2, ms, acts) = db_run rs d1
      in (d2, messages r d @ ms, Send f k # Close f # acts))"

fun serve :: "nat \<Rightarrow> ptr list \<Rightarrow> server \<Rightarrow> server option" where
  "serve fuel [] h = Some h"
| "serve fuel (c # cs) h = do { h \<leftarrow> handle_clients fuel c h; serve fuel cs h }"

section \<open>The refinement\<close>

lemma db_step_dom: "db_step r (A, s) = ((A', s'), k) \<Longrightarrow> finite (dom A)
    \<Longrightarrow> finite (dom A') \<and> card (dom A') \<le> Suc (card (dom A))"
  by (cases r) (auto split: if_splits simp: card_insert_if)

lemma got_encode:
  "script (st h) = Got True (encode r) # es
     \<Longrightarrow> recv_poll (st h) = Some (Some (encode r), (st h)\<lparr>script := es, gb_run := True\<rparr>)"
  using recv_poll_Got encode_length by simp

lemma recv_msgs_disconnect:
  assumes "clients z q = Some x" "script z = Got r [DISCONNECT] # es" "0 < fuel"
  shows "recv_msgs fuel p q z = Some (put (Close (fd x)) (z\<lparr>script := es, gb_run := r\<rparr>))"
  using assms recv_poll_Got [OF assms(2)] by (cases fuel) (simp_all add: nth_byte_def BUFF_SIZE_def)

lemma served_mono:
  "served h h' po A A' s acts \<Longrightarrow> cap_ok h po A \<Longrightarrow> accounts h' po A' \<and> cap_ok h' po A'
     \<and> (\<exists>objs. objects (st h') po = Some objs \<and> o_session_id objs = s)"
  unfolding served_def by blast

lemma handle_login_disconnect:
  assumes acc: "accounts h po A" and conn: "conn_ok (st h) c f po" and o: "objects (st h) po = Some objs"
    and script: "script (st h) = map (Got True) [encode (Login u p), [DISCONNECT]] @ es" and ok: "request_ok (Login u p)"
    and A: "A u = Some p" and fuel: "0 < fuel"
  shows "\<exists>h'. handle_clients fuel c h = Some h' \<and> script (st h') = es \<and> gb_run (st h')
     \<and> served h h' po A A (o_session_id objs) [Send f (login_ack LOGIN ACKNOWLEDGE (of_nat (card (dom A)))), Close f]"
proof -
  let ?bs = "encode (Login u p)" and ?z = "(st h)\<lparr>script := Got True [DISCONNECT] # es, gb_run := True\<rparr>"
  have got: "recv_poll (st h) = Some (Some ?bs, ?z)"
    by (rule got_encode) (simp add: script)
  have b: "init_bytes (pad BUFF_SIZE ?bs) (of_nat (length u)) u (of_nat (length p)) p" "pad BUFF_SIZE ?bs ! 0 = LOGIN"
    using ok init_bytes_encode by simp_all
  obtain pk h2 q x where 2: "handle_clients fuel c h = map_option (pop_local pk 38) (on_st (recv_msgs fuel c q) h2)"
      "accounts h2 po A" "clients (st h2) q = Some x" "fd x = f" "pack_at (st h2) pk 38"
      "script (st h2) = Got True [DISCONNECT] # es" "objects (st h2) = objects (st h)" "tables h2 = tables h"
      "\<forall>c f. conn_ok (st h) c f po \<longrightarrow> conn_ok (st h2) c f po"
      "conns (st h2) = conns (st h)" "signals (st h2) = signals (st h)"
      "trace (st h2) = trace (st h) @ [Send f (login_ack LOGIN ACKNOWLEDGE (of_nat (card (dom A))))]"
    using handle_clients_login_spec [OF acc conn got b(2,1) o, of fuel] A by auto
  let ?z3 = "put (Close f) ((st h2)\<lparr>script := es, gb_run := True\<rparr>)"
  let ?h3 = "hwith_more h2 ?z3" and ?h' = "pop_local pk 38 (hwith_more h2 ?z3)"
  have acc3: "accounts ?h3 po A" by (rule accounts_same [OF 2(2)]) simp_all
  have pk3: "pack_at (st ?h3) pk 38" using 2(5) by (simp add: pack_at_def)
  have "conn_ok (st ?h') c f po" if "conn_ok (st h) c f po" for c f
    using 2(9) that conn_ok_cong [of "st ?h'" "st h2"] by simp
  moreover have "cap_ok ?h' po A" if "cap_ok h po A" using that 2(7,8) by (simp add: cap_ok_def)
  moreover have "handle_clients fuel c h = Some ?h'"
    using 2(1,4) recv_msgs_disconnect [OF 2(3,6) fuel] by (simp add: on_st_def)
  ultimately show ?thesis using pop_local_accounts(1) [OF acc3 pk3] 2(7,10-12) o
    by (intro exI [of _ ?h']) (simp add: served_def)
qed

lemma serve_one:
  assumes acc: "accounts h po A" and conn: "conn_ok (st h) c f po" and o: "objects (st h) po = Some objs"
    and cap: "cap_room h po" and ok: "request_ok r" and fuel: "0 < fuel"
    and script: "script (st h) = map (Got True) (messages r (A, o_session_id objs)) @ es"
    and step: "db_step r (A, o_session_id objs) = ((A', s'), k)"
  shows "\<exists>h'. handle_clients fuel c h = Some h' \<and> script (st h') = es \<and> gb_run (st h')
     \<and> served h h' po A A' s' [Send f k, Close f]"
proof (cases r)
  case (Create u p)
  let ?z = "(st h)\<lparr>script := es, gb_run := True\<rparr>"
  have got: "recv_poll (st h) = Some (Some (encode r), ?z)" by (rule got_encode) (simp add: script Create)
  have b: "init_bytes (pad BUFF_SIZE (encode r)) (of_nat (length u)) u (of_nat (length p)) p"
     "pad BUFF_SIZE (encode r) ! 0 = CREATE" using ok init_bytes_encode unfolding Create by simp_all
  have l: "unat (of_nat (length u) :: byte) = length u" "unat (of_nat (length p) :: byte) = length p"
    "length u < 10" "length p < 25"
    using ok unfolding Create by (simp_all add: unat_byte_length UNAME_MAX_def PASS_MAX_def)
  from handle_clients_create_spec [OF acc conn cap got b(2,1) _ _ o, of fuel] l step
  show ?thesis unfolding Create by (cases "A u") auto
next
  case (Login u p)
  show ?thesis
  proof (cases "A u = Some p")
    case True
    have sc: "script (st h) = map (Got True) [encode (Login u p), [DISCONNECT]] @ es"
      using script True unfolding Login by simp
    have ok': "request_ok (Login u p)" using ok unfolding Login .
    show ?thesis using handle_login_disconnect [OF acc conn o sc ok' True fuel] step True unfolding Login by auto
  next
    case False
    let ?z = "(st h)\<lparr>script := es, gb_run := True\<rparr>"
    have got: "recv_poll (st h) = Some (Some (encode r), ?z)" by (rule got_encode) (simp add: script Login False)
    have b: "init_bytes (pad BUFF_SIZE (encode r)) (of_nat (length u)) u (of_nat (length p)) p"
       "pad BUFF_SIZE (encode r) ! 0 = LOGIN" using ok init_bytes_encode unfolding Login by simp_all
    from handle_clients_login_spec [OF acc conn got b(2,1) o, of fuel] False step
    show ?thesis unfolding Login by (auto simp: reject_def)
  qed
next
  case (Update u p q)
  let ?z = "(st h)\<lparr>script := es, gb_run := True\<rparr>"
  have got: "recv_poll (st h) = Some (Some (encode r), ?z)" by (rule got_encode) (simp add: script Update)
  have b: "update_bytes (pad BUFF_SIZE (encode r)) u p (of_nat (length q)) q"
     "pad BUFF_SIZE (encode r) ! 0 = UPDATE" using ok update_bytes_encode unfolding Update by simp_all
  have l: "length q \<le> unat (of_nat (length q) :: byte)" "unat (of_nat (length q) :: byte) < 25"
    using ok unfolding Update by (simp_all add: unat_byte_length PASS_MAX_def)
  from handle_clients_update_spec [OF acc conn got b(2,1) l o, of fuel] step
  show ?thesis unfolding Update by (auto simp: reject_def split: if_splits)
qed

lemma accounts_finite: "accounts h po A \<Longrightarrow> finite (dom A)"
  by (auto simp: accounts_def accounts_in_def dest: chat.ht_map_finite split: if_splits)

lemma serve_run:
  assumes "accounts h po A" "\<forall>(c, f, r) \<in> set rs. conn_ok (st h) c f po \<and> request_ok r"
    and "objects (st h) po = Some objs" "cap_ok h po A" "card (dom A) + length rs < 2 ^ 27" "0 < fuel"
    and "db_run rs (A, o_session_id objs) = ((A', s'), ms, acts)" "script (st h) = map (Got True) ms @ es"
  shows "\<exists>h'. serve fuel (map fst rs) h = Some h' \<and> script (st h') = es \<and> served h h' po A A' s' acts"
  using assms
proof (induction rs arbitrary: h A objs ms acts)
  case Nil
  then show ?case by (auto simp: served_def)
next
  case (Cons x rs)
  obtain c f r where x: "x = (c, f, r)" by (cases x)
  obtain A1 s1 k where 1: "db_step r (A, o_session_id objs) = ((A1, s1), k)" by (metis prod.collapse)
  obtain ms2 acts2 where 2: "db_run rs (A1, s1) = ((A', s'), ms2, acts2)" "ms = messages r (A, o_session_id objs) @ ms2"
      "acts = Send f k # Close f # acts2"
    using Cons.prems(7) 1 by (auto simp: x split: prod.splits)
  have conn: "conn_ok (st h) c f po" and ok: "request_ok r" using Cons.prems(2) by (auto simp: x)
  have room: "cap_room h po" using cap_ok_room [OF Cons.prems(4)] Cons.prems(5) by simp
  have sc: "script (st h) = map (Got True) (messages r (A, o_session_id objs)) @ map (Got True) ms2 @ es"
    using Cons.prems(8) 2(2) by simp
  obtain h1 where h1: "handle_clients fuel c h = Some h1" "script (st h1) = map (Got True) ms2 @ es"
      "served h h1 po A A1 s1 [Send f k, Close f]"
    using serve_one [OF Cons.prems(1) conn Cons.prems(3) room ok Cons.prems(6) sc 1] by blast
  obtain objs1 where o1: "accounts h1 po A1" "cap_ok h1 po A1" "objects (st h1) po = Some objs1" "o_session_id objs1 = s1"
    using served_mono [OF h1(3) Cons.prems(4)] by blast
  have conns1: "\<forall>(c, f, r) \<in> set rs. conn_ok (st h1) c f po \<and> request_ok r"
    using Cons.prems(2) h1(3) unfolding served_def by fastforce
  have card1: "card (dom A1) + length rs < 2 ^ 27"
    using db_step_dom [OF 1 accounts_finite [OF Cons.prems(1)]] Cons.prems(5) by simp
  obtain h' where h': "serve fuel (map fst rs) h1 = Some h'" "script (st h') = es" "served h1 h' po A1 A' s' acts2"
    using Cons.IH [OF o1(1) conns1 o1(3,2) card1 Cons.prems(6) _ h1(2)] 2(1) o1(4) by blast
  have "served h h' po A A' s' acts"
    using h'(3) h1(3) unfolding served_def 2(3) by auto
  then show ?case using h1(1) h'(1,2) by (simp add: x)
qed

end
