(* ===== verification/ChatProps.thy ===== *)
theory ChatProps
  imports ChatRefine
begin

text \<open>The properties of the chat server's accounts and of its message loop.\<close>

section \<open>Accounts\<close>

text \<open>The example server after the account "b" with password "h" has been created.\<close>

lemma ex_created:
  "\<exists>h objs. script (st h) = es \<and> accounts h 16 [[98] \<mapsto> [104]] \<and> cap_ok h 16 [[98] \<mapsto> [104]]
     \<and> conn_ok (st h) 8 5 16 \<and> conn_ok (st h) 9 6 16 \<and> objects (st h) 16 = Some objs"
proof -
  let ?h = "ex_server (map (Got True) [encode (Create [98] [104])] @ es)"
  have ok: "request_ok (Create [98] [104])" by (simp add: UNAME_MAX_def PASS_MAX_def)
  have step: "db_step (Create [98] [104]) (Map.empty, o_session_id \<lparr>o_session_id = 0, o_signals = 24, o_htable = NULL\<rparr>)
     = (([[98] \<mapsto> [104]], 1), init_ack INIT ACKNOWLEDGE 1)" by simp
  have "\<exists>h'. handle_clients 1 8 ?h = Some h' \<and> script (st h') = es \<and> gb_run (st h')
     \<and> served ?h h' 16 Map.empty [[98] \<mapsto> [104]] 1 [Send 5 (init_ack INIT ACKNOWLEDGE 1), Close 5]"
    by (rule serve_one [OF ex_accounts ex_conn(1) ex_sel(3) ex_cap(2) ok _ _ step]) simp_all
  then obtain h' where h': "script (st h') = es"
     "served ?h h' 16 Map.empty [[98] \<mapsto> [104]] 1 [Send 5 (init_ack INIT ACKNOWLEDGE 1), Close 5]" by blast
  show ?thesis using h'(1) served_mono [OF h'(2) ex_cap(1)] h'(2) ex_conn unfolding served_def by blast
qed

text \<open>C1: The server implements the account database. From a state that represents the map \<open>A\<close>
  from names to passwords, serving a sequence of connections that create accounts, log in (and
  then disconnect) or change passwords runs without undefined behaviour, consumes exactly what
  the clients send, does on the sockets exactly what the abstract machine \<open>db_run\<close> says, in
  order, and ends in a state that represents the final map and session number of that machine.\<close>

theorem server_refines_database:
  assumes "accounts h po A" "\<forall>(c, f, r) \<in> set rs. conn_ok (st h) c f po \<and> request_ok r"
    and "objects (st h) po = Some objs" "cap_ok h po A" "card (dom A) + length rs < 2 ^ 27" "0 < fuel"
    and "db_run rs (A, o_session_id objs) = ((A', s'), ms, acts)" "script (st h) = map (Got True) ms @ es"
  shows "\<exists>h'. serve fuel (map fst rs) h = Some h' \<and> script (st h') = es \<and> accounts h' po A'
     \<and> trace (st h') = trace (st h) @ acts
     \<and> (\<exists>objs'. objects (st h') po = Some objs' \<and> o_session_id objs' = s')"
  using serve_run [OF assms] unfolding served_def by blast

theorem server_refines_database_witness:
  "\<exists>h'. serve 1 [8, 9] (ex_server (map (Got True)
        [encode (Create [98] [104, 105]), encode (Login [98] [104, 105]), [DISCONNECT]])) = Some h'
     \<and> accounts h' 16 [[98] \<mapsto> [104, 105]]
     \<and> trace (st h') = [Send 5 (init_ack INIT ACKNOWLEDGE 1), Close 5, Send 6 (login_ack LOGIN ACKNOWLEDGE 1), Close 6]"
proof -
  let ?rs = "[(8, 5, Create [98] [104, 105]), (9, 6, Login [98] [104, 105])] :: (ptr \<times> int \<times> request) list"
  let ?ms = "[encode (Create [98] [104, 105]), encode (Login [98] [104, 105]), [DISCONNECT]]"
  let ?acts = "[Send 5 (init_ack INIT ACKNOWLEDGE 1), Close 5, Send 6 (login_ack LOGIN ACKNOWLEDGE 1), Close 6]"
  let ?h = "ex_server (map (Got True) ?ms)"
  have ok: "\<forall>(c, f, r) \<in> set ?rs. conn_ok (st ?h) c f 16 \<and> request_ok r"
    using ex_conn by (simp add: UNAME_MAX_def PASS_MAX_def)
  have run: "db_run ?rs (Map.empty, o_session_id \<lparr>o_session_id = 0, o_signals = 24, o_htable = NULL\<rparr>)
      = (([[98] \<mapsto> [104, 105]], 1), ?ms, ?acts)" by simp
  have "\<exists>h'. serve 1 (map fst ?rs) ?h = Some h' \<and> script (st h') = [] \<and> accounts h' 16 [[98] \<mapsto> [104, 105]]
     \<and> trace (st h') = trace (st ?h) @ ?acts \<and> (\<exists>objs'. objects (st h') 16 = Some objs' \<and> o_session_id objs' = 1)"
    by (rule server_refines_database [OF ex_accounts ok ex_sel(3) ex_cap(1) _ _ run]) simp_all
  then show ?thesis by auto
qed

text \<open>C21: An account that was created with a fresh name can be used: the creation is acknowledged
  with the next session number, and a later login with the same name and password is acknowledged
  with the number of accounts.\<close>

theorem create_login_roundtrip:
  assumes "accounts h po A" "conn_ok (st h) c1 f1 po" "conn_ok (st h) c2 f2 po" "objects (st h) po = Some objs"
    and "cap_ok h po A" "card (dom A) + 2 < 2 ^ 27" "A u = None" "request_ok (Create u p)"
    and "script (st h) = map (Got True) [encode (Create u p), encode (Login u p), [DISCONNECT]] @ es"
  shows "\<exists>h'. serve 1 [c1, c2] h = Some h' \<and> accounts h' po (A(u \<mapsto> p)) \<and> trace (st h') = trace (st h)
     @ [Send f1 (init_ack INIT ACKNOWLEDGE (o_session_id objs + 1)), Close f1,
        Send f2 (login_ack LOGIN ACKNOWLEDGE (of_nat (Suc (card (dom A))))), Close f2]"
proof -
  let ?rs = "[(c1, f1, Create u p), (c2, f2, Login u p)]"
  have run: "db_run ?rs (A, o_session_id objs) = ((A(u \<mapsto> p), o_session_id objs + 1),
      [encode (Create u p), encode (Login u p), [DISCONNECT]],
      [Send f1 (init_ack INIT ACKNOWLEDGE (o_session_id objs + 1)), Close f1,
        Send f2 (login_ack LOGIN ACKNOWLEDGE (of_nat (Suc (card (dom A))))), Close f2])"
    using assms(7) accounts_finite [OF assms(1)] by (simp add: domIff)
  from serve_run [OF assms(1) _ assms(4,5) _ _ run assms(9), of 1] assms(2,3,6,8)
  show ?thesis unfolding served_def by auto
qed

theorem create_login_roundtrip_witness:
  "\<exists>h'. serve 1 [9, 8] (ex_server (map (Got True) [encode (Create [99] []), encode (Login [99] []), [DISCONNECT]]))
       = Some h' \<and> accounts h' 16 [[99] \<mapsto> []]"
proof -
  let ?h = "ex_server (map (Got True) [encode (Create [99] []), encode (Login [99] []), [DISCONNECT]])"
  have "\<exists>h'. serve 1 [9, 8] ?h = Some h' \<and> accounts h' 16 (Map.empty([99] \<mapsto> [])) \<and> trace (st h') = trace (st ?h)
     @ [Send 6 (init_ack INIT ACKNOWLEDGE (o_session_id \<lparr>o_session_id = 0, o_signals = 24, o_htable = NULL\<rparr> + 1)), Close 6,
        Send 5 (login_ack LOGIN ACKNOWLEDGE (of_nat (Suc (card (dom (Map.empty :: byte list \<rightharpoonup> byte list)))))), Close 5]"
    by (rule create_login_roundtrip [OF ex_accounts ex_conn(2,1) ex_sel(3) ex_cap(1), where es = "[]"])
      (simp_all add: UNAME_MAX_def PASS_MAX_def)
  then show ?thesis by blast
qed

text \<open>A password change takes effect: it is acknowledged, afterwards the old password is
  rejected with \<open>INVALID_LOGIN\<close> (when it differs) and the new one is accepted.\<close>

theorem update_changes_password:
  assumes "accounts h po A" "conn_ok (st h) c1 f1 po" "conn_ok (st h) c2 f2 po" "conn_ok (st h) c3 f3 po"
    and "objects (st h) po = Some objs" "cap_ok h po A" "card (dom A) + 3 < 2 ^ 27"
    and "A u = Some p" "p \<noteq> q" "request_ok (Update u p q)"
    and "script (st h) = map (Got True) [encode (Update u p q), encode (Login u p), encode (Login u q), [DISCONNECT]] @ es"
  shows "\<exists>h'. serve 1 [c1, c2, c3] h = Some h' \<and> accounts h' po (A(u \<mapsto> q)) \<and> trace (st h') = trace (st h)
     @ [Send f1 (update_ack UPDATE ACKNOWLEDGE), Close f1, Send f2 (failure FAILURE (of_int INVALID_LOGIN)), Close f2,
        Send f3 (login_ack LOGIN ACKNOWLEDGE (of_nat (card (dom A)))), Close f3]"
proof -
  let ?rs = "[(c1, f1, Update u p q), (c2, f2, Login u p), (c3, f3, Login u q)]"
  have dom: "insert u (dom A) = dom A" using assms(8) by blast
  have run: "db_run ?rs (A, o_session_id objs) = ((A(u \<mapsto> q), o_session_id objs),
      [encode (Update u p q), encode (Login u p), encode (Login u q), [DISCONNECT]],
      [Send f1 (update_ack UPDATE ACKNOWLEDGE), Close f1, Send f2 (failure FAILURE (of_int INVALID_LOGIN)), Close f2,
        Send f3 (login_ack LOGIN ACKNOWLEDGE (of_nat (card (dom A)))), Close f3])"
    using assms(8,9) dom by (simp add: reject_def)
  from serve_run [OF assms(1) _ assms(5,6) _ _ run assms(11), of 1] assms(2-4,7,10)
  show ?thesis unfolding served_def by auto
qed

theorem update_changes_password_witness:
  "\<exists>h h'. serve 1 [8, 9, 8] h = Some h' \<and> accounts h' 16 [[98] \<mapsto> [106]]"
proof -
  let ?es = "map (Got True) [encode (Update [98] [104] [106]), encode (Login [98] [104]), encode (Login [98] [106]), [DISCONNECT]]"
  obtain h1 objs where h1: "script (st h1) = ?es" "accounts h1 16 [[98] \<mapsto> [104]]" "cap_ok h1 16 [[98] \<mapsto> [104]]"
     "conn_ok (st h1) 8 5 16" "conn_ok (st h1) 9 6 16" "objects (st h1) 16 = Some objs"
    using ex_created by blast
  have "\<exists>h'. serve 1 [8, 9, 8] h1 = Some h' \<and> accounts h' 16 ([[98] \<mapsto> [104]]([98] \<mapsto> [106])) \<and> trace (st h') = trace (st h1)
     @ [Send 5 (update_ack UPDATE ACKNOWLEDGE), Close 5, Send 6 (failure FAILURE (of_int INVALID_LOGIN)), Close 6,
        Send 5 (login_ack LOGIN ACKNOWLEDGE (of_nat (card (dom [[98 :: byte] \<mapsto> [104 :: byte]])))), Close 5]"
    by (rule update_changes_password [OF h1(2,4,5,4,6,3), where es = "[]"])
      (simp_all add: UNAME_MAX_def PASS_MAX_def h1(1) del: encode.simps)
  then show ?thesis by auto
qed

text \<open>A login packet with an unknown name or a wrong password, whatever its other bytes, is
  answered with the matching error and closed; the accounts stay as they are.\<close>

theorem login_rejected:
  assumes "accounts h po A" "conn_ok (st h) c f po" "recv_poll (st h) = Some (Some bs, z)"
    and "pad BUFF_SIZE bs ! 0 = LOGIN" "init_bytes (pad BUFF_SIZE bs) ul u pl p" "A u \<noteq> Some p"
  shows "\<exists>h'. handle_clients fuel c h = Some h' \<and> accounts h' po A
     \<and> trace (st h') = trace (st h)
         @ [Send f (failure FAILURE (of_int (if A u = None then INVALID_UNAME else INVALID_LOGIN))), Close f]"
proof -
  obtain objs where "objects (st h) po = Some objs" using assms(1) unfolding accounts_def by blast
  from handle_clients_login_spec [OF assms(1-5) this, of fuel] assms(6) show ?thesis
    unfolding served_def by auto
qed

theorem login_rejected_witness:
  "\<exists>h'. handle_clients 1 8 (ex_server [Got True (encode (Login [98] [104]))]) = Some h'
     \<and> trace (st h') = [Send 5 (failure FAILURE (of_int INVALID_UNAME)), Close 5]"
proof -
  let ?bs = "encode (Login [98] [104])" and ?h = "ex_server [Got True (encode (Login [98] [104]))]"
  have b: "init_bytes (pad BUFF_SIZE ?bs) 1 [98] 1 [104]" "pad BUFF_SIZE ?bs ! 0 = LOGIN"
    using init_bytes_encode [of "[98]" "[104]"] by (simp_all add: UNAME_MAX_def PASS_MAX_def)
  have got: "recv_poll (st ?h) = Some (Some ?bs, (st ?h)\<lparr>script := [], gb_run := True\<rparr>)"
    by (rule got_encode) simp
  from login_rejected [OF ex_accounts ex_conn(1) got b(2,1), of 1] show ?thesis by auto
qed


text \<open>An account in the example server, and a packet of its owner.\<close>

lemma ex_account:
  "\<exists>h pk. accounts h 16 [[98] \<mapsto> [104]] \<and> conn_ok (st h) 9 6 16 \<and> init_pack (st h) pk 1 [98] 1 [104] \<and> conn_ok (st h) 8 5 16"
proof -
  have ok: "request_ok (Create [98] [104])" by (simp add: UNAME_MAX_def PASS_MAX_def)
  obtain h1 where acc: "accounts h1 16 [[98] \<mapsto> [104]]" "conn_ok (st h1) 9 6 16" "conn_ok (st h1) 8 5 16" using ex_created by blast
  let ?buff = "pad BUFF_SIZE (encode (Create [98] [104]))"
  obtain pk h2 where push: "push_local (take 38 ?buff) h1 = (pk, h2)" by fastforce
  note L = push_local_accounts [OF acc(1) push]
  have "init_bytes ?buff 1 [98] 1 [104]" using init_bytes_encode [of "[98]" "[104]"] ok by simp
  then have "init_pack (st h2) pk 1 [98] 1 [104]"
    by (rule push_local_init_pack [OF acc(1) push]) (simp add: BUFF_SIZE_def)
  then show ?thesis using L(1) keeps_conn_ok [OF L(2) acc(2)] keeps_conn_ok [OF L(2) acc(3)] by blast
qed




lemma strncmp_same:
  "(\<And>i. i < n \<Longrightarrow> \<exists>c. m (p + i) = Some c \<and> m (p' + i) = Some c) \<Longrightarrow> strncmp m p p' n = Some 0"
proof (induction n arbitrary: p p')
  case (Suc n)
  have "strncmp m (Suc p) (Suc p') n = Some 0"
  proof (rule Suc.IH)
    show "\<exists>c. m (Suc p + i) = Some c \<and> m (Suc p' + i) = Some c" if "i < n" for i
      using Suc.prems [of "Suc i"] that by simp
  qed
  then show ?case using Suc.prems [of 0] by auto
qed simp

lemma hash_f_str: "read_str m p 100 = Some s \<Longrightarrow> n \<noteq> 0 \<Longrightarrow> hash_f p n m = Some (str_hash s mod n)"
  using hash_loop_spec [of m p 100 s 0 0] by (simp add: hash_f_def str_hash_def)


definition ex_bytes :: "ptr \<Rightarrow> byte list \<Rightarrow> mem" where
  "ex_bytes p bs = (\<lambda>a. if p \<le> a \<and> a < p + length bs then Some (bs ! (a - p)) else None)"


section \<open>Messages and files\<close>


text \<open>C28: An upload whose announced size is the number of bytes sent creates the file under
  \<open>./server_files/\<close> with the part of each received chunk before its first zero byte, and goes on
  with the next message.\<close>

theorem upload_stores_text:
  assumes "clients z q = Some x" "p \<noteq> NULL" "conns z p = Some c" "objects z (conn_objects c) \<noteq> None"
    and "upload_req up (length (concat chunks)) nl name" "can_open z (file_path nl name)"
    and "chunks \<noteq> []" "\<forall>c \<in> set chunks. c \<noteq> [] \<and> length c \<le> BUFF_SIZE" "length (concat chunks) < 2 ^ 32"
    and "script z = Got True up # map (Got True) chunks @ es"
  shows "recv_msgs (Suc n) p q z = recv_msgs n p q (z\<lparr>script := es, gb_run := True,
     files := (files z)(file_path nl name \<mapsto> concat (map (takeWhile (\<lambda>b. b \<noteq> 0)) chunks))\<rparr>)"
  by (rule recv_msgs_upload [OF assms])

text \<open>The example client on socket 5, logged in with connection 8.\<close>

definition ex_session :: "recv_result list \<Rightarrow> chat_state" where
  "ex_session es = (ex_chat es)\<lparr>clients := [700 \<mapsto> \<lparr>session_id = 1, p_addr = 4, fd = 5\<rparr>]\<rparr>"

definition ex_up :: "nat \<Rightarrow> byte list" where "ex_up k = [FILE_UPLOAD, of_nat k, 0, 0, 0, 2, 104, 105] @ replicate 255 0"
definition ex_down :: "byte list" where "ex_down = [FILE_DOWNLOAD, 2, 104, 105] @ replicate 255 0"

lemma ex_up: "k < 256 \<Longrightarrow> upload_req (ex_up k) k 2 [104, 105]"
  by (simp add: upload_req_def ex_up_def nth_byte_def BUFF_SIZE_def cstr_def word_rcat_def unsigned_of_nat
      take_bit_nat_eq_self)

lemma ex_down: "download_req ex_down 2 [104, 105]"
  by (simp add: download_req_def ex_down_def nth_byte_def BUFF_SIZE_def cstr_def)

lemma ex_session_sel [simp]: "clients (ex_session es) 700 = Some \<lparr>session_id = 1, p_addr = 4, fd = 5\<rparr>"
  "conns (ex_session es) 8 = Some \<lparr>conn_objects = 16, conn_addr = 4, conn_fd = 5\<rparr>"
  "objects (ex_session es) 16 = Some \<lparr>o_session_id = 0, o_signals = 24, o_htable = NULL\<rparr>" "can_open (ex_session es) f" "script (ex_session es) = es" "files (ex_session es) = Map.empty" "\<not> send_bad (ex_session es) n"
  "trace (ex_session es) = []" "dir (ex_session es) = None"
  by (simp_all add: ex_session_def ex_chat_def)

theorem upload_stores_text_witness:
  "\<exists>z. recv_msgs (Suc 1) 8 700 (ex_session [Got True (ex_up 3), Got True [65, 0, 66], Got True [DISCONNECT]]) = Some z
     \<and> files z = [file_path 2 [104, 105] \<mapsto> [65]] \<and> trace z = [Close 5]"
proof -
  let ?z = "ex_session [Got True (ex_up 3), Got True [65, 0, 66], Got True [DISCONNECT]]"
  have up: "upload_req (ex_up 3) (length (concat [[65, 0, 66 :: byte]])) 2 [104, 105]"
    using ex_up [of 3] by (simp add: numeral_3_eq_3)
  have "recv_msgs (Suc 1) 8 700 ?z = recv_msgs 1 8 700 (?z\<lparr>script := [Got True [DISCONNECT]], gb_run := True,
     files := (files ?z)(file_path 2 [104, 105] \<mapsto> concat (map (takeWhile (\<lambda>b. b \<noteq> 0)) [[65, 0, 66]]))\<rparr>)"
    by (rule upload_stores_text [OF ex_session_sel(1) _ ex_session_sel(2) _ up]) (simp_all add: BUFF_SIZE_def)
  also have "\<dots> = Some (?z\<lparr>
     files := [file_path 2 [104, 105] \<mapsto> [65]], script := [], gb_run := True, trace := [Close 5]\<rparr>)"
    by (subst recv_msgs_disconnect [where x = "\<lparr>session_id = 1, p_addr = 4, fd = 5\<rparr>"]) (simp_all add: put_def)
  finally show ?thesis by simp
qed

text \<open>C27: A text file that is uploaded and then downloaded comes back: the blocks sent carry lines
  of fewer than \<open>BUFF_SIZE\<close> bytes whose concatenation is what was uploaded, each padded with
  zeros, and then the connection is closed.\<close>

theorem upload_download_roundtrip:
  assumes "clients z q = Some x" "p \<noteq> NULL" "conns z p = Some c" "objects z (conn_objects c) \<noteq> None"
    and "upload_req up (length (concat chunks)) nl name" "can_open z (file_path nl name)"
    and "chunks \<noteq> []" "\<forall>c \<in> set chunks. c \<noteq> [] \<and> length c \<le> BUFF_SIZE" "length (concat chunks) < 2 ^ 32"
    and "0 \<notin> set (concat chunks)" "download_req down nl name" "nl \<noteq> REQUEST" "\<forall>n. \<not> send_bad z n"
    and "script z = Got True up # map (Got True) chunks @ Got True down # es"
  shows "\<exists>z' ls. recv_msgs (Suc (Suc n)) p q z = Some z' \<and> concat ls = concat chunks
     \<and> (\<forall>l \<in> set ls. l \<noteq> [] \<and> length l < BUFF_SIZE)
     \<and> trace z' = trace z @ map (\<lambda>l. Send (fd x) (raw (pad BUFF_SIZE l))) ls @ [Close (fd x)]
     \<and> map (takeWhile (\<lambda>b. b \<noteq> 0)) (map (pad BUFF_SIZE) ls) = ls
     \<and> files z' = (files z)(file_path nl name \<mapsto> concat chunks)"
proof -
  have text_ok: "concat (map c_text chunks) = concat chunks"
    using assms(10) by (intro arg_cong [where f = concat] map_idI c_text_id) auto
  let ?z = "z\<lparr>script := Got True down # es, gb_run := True, files := (files z)(file_path nl name \<mapsto> concat chunks)\<rparr>"
  have up: "recv_msgs (Suc (Suc n)) p q z = recv_msgs (Suc n) p q ?z"
    using recv_msgs_upload [OF assms(1-9,14)] text_ok by simp
  obtain ls where ls: "concat ls = concat chunks" "\<forall>l \<in> set ls. l \<noteq> [] \<and> length l < BUFF_SIZE"
    "recv_msgs (Suc n) p q ?z = Some (?z\<lparr>script := es, gb_run := True,
       trace := trace ?z @ map (\<lambda>l. Send (fd x) (raw (pad BUFF_SIZE l))) ls @ [Close (fd x)]\<rparr>)"
    using recv_msgs_download [of ?z q x p down nl name "concat chunks" True es n] assms(1,2,11,12,13) by auto
  have "map c_text (map (pad BUFF_SIZE) ls) = ls"
    unfolding map_map
  proof (rule map_idI)
    fix l assume l: "l \<in> set ls"
    then have "set l \<subseteq> set (concat ls)" by auto
    then have "0 \<notin> set l" using ls(1) assms(10) by auto
    then show "(c_text \<circ> pad BUFF_SIZE) l = l" using ls(2) l c_text_pad [of l BUFF_SIZE] c_text_id by auto
  qed
  then show ?thesis using up ls by auto
qed

theorem upload_download_roundtrip_witness:
  "\<exists>z' ls. recv_msgs 2 8 700 (ex_session [Got True (ex_up 3), Got True [65, 10, 66], Got True ex_down]) = Some z'
     \<and> concat ls = [65, 10, 66] \<and> trace z' = map (\<lambda>l. Send 5 (raw (pad BUFF_SIZE l))) ls @ [Close 5]"
proof -
  let ?z = "ex_session [Got True (ex_up 3), Got True [65, 10, 66], Got True ex_down]"
  have up: "upload_req (ex_up 3) (length (concat [[65, 10, 66 :: byte]])) 2 [104, 105]"
    using ex_up [of 3] by (simp add: numeral_3_eq_3)
  have "\<exists>z' ls. recv_msgs (Suc (Suc 0)) 8 700 ?z = Some z' \<and> concat ls = concat [[65, 10, 66]]
     \<and> (\<forall>l \<in> set ls. l \<noteq> [] \<and> length l < BUFF_SIZE)
     \<and> trace z' = trace ?z @ map (\<lambda>l. Send (fd \<lparr>session_id = 1, p_addr = 4, fd = 5\<rparr>) (raw (pad BUFF_SIZE l))) ls
         @ [Close (fd \<lparr>session_id = 1, p_addr = 4, fd = 5\<rparr>)]
     \<and> map (takeWhile (\<lambda>b. b \<noteq> 0)) (map (pad BUFF_SIZE) ls) = ls
     \<and> files z' = (files ?z)(file_path 2 [104, 105] \<mapsto> concat [[65, 10, 66]])"
    by (rule upload_download_roundtrip [OF ex_session_sel(1) _ ex_session_sel(2) _ up _ _ _ _ _ ex_down, where es = "[]"])
      (simp_all add: BUFF_SIZE_def REQUEST_def)
  then show ?thesis by (auto simp: numeral_2_eq_2)
qed

text \<open>A download whose file name has one character is taken for a request of the directory: the
  listing is sent instead of the file, whatever files there are.\<close>

theorem one_character_download_lists_directory:
  assumes "clients z q = Some x" "download_req down 1 name" "script z = Got r down # es" "dir z = Some ds"
  shows "recv_msgs (Suc n) p q z = recv_msgs n p q (put (Send (fd x) (eof (- 1)))
     (send_entries (fd x) ds (z\<lparr>script := es, gb_run := r\<rparr>)))"
  using assms recv_poll_Got [OF assms(3)]
  by (simp add: download_req_def send_dir_def chat_consts REQUEST_def EOF_def)

theorem one_character_download_lists_directory_witness:
  "\<exists>z. recv_msgs (Suc 1) 8 700 ((ex_session [Got True [FILE_DOWNLOAD, 1, 97, 0], Got True [DISCONNECT]])
       \<lparr>files := [file_path 1 [97] \<mapsto> [65]], dir := Some [[97]]\<rparr>) = Some z
     \<and> trace z = [Send 5 (dir_files FILE_OPTIONS 1 [97]), Send 5 (eof (- 1)), Close 5]"
proof -
  let ?z = "(ex_session [Got True [FILE_DOWNLOAD, 1, 97, 0], Got True [DISCONNECT]])
       \<lparr>files := [file_path 1 [97] \<mapsto> [65]], dir := Some [[97]]\<rparr>"
  have d: "download_req [FILE_DOWNLOAD, 1, 97, 0] 1 [97]"
    by (simp add: download_req_def nth_byte_def BUFF_SIZE_def cstr_def)
  have "recv_msgs (Suc 1) 8 700 ?z = recv_msgs 1 8 700 (put (Send (fd \<lparr>session_id = 1, p_addr = 4, fd = 5\<rparr>) (eof (- 1)))
     (send_entries (fd \<lparr>session_id = 1, p_addr = 4, fd = 5\<rparr>) [[97]] (?z\<lparr>script := [Got True [DISCONNECT]], gb_run := True\<rparr>)))"
    by (rule one_character_download_lists_directory [OF _ d]) simp_all
  also have "\<dots> = Some (?z\<lparr>script := [], gb_run := True,
     trace := [Send 5 (dir_files FILE_OPTIONS 1 [97]), Send 5 (eof (- 1)), Close 5]\<rparr>)"
    by (subst recv_msgs_disconnect [where x = "\<lparr>session_id = 1, p_addr = 4, fd = 5\<rparr>"]) (simp_all add: put_def)
  finally show ?thesis by simp
qed

end
