(* ===== verification/ChatListing.thy ===== *)
theory ChatListing
  imports ChatProps
begin

text \<open>
  What the chat server writes on its terminal after each account it creates, each login and each
  removal: \<open>print_htable_strs\<close> of server_client_helper.c, which walks the whole table. The strings
  that \<open>printf\<close> writes are the result, a row for each bucket.
\<close>

text \<open>\<open>printf("%s")\<close> reads on to the next zero byte, wherever it is.\<close>

partial_function (option) out_str :: "mem \<Rightarrow> ptr \<Rightarrow> byte list option" where
  "out_str m p = do {
     c \<leftarrow> m p;
     if c = 0 then Some [] else do { s \<leftarrow> out_str m (Suc p); Some (c # s) }
   }"

type_synonym row = "(byte list \<times> byte list) list"

text \<open>One round of the loop of \<open>print_list\<close>, and the loop for its remaining \<open>k\<close> rounds.\<close>

definition print_node :: "ptr \<Rightarrow> server \<Rightarrow> (byte list \<times> byte list) option" where
  "print_node p_data h = do {
     n \<leftarrow> hnodes h p_data;
     key \<leftarrow> out_str (mem (st h)) (h_key n);
     _ \<leftarrow> clients (st h) (h_value n);
     password \<leftarrow> out_str (mem (st h)) (h_value n + 26);
     Some (key, password)
   }"

fun print_list_loop :: "nat \<Rightarrow> ptr \<Rightarrow> server \<Rightarrow> row option" where
  "print_list_loop 0 node h = Some []"
| "print_list_loop (Suc k) node h = do {
     c \<leftarrow> nodes h node;
     x \<leftarrow> print_node (n_data c) h;
     xs \<leftarrow> print_list_loop k (n_next c) h;
     Some (x # xs)
   }"

definition print_list :: "ptr \<Rightarrow> server \<Rightarrow> row option" where
  "print_list p_cll h = do { l \<leftarrow> lists h p_cll; print_list_loop (unat (l_size l)) (l_head l) h }"

text \<open>The loop of \<open>print_htable_strs\<close> for its remaining \<open>k\<close> rounds.\<close>

fun print_rows :: "nat \<Rightarrow> 32 word \<Rightarrow> ptr \<Rightarrow> server \<Rightarrow> row list option" where
  "print_rows 0 iter p_htable h = Some []"
| "print_rows (Suc k) iter p_htable h = do {
     t \<leftarrow> tables h p_htable;
     p_list \<leftarrow> read_arr (t_vals t) iter h;
     r \<leftarrow> (if p_list = NULL then Some []
          else do { l \<leftarrow> lists h p_list; if 0 < l_size l then print_list p_list h else Some [] });
     rs \<leftarrow> print_rows k (iter + 1) p_htable h;
     Some (r # rs)
   }"

definition print_htable_strs :: "ptr \<Rightarrow> server \<Rightarrow> row list option" where
  "print_htable_strs p_htable h = do { t \<leftarrow> tables h p_htable; print_rows (unat (capacity t)) 0 p_htable h }"

section \<open>Strings\<close>

lemma out_str_read: "read_str m p n = Some s \<Longrightarrow> out_str m p = Some s"
proof (induction m p n arbitrary: s rule: read_str.induct)
  case (2 m p n)
  then obtain c where c: "m p = Some c" "if c = 0 then s = [] else \<exists>t. s = c # t \<and> read_str m (Suc p) n = Some t"
    unfolding read_str_Suc by blast
  show ?case
  proof (cases "c = 0")
    case True then show ?thesis using c by (subst out_str.simps) simp
  next
    case False
    then obtain t where "s = c # t" "read_str m (Suc p) n = Some t" using c(2) by auto
    then show ?thesis using 2(1) [OF c(1) False] c(1) False by (subst out_str.simps) simp
  qed
qed simp

lemma out_str_run:
  assumes "\<And>i. i < length s \<Longrightarrow> m (p + i) = Some (s ! i)" "0 \<notin> set s" "out_str m (p + length s) = Some t"
  shows "out_str m p = Some (s @ t)"
  using assms
proof (induction s arbitrary: p)
  case (Cons c s)
  have "out_str m (Suc p) = Some (s @ t)"
  proof (rule Cons.IH)
    show "m (Suc p + i) = Some (s ! i)" if "i < length s" for i using Cons.prems(1) [of "Suc i"] that by simp
  qed (use Cons.prems in auto)
  then show ?case using Cons.prems(1) [of 0] Cons.prems(2) by (subst out_str.simps) auto
qed simp

text \<open>What is printed for a node that represents an account, and for one whose name has ten characters.\<close>

lemma print_account: "account_at h d u p \<Longrightarrow> print_node d h = Some (u, p)"
  unfolding account_at_def uname_at_def pass_at_def
  by (auto simp: print_node_def dest!: out_str_read split: if_splits)

lemma print_ten:
  assumes "hnodes h d = Some \<lparr>h_key = c + 16, h_value = c, h_free = f\<rparr>" "clients (st h) c = Some x" "pass_at (st h) (c + 26) = Some p"
    and "length s = 10" "0 \<notin> set s" "\<forall>i < 10. mem (st h) (c + 16 + i) = Some (s ! i)"
  shows "print_node d h = Some (s @ p, p)"
proof -
  have p: "out_str (mem (st h)) (c + 26) = Some p" using assms(3) by (auto simp: pass_at_def dest: out_str_read)
  have "out_str (mem (st h)) (c + 16) = Some (s @ p)"
    by (rule out_str_run) (use assms p in \<open>simp_all add: add.commute\<close>)
  then show ?thesis using assms(1,2) p by (simp add: print_node_def)
qed

section \<open>The table\<close>

lemma print_list_path:
  assumes "path (nodes h) a ps b" "\<forall>x \<in> set (items (nodes h) ps). print_node (fst x) h \<noteq> None"
  shows "print_list_loop (length ps) a h = Some (map (\<lambda>x. the (print_node (fst x) h)) (items (nodes h) ps))"
  using assms
proof (induction ps arbitrary: a)
  case (Cons q ps)
  then obtain n where n: "nodes h q = Some n" "a = q" "path (nodes h) (n_next n) ps b" by auto
  then show ?case using Cons.IH [OF n(3)] Cons.prems(2) by auto
qed simp

lemma print_bucket:
  assumes ok: "lheap_ok h" and b: "bucket_ok h c b A ds" and p: "\<forall>d \<in> set ds. print_node d h \<noteq> None"
  shows "(if b = NULL then Some [] else do { l \<leftarrow> lists h b; if 0 < l_size l then print_list b h else Some [] })
    = Some (map (\<lambda>d. the (print_node d h)) ds)"
proof (cases "b = NULL")
  case True then show ?thesis using b by (simp add: bucket_ok_def)
next
  case False
  then obtain ps where ps: "list_at h b c ps" "bitems ds = items (nodes h) ps" using b by (auto simp: bucket_ok_def lrep_def)
  obtain l where l: "lists h b = Some l" "l_size l = of_nat (length ps)" "length ps < 2 ^ 32"
    "ps \<noteq> [] \<Longrightarrow> l_head l = hd ps \<and> path (nodes h) (hd ps) ps (hd ps)" using ps(1) by (auto simp: list_at_def)
  have len: "length ds = length ps" using arg_cong [OF ps(2), of length] by simp
  have "0 < l_size l \<longleftrightarrow> ps \<noteq> []" using l(2,3) of_nat_32_eq_0 [of "length ps"] by (auto simp: word_neq_0_conv [symmetric])
  moreover have "print_list_loop (length ps) (hd ps) h = Some (map (\<lambda>d. the (print_node d h)) ds)" if "ps \<noteq> []"
  proof -
    have "\<forall>x \<in> set (items (nodes h) ps). print_node (fst x) h \<noteq> None" using p unfolding ps(2) [symmetric] by auto
    from print_list_path [OF conjunct2 [OF l(4) [OF that]] this] show ?thesis unfolding ps(2) [symmetric] by (simp add: comp_def)
  qed
  ultimately show ?thesis using False l len by (auto simp: print_list_def unat_of_nat_32)
qed

lemma print_rows_eval:
  assumes t: "table_at h t hf cf n a bs m" and ok: "lheap_ok h" and b: "buckets h c bs As B"
    and p: "\<forall>d \<in> set (concat B). print_node d h \<noteq> None" and k: "i + k = n"
  shows "print_rows k (of_nat i) t h = Some (map (map (\<lambda>d. the (print_node d h))) (drop i B))"
  using k
proof (induction k arbitrary: i)
  case 0
  then have "length B \<le> i" using t buckets_length [OF b] by (simp add: table_at_def)
  then show ?case by simp
next
  case (Suc k)
  obtain r where r: "tables h t = Some r" "t_vals r = a" "arrs h a = Some bs" "length bs = n" "n < 2 ^ 32" using t by (auto simp: table_at_def)
  have i: "i < length bs" "i < length B" "unat (of_nat i :: 32 word) = i" using Suc.prems r(4,5) buckets_length [OF b] by (simp_all add: unat_of_nat_32)
  have "\<forall>d \<in> set (B ! i). print_node d h \<noteq> None" using p i(2) by auto
  note row = print_bucket [OF ok buckets_nth [OF b i(1)] this]
  have "print_rows k (of_nat i + 1) t h = Some (map (map (\<lambda>d. the (print_node d h))) (drop (Suc i) B))"
    using Suc.IH [of "Suc i"] Suc.prems by (simp add: add.commute)
  moreover have "read_arr a (of_nat i) h = Some (bs ! i)" using r(3) i by (simp add: read_arr_def)
  ultimately show ?case using r(1,2) row i(2) by (simp add: Cons_nth_drop_Suc [symmetric])
qed

lemma listing_accounts:
  assumes "accounts_in h t A M"
  shows "\<exists>rows. print_htable_strs t h = Some rows \<and> distinct (concat rows) \<and> set (concat rows) = {(u, p). A u = Some p}"
proof -
  have dom: "dom A = dom M" and acc: "\<And>u d p. M u = Some d \<Longrightarrow> A u = Some p \<Longrightarrow> account_at h d u p" and map: "chat.ht_map h t M"
    using assms by (auto simp: accounts_in_def)
  obtain n a bs As B where at: "chat.ht_at h t n a bs As B" and M: "\<And>k d. M k = Some d \<longleftrightarrow> d \<in> set (concat B) \<and> chat.nkey h d = Some k"
    using map unfolding chat.ht_map_def by blast
  have t: "table_at h t HASH_F COMP_F n a bs (length (concat B))" and ok: "hheap_ok h" and b: "buckets h COMP_F bs As B"
    and nk: "chat.nkeys_ok h n B" using at by (auto simp: chat.ht_at_def)
  have pr: "\<exists>u p. print_node d h = Some (u, p) \<and> A u = Some p \<and> chat.nkey h d = Some u" if d: "d \<in> set (concat B)" for d
  proof -
    obtain ds where "ds \<in> set B" "d \<in> set ds" using d by auto
    then obtain i where "i < length B" "d \<in> set (B ! i)" by (metis in_set_conv_nth)
    then obtain u where u: "chat.nkey h d = Some u" using nk unfolding chat.nkeys_ok_def by blast
    then have "M u = Some d" using M d by blast
    moreover obtain p where "A u = Some p" using calculation dom by blast
    ultimately show ?thesis using print_account [OF acc] u by blast
  qed
  let ?f = "\<lambda>d. the (print_node d h)"
  have "print_htable_strs t h = Some (map (map ?f) B)"
  proof -
    have "\<forall>d \<in> set (concat B). print_node d h \<noteq> None" using pr by fastforce
    from print_rows_eval [OF t hheap_ok_lheap [OF ok] b this, of 0 n] show ?thesis
      using t by (auto simp: print_htable_strs_def table_at_def unat_of_nat_32)
  qed
  moreover have c: "concat (map (map ?f) B) = map ?f (concat B)" by (simp add: map_concat)
  moreover have "distinct (map ?f (concat B))"
  proof -
    have "map (chat.nkey h) (concat B) = map (\<lambda>x. Some (fst x)) (map ?f (concat B))" using pr by fastforce
    then have "distinct (map (\<lambda>x. Some (fst x)) (map ?f (concat B)))" using nk unfolding chat.nkeys_ok_def by metis
    then show ?thesis unfolding distinct_map by blast
  qed
  moreover have "?f ` set (concat B) = {(u, p). A u = Some p}"
  proof (intro set_eqI iffI)
    fix x assume "x \<in> ?f ` set (concat B)"
    then show "x \<in> {(u, p). A u = Some p}" using pr by fastforce
  next
    fix x assume "x \<in> {(u, p). A u = Some p}"
    then obtain u p where x: "x = (u, p)" "A u = Some p" by blast
    have "u \<in> dom M" using x(2) unfolding dom [symmetric] by blast
    then obtain d where d: "M u = Some d" by blast
    then have "d \<in> set (concat B)" using M [of u d] by blast
    moreover have "?f d = x" using print_account [OF acc [OF d x(2)]] x(1) by simp
    ultimately show "x \<in> ?f ` set (concat B)" by blast
  qed
  ultimately show ?thesis by (intro exI [of _ "map (map ?f) B"]) (simp only: set_map)
qed



end
