(* ===== verification/ChatRaces.thy ===== *)
theory ChatRaces
  imports ChatListing
begin

text \<open>
  Two connections at once. The handlers of different threads share the table and its clients, and
  the mutex is held only for single steps: a thread that waits in its message loop keeps the
  address of its \<open>client_t\<close>, which another thread may free.
\<close>

section \<open>A heap represents one map\<close>

lemma path_unique: "path m a ps b \<Longrightarrow> path m a qs c \<Longrightarrow> length ps = length qs \<Longrightarrow> ps = qs"
proof (induction ps arbitrary: a qs)
  case (Cons p ps) then show ?case by (cases qs) auto
qed simp

lemma bucket_ok_unique:
  assumes "bucket_ok h c b A ds" "bucket_ok h c b A' es"
  shows "ds = es"
proof (cases "b = NULL")
  case True then show ?thesis using assms by (simp add: bucket_ok_def)
next
  case False
  then obtain ps qs where p: "list_at h b c ps" "bitems ds = items (nodes h) ps" and q: "list_at h b c qs" "bitems es = items (nodes h) qs"
    using assms by (auto simp: bucket_ok_def lrep_def)
  obtain l where l: "lists h b = Some l" "l_size l = of_nat (length ps)" "length ps < 2 ^ 32"
    "ps \<noteq> [] \<longrightarrow> l_head l = hd ps \<and> path (nodes h) (hd ps) ps (hd ps)" using p(1) by (auto simp: list_at_def)
  have r: "l_size l = of_nat (length qs)" "length qs < 2 ^ 32"
    "qs \<noteq> [] \<longrightarrow> l_head l = hd qs \<and> path (nodes h) (hd qs) qs (hd qs)" using q(1) l(1) by (auto simp: list_at_def)
  have len: "length ps = length qs" using of_nat_32_eq l(2,3) r(1,2) by metis
  have "ps = qs"
  proof (cases "ps = []")
    case False
    then have "path (nodes h) (l_head l) ps (hd ps)" "path (nodes h) (l_head l) qs (hd qs)" using l(4) r(3) len by auto
    then show ?thesis using path_unique len by blast
  qed (use len in simp)
  then have "map fst (bitems ds) = map fst (bitems es)" using p(2) q(2) by simp
  then show ?thesis by (simp add: comp_def)
qed

context key_contract begin

lemma ht_map_unique:
  assumes "ht_map h t M" "ht_map h t M'"
  shows "M = M'"
proof -
  obtain n a bs As B where 1: "table_at h t hash_f comp_f n a bs (length (concat B))" "buckets h comp_f bs As B"
    "\<And>k d. M k = Some d \<longleftrightarrow> d \<in> set (concat B) \<and> nkey h d = Some k"
    using assms(1) unfolding ht_map_def ht_at_def by blast
  obtain n' a' bs' As' B' where 2: "table_at h t hash_f comp_f n' a' bs' (length (concat B'))" "buckets h comp_f bs' As' B'"
    "\<And>k d. M' k = Some d \<longleftrightarrow> d \<in> set (concat B') \<and> nkey h d = Some k"
    using assms(2) unfolding ht_map_def ht_at_def by blast
  have bs: "bs' = bs" using 1(1) 2(1) by (auto simp: table_at_def)
  have "B = B'"
  proof (rule nth_equalityI)
    show "length B = length B'" using buckets_length [OF 1(2)] buckets_length [OF 2(2)] bs by simp
    fix i assume "i < length B"
    then have i: "i < length bs" using buckets_length [OF 1(2)] by simp
    show "B ! i = B' ! i" using bucket_ok_unique [OF buckets_nth [OF 1(2) i]] buckets_nth [OF 2(2), of i] i bs by simp
  qed
  then have "M k = Some d \<longleftrightarrow> M' k = Some d" for k d using 1(3) 2(3) by simp
  then show ?thesis by (intro ext) (metis not_Some_eq)
qed

end

text \<open>So a user has one \<open>client_t\<close>, which a login does not change.\<close>

lemma client_of_unique:
  assumes "client_of h po A u q" "client_of h po A u q'"
  shows "q = q'"
proof -
  obtain objs M d where 1: "objects (st h) po = Some objs" "accounts_in h (o_htable objs) A M" "M u = Some d"
    "hnodes h d = Some \<lparr>h_key = q + 16, h_value = q, h_free = CLIENT_FREE\<rparr>" using assms(1) unfolding client_of_def by blast
  obtain objs' M' d' where 2: "objects (st h) po = Some objs'" "accounts_in h (o_htable objs') A M'" "M' u = Some d'"
    "hnodes h d' = Some \<lparr>h_key = q' + 16, h_value = q', h_free = CLIENT_FREE\<rparr>" using assms(2) unfolding client_of_def by blast
  have "objs' = objs" using 1(1) 2(1) by simp
  then have "M = M'" using chat.ht_map_unique 1(2) 2(2) unfolding accounts_in_def by blast
  then show ?thesis using 1(3,4) 2(3,4) by auto
qed

lemma client_of_set_fd:
  assumes "client_of h po A u q"
  shows "client_of (set_fd h r f k) po A u q"
proof -
  let ?h = "set_fd h r f k"
  obtain objs M d where 1: "objects (st h) po = Some objs" "accounts_in h (o_htable objs) A M" "M u = Some d"
    "hnodes h d = Some \<lparr>h_key = q + 16, h_value = q, h_free = CLIENT_FREE\<rparr>" using assms unfolding client_of_def by blast
  have "accounts_in ?h (o_htable objs) A M" by (rule accounts_in_same [OF 1(2)]) (auto simp: set_fd_def put_def)
  moreover have "objects (st ?h) po = Some objs" "hnodes ?h = hnodes h" using 1(1) by (simp_all add: set_fd_def put_def)
  ultimately show ?thesis using 1(3,4) unfolding client_of_def by auto
qed

text \<open>C4: A session outlives its account. When a second connection deletes the account of a user who has
  just logged in, the deletion succeeds, and the session's message loop, which keeps the address of the freed
  client, has undefined behaviour from its first \<open>recv\<close> on, whatever the client sends.\<close>

theorem deleted_session:
  assumes "accounts h po A" "conn_ok (st h) c f po" "conn_ok (st h) c' f' po"
    and "init_pack (st h) pk ul u pl p" "init_pack (st h) pk' ul' u pl' p" "A u = Some p"
  shows "\<exists>q h1 h2. (\<forall>loop. handle_login loop c pk h = loop c q h1) \<and> remove_client_body c' pk' h1 = Some (True, h2)
     \<and> accounts h1 po A \<and> accounts h2 po (A(u := None)) \<and> (\<forall>fuel. recv_msgs fuel c q (st h2) = None)"
proof -
  let ?ack = "login_ack LOGIN ACKNOWLEDGE (of_nat (card (dom A)))"
  have login: "\<exists>q. client_of h po A u q \<and> handle_login loop c pk h = loop c q (set_fd h q f ?ack)" for loop
    using handle_login_spec(2) [OF assms(1,2,4,6), of loop] by blast
  obtain q where q: "client_of h po A u q" using login by blast
  let ?h = "set_fd h q f ?ack"
  have run: "handle_login loop c pk h = loop c q ?h" for loop using login [of loop] client_of_unique [OF q] by blast
  have acc: "accounts ?h po A" by (rule accounts_set_fd [OF assms(1)])
  have k: "keeps po (st h) (st ?h)"
    by (rule keeps_same_mem) (auto simp: set_fd_def put_def split: if_splits)
  obtain h2 q' where h2: "remove_client_body c' pk' ?h = Some (True, h2)" "accounts h2 po (A(u := None))" "client_of ?h po A u q'"
    "clients (st h2) q' = None"
    using remove_client_body_spec(2) [OF acc keeps_conn_ok [OF k assms(3)] keeps_init_pack [OF k assms(5)] assms(6)] by blast
  have "q' = q" by (rule client_of_unique [OF h2(3) client_of_set_fd [OF q]])
  then have "recv_msgs fuel c q (st h2) = None" for fuel using h2(4) by (cases fuel) simp_all
  then show ?thesis using run h2(1,2) acc by (intro exI conjI allI)
qed

theorem deleted_session_witness:
  "\<exists>h pk q h2. accounts h 16 [[98] \<mapsto> [104]] \<and> handle_login (\<lambda>c q h. do { (_, h) \<leftarrow> remove_client_body 8 pk h; Some (hwith_more h (st h)) }) 9 pk h = Some h2
     \<and> accounts h2 16 Map.empty \<and> recv_msgs 5 9 q (st h2) = None"
proof -
  obtain h pk where h: "accounts h 16 [[98] \<mapsto> [104]]" "conn_ok (st h) 9 6 16" "init_pack (st h) pk 1 [98] 1 [104]" "conn_ok (st h) 8 5 16"
    using ex_account by blast
  obtain q h1 h2 where d: "\<And>loop. handle_login loop 9 pk h = loop 9 q h1" "remove_client_body 8 pk h1 = Some (True, h2)"
    "accounts h2 16 ([[98] \<mapsto> [104]]([98] := None))" "\<And>fuel. recv_msgs fuel 9 q (st h2) = None"
    using deleted_session [OF h(1,2,4,3,3)] by auto
  have "hwith_more h2 (st h2) = h2" by simp
  then show ?thesis using h(1) d by (intro exI [of _ h] exI [of _ pk] exI [of _ q] exI [of _ h2]) simp
qed

end
