(* ===== verification/TPool.thy ===== *)
theory TPool
  imports CQueueSpec
begin

text \<open>
  The thread pool of ChatRoom/src/tpool.c and of module_1/src/tpool.c as a step relation. The two
  files differ in \<open>shutdown_threads\<close> only: module_1 broadcasts with the mutex held, ChatRoom has
  the two mutex calls commented out. The parameter \<open>locked\<close> is true for module_1.

  A state holds the pool's struct (\<open>None\<close> once it is freed), the owner of the mutex, the position of
  every worker in \<open>handle_work\<close> and of the thread that uses the pool, the heap of the job queue
  (CQueue) and the jobs. One step is one call of the code between which another thread can
  run. That thread adds the jobs of \<open>todo\<close> in order and then destroys the pool. A job and the free
  function of its arguments return and do not use the pool; their calls are logged. The lists \<open>added\<close>
  and \<open>taken\<close> record which jobs have entered and left the queue.
\<close>

record tpool_job_t =
  job_f :: fptr
  p_args :: ptr
  job_free :: fptr

record tpool_t =
  p_thread_arr :: ptr
  p_job_queue :: ptr
  thread_count :: "32 word"
  b_run :: bool

datatype tid = Main | Worker nat

text \<open>Positions in \<open>handle_work\<close>, named by what the thread does next.\<close>

datatype wpc = W_Lock | W_While | W_Sleep | W_Asleep | W_Woken | W_If | W_Exit | W_Take
  | W_Unlock ptr | W_Run ptr | W_Free ptr | W_Done

text \<open>Positions in \<open>handle_threads\<close> (C), \<open>tpool_add_job\<close> (A), \<open>tpool_destroy\<close> and \<open>shutdown_threads\<close> (D).\<close>

datatype mpc = C_Threads "32 word" | M_Next | A_Lock ptr | A_Enqueue ptr | A_Unlock | A_Broadcast
  | D_Lock | D_Broadcast | D_Unlock | D_Join "32 word" | D_Free | M_Done

type_synonym log = "(fptr \<times> ptr) list"
type_synonym job_heap = "(unit, log) qheap"

record pool =
  tpool :: "tpool_t option"
  owner :: "tid option"
  threads :: "wpc list"
  main :: mpc
  todo :: "tpool_job_t list"
  qh :: job_heap
  jobs :: "ptr \<rightharpoonup> tpool_job_t"
  ran :: log
  added :: "tpool_job_t list"
  taken :: "tpool_job_t list"

text \<open>The calls of free functions are logged in the part of the heap that belongs to the client.\<close>

definition log_free :: "(unit, log) qfree_call" where
  "log_free f d h = Some (qwith_more h (queue_heap.more h @ [(f, d)]))"

abbreviation freed :: "pool \<Rightarrow> log" where
  "freed s \<equiv> queue_heap.more (qh s)"

section \<open>Creation\<close>

text \<open>
  \<open>tpool_create\<close> up to \<open>handle_threads\<close>: \<open>None\<close> when an allocation fails. The array of threads has no
  content in the model. A \<open>pthread_t\<close> takes 8 bytes, the pool 120.
\<close>

definition tpool_create :: "32 word \<Rightarrow> tpool_job_t list \<Rightarrow> job_heap \<Rightarrow> (pool option \<times> job_heap) option" where
  "tpool_create n js h =
     (let (p_tpool, h) = calloc 120 h
      in if p_tpool = NULL then Some (None, h)
         else let (arr, h) = calloc (8 * unat n) h
         in if arr = NULL then Some (None, h)
            else do {
              (q, h) \<leftarrow> queue_create h;
              if q = NULL then Some (None, h)
              else Some (Some \<lparr>tpool = Some \<lparr>p_thread_arr = arr, p_job_queue = q, thread_count = n, b_run = True\<rparr>,
                owner = None, threads = [], main = C_Threads 0, todo = js, qh = h, jobs = Map.empty, ran = [],
                added = [], taken = []\<rparr>, h)
            })"

section \<open>Steps\<close>

definition set_pc :: "nat \<Rightarrow> wpc \<Rightarrow> pool \<Rightarrow> pool" where
  "set_pc i pc s = s\<lparr>threads := (threads s)[i := pc]\<rparr>"

definition worker_at :: "nat \<Rightarrow> wpc \<Rightarrow> pool \<Rightarrow> bool" where
  "worker_at i pc s \<longleftrightarrow> i < length (threads s) \<and> threads s ! i = pc"

text \<open>\<open>pthread_cond_broadcast\<close>\<close>

definition wake :: "wpc \<Rightarrow> wpc" where
  "wake pc = (if pc = W_Asleep then W_Woken else pc)"

definition broadcast :: "pool \<Rightarrow> pool" where
  "broadcast s = s\<lparr>threads := map wake (threads s)\<rparr>"

text \<open>\<open>handle_threads\<close>: every \<open>pthread_create\<close> may fail, and then the pool is destroyed.\<close>

inductive create_step :: "pool \<Rightarrow> pool \<Rightarrow> bool" where
  create: "main s = C_Threads iter \<Longrightarrow> tpool s = Some P \<Longrightarrow> iter < thread_count P
     \<Longrightarrow> create_step s (s\<lparr>threads := threads s @ [W_Lock], main := C_Threads (iter + 1)\<rparr>)"
| create_fails: "main s = C_Threads iter \<Longrightarrow> tpool s = Some P \<Longrightarrow> iter < thread_count P
     \<Longrightarrow> create_step s (s\<lparr>tpool := Some (P\<lparr>b_run := False, thread_count := of_nat (length (threads s))\<rparr>),
           todo := [], main := M_Next\<rparr>)"
| created: "main s = C_Threads iter \<Longrightarrow> tpool s = Some P \<Longrightarrow> \<not> iter < thread_count P
     \<Longrightarrow> create_step s (s\<lparr>main := M_Next\<rparr>)"

text \<open>
  \<open>tpool_add_job\<close>. The node in the queue gets the free function of the arguments. The result of
  \<open>queue_enqueue\<close> is ignored.
\<close>

inductive add_step :: "pool \<Rightarrow> pool \<Rightarrow> bool" where
  no_job: "main s = M_Next \<Longrightarrow> todo s = j # js \<Longrightarrow> job_f j = NULL \<Longrightarrow> add_step s (s\<lparr>todo := js\<rparr>)"
| alloc: "main s = M_Next \<Longrightarrow> todo s = j # js \<Longrightarrow> job_f j \<noteq> NULL \<Longrightarrow> calloc 24 (qh s) = (p, h) \<Longrightarrow> p \<noteq> NULL
     \<Longrightarrow> add_step s (s\<lparr>todo := js, qh := h, jobs := (jobs s)(p \<mapsto> j), main := A_Lock p\<rparr>)"
| alloc_fails: "main s = M_Next \<Longrightarrow> todo s = j # js \<Longrightarrow> job_f j \<noteq> NULL \<Longrightarrow> calloc 24 (qh s) = (p, h) \<Longrightarrow> p = NULL
     \<Longrightarrow> add_step s (s\<lparr>todo := js, qh := h\<rparr>)"
| add_lock: "main s = A_Lock p \<Longrightarrow> tpool s = Some P \<Longrightarrow> owner s = None
     \<Longrightarrow> add_step s (s\<lparr>owner := Some Main, main := A_Enqueue p\<rparr>)"
| enqueue: "main s = A_Enqueue p \<Longrightarrow> tpool s = Some P \<Longrightarrow> jobs s p = Some j
     \<Longrightarrow> queue_enqueue (p_job_queue P) p (job_free j) (qh s) = Some (ok, h)
     \<Longrightarrow> add_step s (s\<lparr>qh := h, added := (if ok then added s @ [j] else added s), main := A_Unlock\<rparr>)"
| add_unlock: "main s = A_Unlock \<Longrightarrow> tpool s = Some P \<Longrightarrow> add_step s (s\<lparr>owner := None, main := A_Broadcast\<rparr>)"
| add_broadcast: "main s = A_Broadcast \<Longrightarrow> tpool s = Some P \<Longrightarrow> add_step s (broadcast s\<lparr>main := M_Next\<rparr>)"

text \<open>\<open>execute_job\<close>, for worker \<open>i\<close>\<close>

inductive execute_step :: "nat \<Rightarrow> pool \<Rightarrow> pool \<Rightarrow> bool" for i where
  no_run: "worker_at i (W_Run p) s \<Longrightarrow> p = NULL \<Longrightarrow> execute_step i s (set_pc i W_Lock s)"
| run: "worker_at i (W_Run p) s \<Longrightarrow> p \<noteq> NULL \<Longrightarrow> jobs s p = Some j
     \<Longrightarrow> execute_step i s (set_pc i (W_Free p) (s\<lparr>ran := ran s @ [(job_f j, p_args j)]\<rparr>))"
| free: "worker_at i (W_Free p) s \<Longrightarrow> jobs s p = Some j
     \<Longrightarrow> (if job_free j \<noteq> NULL then log_free (job_free j) (p_args j) (qh s) else Some (qh s)) = Some h
     \<Longrightarrow> execute_step i s (set_pc i W_Lock (s\<lparr>qh := h, jobs := (jobs s)(p := None)\<rparr>))"

text \<open>\<open>handle_work\<close>, for worker \<open>i\<close>\<close>

inductive work_step :: "nat \<Rightarrow> pool \<Rightarrow> pool \<Rightarrow> bool" for i where
  lock: "worker_at i W_Lock s \<Longrightarrow> tpool s = Some P \<Longrightarrow> owner s = None
     \<Longrightarrow> work_step i s (set_pc i W_While (s\<lparr>owner := Some (Worker i)\<rparr>))"
| loop: "worker_at i W_While s \<Longrightarrow> tpool s = Some P \<Longrightarrow> queue_is_empty (p_job_queue P) (qh s) = Some e \<Longrightarrow> e \<and> b_run P
     \<Longrightarrow> work_step i s (set_pc i W_Sleep s)"
| loop_end: "worker_at i W_While s \<Longrightarrow> tpool s = Some P \<Longrightarrow> queue_is_empty (p_job_queue P) (qh s) = Some e \<Longrightarrow> \<not> (e \<and> b_run P)
     \<Longrightarrow> work_step i s (set_pc i W_If s)"
| sleep: "worker_at i W_Sleep s \<Longrightarrow> tpool s = Some P \<Longrightarrow> work_step i s (set_pc i W_Asleep (s\<lparr>owner := None\<rparr>))"
| woken: "worker_at i W_Woken s \<Longrightarrow> tpool s = Some P \<Longrightarrow> owner s = None
     \<Longrightarrow> work_step i s (set_pc i W_While (s\<lparr>owner := Some (Worker i)\<rparr>))"
| stop: "worker_at i W_If s \<Longrightarrow> tpool s = Some P \<Longrightarrow> queue_is_empty (p_job_queue P) (qh s) = Some e \<Longrightarrow> e \<and> \<not> b_run P
     \<Longrightarrow> work_step i s (set_pc i W_Exit s)"
| go_on: "worker_at i W_If s \<Longrightarrow> tpool s = Some P \<Longrightarrow> queue_is_empty (p_job_queue P) (qh s) = Some e \<Longrightarrow> \<not> (e \<and> \<not> b_run P)
     \<Longrightarrow> work_step i s (set_pc i W_Take s)"
| exit: "worker_at i W_Exit s \<Longrightarrow> tpool s = Some P \<Longrightarrow> work_step i s (set_pc i W_Done (s\<lparr>owner := None\<rparr>))"
| dequeue: "worker_at i W_Take s \<Longrightarrow> tpool s = Some P \<Longrightarrow> queue_dequeue (p_job_queue P) (qh s) = Some (p, h)
     \<Longrightarrow> work_step i s (set_pc i (W_Unlock p) (s\<lparr>qh := h, taken := taken s @ (case jobs s p of None \<Rightarrow> [] | Some j \<Rightarrow> [j])\<rparr>))"
| unlock: "worker_at i (W_Unlock p) s \<Longrightarrow> tpool s = Some P \<Longrightarrow> work_step i s (set_pc i (W_Run p) (s\<lparr>owner := None\<rparr>))"
| execute: "execute_step i s t \<Longrightarrow> work_step i s t"

text \<open>\<open>pthread_cond_wait\<close> may also return without a broadcast.\<close>

inductive spurious_step :: "nat \<Rightarrow> pool \<Rightarrow> pool \<Rightarrow> bool" for i where
  spurious: "worker_at i W_Asleep s \<Longrightarrow> spurious_step i s (set_pc i W_Woken s)"

text \<open>\<open>shutdown_threads\<close>, whose array is not null\<close>

inductive shutdown_step :: "bool \<Rightarrow> pool \<Rightarrow> pool \<Rightarrow> bool" for locked where
  down_lock: "main s = D_Lock \<Longrightarrow> tpool s = Some P \<Longrightarrow> locked \<Longrightarrow> owner s = None
     \<Longrightarrow> shutdown_step locked s (s\<lparr>owner := Some Main, main := D_Broadcast\<rparr>)"
| down_no_lock: "main s = D_Lock \<Longrightarrow> \<not> locked \<Longrightarrow> shutdown_step locked s (s\<lparr>main := D_Broadcast\<rparr>)"
| down_broadcast: "main s = D_Broadcast \<Longrightarrow> tpool s = Some P \<Longrightarrow> shutdown_step locked s (broadcast s\<lparr>main := D_Unlock\<rparr>)"
| down_unlock: "main s = D_Unlock \<Longrightarrow> tpool s = Some P \<Longrightarrow> locked
     \<Longrightarrow> shutdown_step locked s (s\<lparr>owner := None, main := D_Join 0\<rparr>)"
| down_no_unlock: "main s = D_Unlock \<Longrightarrow> \<not> locked \<Longrightarrow> shutdown_step locked s (s\<lparr>main := D_Join 0\<rparr>)"
| join: "main s = D_Join iter \<Longrightarrow> tpool s = Some P \<Longrightarrow> iter < thread_count P \<Longrightarrow> worker_at (unat iter) W_Done s
     \<Longrightarrow> shutdown_step locked s (s\<lparr>main := D_Join (iter + 1)\<rparr>)"
| joined: "main s = D_Join iter \<Longrightarrow> tpool s = Some P \<Longrightarrow> \<not> iter < thread_count P
     \<Longrightarrow> shutdown_step locked s (s\<lparr>main := D_Free\<rparr>)"

text \<open>\<open>tpool_destroy\<close>\<close>

inductive destroy_step :: "bool \<Rightarrow> pool \<Rightarrow> pool \<Rightarrow> bool" for locked where
  destroy: "main s = M_Next \<Longrightarrow> todo s = [] \<Longrightarrow> tpool s = Some P
     \<Longrightarrow> destroy_step locked s (s\<lparr>tpool := Some (P\<lparr>b_run := False\<rparr>), main := D_Lock\<rparr>)"
| shutdown: "shutdown_step locked s t \<Longrightarrow> destroy_step locked s t"
| free_all: "main s = D_Free \<Longrightarrow> tpool s = Some P
     \<Longrightarrow> queue_destroy log_free (p_job_queue P) (qh s) = Some (b, q, h)
     \<Longrightarrow> destroy_step locked s (s\<lparr>tpool := None, qh := h, main := M_Done\<rparr>)"

inductive pool_step :: "bool \<Rightarrow> pool \<Rightarrow> pool \<Rightarrow> bool" for locked where
  "create_step s t \<Longrightarrow> pool_step locked s t"
| "add_step s t \<Longrightarrow> pool_step locked s t"
| "work_step i s t \<Longrightarrow> pool_step locked s t"
| "destroy_step locked s t \<Longrightarrow> pool_step locked s t"

text \<open>The states of a pool that is created for \<open>n\<close> threads and used for the jobs \<open>js\<close>.\<close>

inductive reach :: "bool \<Rightarrow> 32 word \<Rightarrow> tpool_job_t list \<Rightarrow> pool \<Rightarrow> bool" for locked n js where
  init: "qheap_ok h0 \<Longrightarrow> queue_heap.more h0 = [] \<Longrightarrow> tpool_create n js h0 = Some (Some s, h) \<Longrightarrow> reach locked n js s"
| step: "reach locked n js s \<Longrightarrow> pool_step locked s t \<Longrightarrow> reach locked n js t"
| wakeup: "reach locked n js s \<Longrightarrow> spurious_step i s t \<Longrightarrow> reach locked n js t"

inductive_cases create_stepE: "create_step s t"
inductive_cases add_stepE: "add_step s t"
inductive_cases execute_stepE: "execute_step i s t"
inductive_cases work_stepE: "work_step i s t"
inductive_cases shutdown_stepE: "shutdown_step locked s t"
inductive_cases destroy_stepE: "destroy_step locked s t"
inductive_cases pool_stepE: "pool_step locked s t"
inductive_simps spurious_step_iff: "spurious_step i s t"

lemmas step_elims = pool_stepE create_stepE add_stepE work_stepE execute_stepE destroy_stepE shutdown_stepE

text \<open>The functions of module_1/src/tpool.c. All but \<open>shutdown_threads\<close> have the same text as above.\<close>

definition m1_tpool_create :: "32 word \<Rightarrow> tpool_job_t list \<Rightarrow> job_heap \<Rightarrow> (pool option \<times> job_heap) option" where
  "m1_tpool_create = tpool_create"

definition m1_create_step :: "pool \<Rightarrow> pool \<Rightarrow> bool" where
  "m1_create_step = create_step"

definition m1_add_step :: "pool \<Rightarrow> pool \<Rightarrow> bool" where
  "m1_add_step = add_step"

definition m1_work_step :: "nat \<Rightarrow> pool \<Rightarrow> pool \<Rightarrow> bool" where
  "m1_work_step = work_step"

definition m1_execute_step :: "nat \<Rightarrow> pool \<Rightarrow> pool \<Rightarrow> bool" where
  "m1_execute_step = execute_step"

definition m1_shutdown_step :: "pool \<Rightarrow> pool \<Rightarrow> bool" where
  "m1_shutdown_step = shutdown_step True"

definition m1_destroy_step :: "pool \<Rightarrow> pool \<Rightarrow> bool" where
  "m1_destroy_step = destroy_step True"

end
