(* ===== verification/TPoolInv.thy ===== *)
theory TPoolInv
  imports TPool
begin

text \<open>Invariants of the thread pool: the owner of the mutex, the jobs and the phases of a shutdown.\<close>

section \<open>The mutex\<close>

fun holds :: "wpc \<Rightarrow> bool" where
  "holds W_While = True" | "holds W_Sleep = True" | "holds W_If = True" | "holds W_Exit = True"
| "holds W_Take = True" | "holds (W_Unlock p) = True" | "holds _ = False"

fun main_holds :: "bool \<Rightarrow> mpc \<Rightarrow> bool" where
  "main_holds locked (A_Enqueue p) = True" | "main_holds locked A_Unlock = True"
| "main_holds locked D_Broadcast = locked" | "main_holds locked D_Unlock = locked" | "main_holds locked _ = False"

definition mutex_ok :: "bool \<Rightarrow> pool \<Rightarrow> bool" where
  "mutex_ok locked s \<longleftrightarrow> (owner s = Some Main \<longleftrightarrow> main_holds locked (main s))
     \<and> (\<forall>i. owner s = Some (Worker i) \<longleftrightarrow> i < length (threads s) \<and> holds (threads s ! i))"

lemma holds_wake [simp]: "holds (wake pc) = holds pc"
  by (simp add: wake_def)

lemmas pc_defs = set_pc_def broadcast_def worker_at_def

text \<open>What a step does to the mutex: keep it, take it or give it back.\<close>

lemma mutex_keep:
  "mutex_ok locked s \<Longrightarrow> worker_at i old s \<Longrightarrow> holds pc = holds old \<Longrightarrow> owner t = owner s \<Longrightarrow> main t = main s
     \<Longrightarrow> threads t = (threads s)[i := pc] \<Longrightarrow> mutex_ok locked t"
  unfolding mutex_ok_def worker_at_def by (auto simp: nth_list_update)

lemma mutex_take:
  "mutex_ok locked s \<Longrightarrow> worker_at i old s \<Longrightarrow> owner s = None \<Longrightarrow> holds pc \<Longrightarrow> owner t = Some (Worker i) \<Longrightarrow> main t = main s
     \<Longrightarrow> threads t = (threads s)[i := pc] \<Longrightarrow> mutex_ok locked t"
  unfolding mutex_ok_def worker_at_def by (auto simp: nth_list_update)

lemma mutex_drop:
  assumes "mutex_ok locked s" "worker_at i old s" "holds old" "\<not> holds pc" "owner t = None" "main t = main s"
    "threads t = (threads s)[i := pc]"
  shows "mutex_ok locked t"
proof -
  have o: "owner s = Some (Worker i)" using assms(1-3) unfolding mutex_ok_def worker_at_def by blast
  then have "holds (threads s ! k) \<Longrightarrow> k < length (threads s) \<Longrightarrow> k = i" for k
    using assms(1) unfolding mutex_ok_def by (metis option.inject tid.inject)
  moreover have "\<not> main_holds locked (main s)" using assms(1) o unfolding mutex_ok_def by (metis option.inject tid.distinct(1))
  ultimately show ?thesis using assms(2,4-7) unfolding mutex_ok_def worker_at_def by (auto simp: nth_list_update)
qed

lemma mutex_main:
  assumes "mutex_ok locked s" "map holds (threads t) = map holds (threads s)"
    and "owner t = owner s \<and> main_holds locked (main t) = main_holds locked (main s)
     \<or> owner s = None \<and> owner t = Some Main \<and> main_holds locked (main t)
     \<or> main_holds locked (main s) \<and> owner t = None \<and> \<not> main_holds locked (main t)"
  shows "mutex_ok locked t"
proof -
  have len: "length (threads t) = length (threads s)" using assms(2) by (metis length_map)
  have h: "holds (threads t ! i) = holds (threads s ! i)" if "i < length (threads s)" for i
    using assms(2) that len by (metis nth_map)
  have "owner s = Some Main" if "main_holds locked (main s)" using assms(1) that unfolding mutex_ok_def by blast
  then show ?thesis using assms(1,3) len h unfolding mutex_ok_def by (metis option.distinct(1) option.inject tid.distinct(1))
qed

lemma mutex_create: "create_step s t \<Longrightarrow> mutex_ok locked s \<Longrightarrow> mutex_ok locked t"
  by (induction rule: create_step.induct) (auto simp: mutex_ok_def nth_append less_Suc_eq)

lemma mutex_add: "add_step s t \<Longrightarrow> mutex_ok locked s \<Longrightarrow> mutex_ok locked t"
  by (induction rule: add_step.induct; erule mutex_main; simp add: broadcast_def)

lemma mutex_execute: "execute_step i s t \<Longrightarrow> mutex_ok locked s \<Longrightarrow> mutex_ok locked t"
  by (induction rule: execute_step.induct; erule mutex_keep, assumption; simp add: set_pc_def)

lemma mutex_work: "work_step i s t \<Longrightarrow> mutex_ok locked s \<Longrightarrow> mutex_ok locked t"
proof (induction rule: work_step.induct)
  case (lock s P) show ?case by (rule mutex_take [OF lock.prems lock.hyps(1)]) (use lock.hyps in \<open>simp_all add: set_pc_def\<close>)
next
  case (loop s P e) show ?case by (rule mutex_keep [OF loop.prems loop.hyps(1)]) (use loop.hyps in \<open>simp_all add: set_pc_def\<close>)
next
  case (loop_end s P e) show ?case by (rule mutex_keep [OF loop_end.prems loop_end.hyps(1)]) (use loop_end.hyps in \<open>simp_all add: set_pc_def\<close>)
next
  case (sleep s P) show ?case by (rule mutex_drop [OF sleep.prems sleep.hyps(1)]) (use sleep.hyps in \<open>simp_all add: set_pc_def\<close>)
next
  case (woken s P) show ?case by (rule mutex_take [OF woken.prems woken.hyps(1)]) (use woken.hyps in \<open>simp_all add: set_pc_def\<close>)
next
  case (stop s P e) show ?case by (rule mutex_keep [OF stop.prems stop.hyps(1)]) (use stop.hyps in \<open>simp_all add: set_pc_def\<close>)
next
  case (go_on s P e) show ?case by (rule mutex_keep [OF go_on.prems go_on.hyps(1)]) (use go_on.hyps in \<open>simp_all add: set_pc_def\<close>)
next
  case (exit s P) show ?case by (rule mutex_drop [OF exit.prems exit.hyps(1)]) (use exit.hyps in \<open>simp_all add: set_pc_def\<close>)
next
  case (dequeue s P p h) show ?case by (rule mutex_keep [OF dequeue.prems dequeue.hyps(1)]) (use dequeue.hyps in \<open>simp_all add: set_pc_def\<close>)
next
  case (unlock p s P) show ?case by (rule mutex_drop [OF unlock.prems unlock.hyps(1)]) (use unlock.hyps in \<open>simp_all add: set_pc_def\<close>)
next
  case (execute s t) then show ?case by (rule mutex_execute)
qed

lemma mutex_shutdown: "shutdown_step locked s t \<Longrightarrow> mutex_ok locked s \<Longrightarrow> mutex_ok locked t"
  by (induction rule: shutdown_step.induct; erule mutex_main; simp add: broadcast_def)

lemma mutex_destroy: "destroy_step locked s t \<Longrightarrow> mutex_ok locked s \<Longrightarrow> mutex_ok locked t"
proof (induction rule: destroy_step.induct)
  case (shutdown s t)
  then show ?case by (rule mutex_shutdown)
qed (erule mutex_main; simp)+

lemma mutex_step:
  assumes "pool_step locked s t" "mutex_ok locked s"
  shows "mutex_ok locked t"
  using assms(1)
proof cases
  case 1
  show ?thesis by (rule mutex_create [OF 1 assms(2)])
next
  case 2
  show ?thesis by (rule mutex_add [OF 2 assms(2)])
next
  case (3 i)
  show ?thesis by (rule mutex_work [OF 3 assms(2)])
next
  case 4
  show ?thesis by (rule mutex_destroy [OF 4 assms(2)])
qed

lemma mutex_spurious: "spurious_step i s t \<Longrightarrow> mutex_ok locked s \<Longrightarrow> mutex_ok locked t"
proof (induction rule: spurious_step.induct)
  case (spurious s)
  show ?case by (rule mutex_keep [OF spurious.prems spurious.hyps(1), of W_Woken]) (simp_all add: set_pc_def)
qed

section \<open>The first state\<close>

lemma queue_create_more: "queue_create h = Some (q, h') \<Longrightarrow> queue_heap.more h' = queue_heap.more h"
  by (auto simp: queue_create_def calloc_queue_def calloc_def Let_def heap_defs split: if_splits prod.splits)

lemma calloc_ok: "qheap_ok h \<Longrightarrow> calloc sz h = (p, h') \<Longrightarrow> qheap_ok h' \<and> queue_heap.more h' = queue_heap.more h"
proof -
  assume ok: "qheap_ok h" and c: "calloc sz h = (p, h')"
  have "brk h \<le> brk h'" "qnodes h' = qnodes h" "queues h' = queues h" "queue_heap.more h' = queue_heap.more h"
    using c by (auto simp: calloc_def split: if_splits)
  then show ?thesis using qheap_ok_grow [OF ok, of h'] by simp
qed

lemma tpool_create_state:
  assumes "tpool_create n js h0 = Some (Some s, h)" "qheap_ok h0"
  shows "\<exists>arr q. s = \<lparr>tpool = Some \<lparr>p_thread_arr = arr, p_job_queue = q, thread_count = n, b_run = True\<rparr>,
     owner = None, threads = [], main = C_Threads 0, todo = js, qh = h, jobs = Map.empty, ran = [], added = [], taken = []\<rparr>
   \<and> qrep h q [] \<and> queue_heap.more h = queue_heap.more h0"
proof -
  obtain p h1 arr h2 where 1: "calloc 120 h0 = (p, h1)" "calloc (8 * unat n) h1 = (arr, h2)" by fastforce
  have ok: "qheap_ok h2" "queue_heap.more h2 = queue_heap.more h0"
    using calloc_ok [OF assms(2) 1(1)] calloc_ok [OF _ 1(2)] by auto
  obtain q h3 where q: "queue_create h2 = Some (q, h3)" "q \<noteq> NULL \<longrightarrow> qrep h3 q []"
    using queue_create_spec [OF ok(1)] by (auto split: if_splits)
  show ?thesis using assms(1) 1 q queue_create_more [OF q(1)] ok(2)
    by (auto simp: tpool_create_def Let_def split: if_splits)
qed

lemma reach_mutex: "reach locked n js s \<Longrightarrow> mutex_ok locked s"
proof (induction rule: reach.induct)
  case (init h0 s h)
  then show ?case using tpool_create_state [OF init(3,1)] by (auto simp: mutex_ok_def)
next
  case (step s t)
  show ?case by (rule mutex_step [OF step(2,3)])
next
  case (wakeup s i t)
  show ?case by (rule mutex_spurious [OF wakeup(2,3)])
qed

end
