(* ===== verification/TPoolData.thy ===== *)
theory TPoolData
  imports TPoolInv
begin

text \<open>
  The jobs of the thread pool: every job that was added is in the queue, in the hand of exactly one
  worker, or finished, and the phases of the thread that uses the pool.
\<close>

section \<open>Jobs\<close>

fun hand :: "wpc \<Rightarrow> ptr multiset" where
  "hand (W_Unlock p) = {#p#}" | "hand (W_Run p) = {#p#}" | "hand (W_Free p) = {#p#}" | "hand _ = {#}"

fun unrun :: "wpc \<Rightarrow> ptr multiset" where
  "unrun (W_Unlock p) = {#p#}" | "unrun (W_Run p) = {#p#}" | "unrun _ = {#}"

fun main_hand :: "mpc \<Rightarrow> ptr multiset" where
  "main_hand (A_Lock p) = {#p#}" | "main_hand (A_Enqueue p) = {#p#}" | "main_hand _ = {#}"

definition hands :: "(wpc \<Rightarrow> ptr multiset) \<Rightarrow> wpc list \<Rightarrow> ptr multiset" where
  "hands f ws = sum_list (map f ws)"

lemma hands_simps [simp]: "hands f [] = {#}" "hands f (w # ws) = f w + hands f ws" "hands f (ws @ vs) = hands f ws + hands f vs"
  by (simp_all add: hands_def)

lemma hands_upd: "i < length ws \<Longrightarrow> hands f (ws[i := pc]) + f (ws ! i) = hands f ws + f pc"
  by (induction ws arbitrary: i) (auto simp: ac_simps split: nat.splits)

lemma hands_same: "i < length ws \<Longrightarrow> f pc = f (ws ! i) \<Longrightarrow> hands f (ws[i := pc]) = hands f ws"
  using hands_upd [of i ws f pc] by simp

lemma hands_gain: "i < length ws \<Longrightarrow> f (ws ! i) = {#} \<Longrightarrow> f pc = {#p#} \<Longrightarrow> hands f (ws[i := pc]) = add_mset p (hands f ws)"
  using hands_upd [of i ws f pc] by simp

lemma hands_lose: "i < length ws \<Longrightarrow> f (ws ! i) = {#p#} \<Longrightarrow> f pc = {#} \<Longrightarrow> hands f ws = add_mset p (hands f (ws[i := pc]))"
  using hands_upd [of i ws f pc] by simp

lemma hands_wake [simp]: "hands hand (map wake ws) = hands hand ws" "hands unrun (map wake ws) = hands unrun ws"
  by (induction ws) (simp_all add: wake_def)

lemma unrun_sub: "p \<in># hands unrun ws \<Longrightarrow> p \<in># hands hand ws"
proof (induction ws)
  case (Cons w ws) then show ?case by (cases w) auto
qed simp

definition run_of :: "tpool_job_t \<Rightarrow> fptr \<times> ptr" where
  "run_of j = (job_f j, p_args j)"

definition frees_of :: "tpool_job_t multiset \<Rightarrow> (fptr \<times> ptr) multiset" where
  "frees_of J = image_mset (\<lambda>j. (job_free j, p_args j)) (filter_mset (\<lambda>j. job_free j \<noteq> NULL) J)"

lemma frees_of_simps [simp]: "frees_of {#} = {#}"
  "frees_of (add_mset j J) = (if job_free j \<noteq> NULL then add_mset (job_free j, p_args j) (frees_of J) else frees_of J)"
  "frees_of (J + K) = frees_of J + frees_of K"
  by (simp_all add: frees_of_def)

definition in_pool :: "pool \<Rightarrow> (ptr \<times> fptr) list \<Rightarrow> ptr multiset" where
  "in_pool s xs = mset (map fst xs) + hands hand (threads s) + main_hand (main s)"

definition job_at :: "pool \<Rightarrow> ptr \<Rightarrow> tpool_job_t" where
  "job_at s p = the (jobs s p)"

definition jobs_ok :: "pool \<Rightarrow> (ptr \<times> fptr) list \<Rightarrow> bool" where
  "jobs_ok s xs \<longleftrightarrow> (\<forall>p. count (in_pool s xs) p \<le> 1) \<and> (\<forall>p \<in># in_pool s xs. jobs s p \<noteq> None)
     \<and> (\<forall>p. jobs s p \<noteq> None \<longrightarrow> p \<noteq> NULL \<and> p < brk (qh s))"

definition log_ok :: "pool \<Rightarrow> (ptr \<times> fptr) list \<Rightarrow> bool" where
  "log_ok s xs \<longleftrightarrow> added s = taken s @ map (\<lambda>x. job_at s (fst x)) xs
     \<and> image_mset run_of (mset (taken s)) = mset (ran s) + image_mset (run_of \<circ> job_at s) (hands unrun (threads s))
     \<and> (tpool s \<noteq> None \<or> xs = [] \<longrightarrow> 
          frees_of (mset (taken s)) = mset (freed s) + frees_of (image_mset (job_at s) (hands hand (threads s))))"

definition queue_ok :: "pool \<Rightarrow> (ptr \<times> fptr) list \<Rightarrow> bool" where
  "queue_ok s xs \<longleftrightarrow> (\<forall>P. tpool s = Some P \<longrightarrow> qrep (qh s) (p_job_queue P) xs)"

definition room_ok :: "nat \<Rightarrow> pool \<Rightarrow> bool" where
  "room_ok N s \<longleftrightarrow> length (added s) + length (todo s) + size (main_hand (main s)) \<le> N"

definition data_ok :: "nat \<Rightarrow> pool \<Rightarrow> (ptr \<times> fptr) list \<Rightarrow> bool" where
  "data_ok N s xs \<longleftrightarrow> jobs_ok s xs \<and> log_ok s xs \<and> queue_ok s xs \<and> room_ok N s"

lemma jobs_okI:
  "(\<And>p. count (in_pool s xs) p \<le> 1) \<Longrightarrow> (\<And>p. p \<in># in_pool s xs \<Longrightarrow> \<exists>j. jobs s p = Some j)
     \<Longrightarrow> (\<And>p j. jobs s p = Some j \<Longrightarrow> p \<noteq> NULL \<and> p < brk (qh s)) \<Longrightarrow> jobs_ok s xs"
  unfolding jobs_ok_def by blast

lemma jobs_okD:
  assumes "jobs_ok s xs"
  shows "count (in_pool s xs) p \<le> 1" "p \<in># in_pool s xs \<Longrightarrow> \<exists>j. jobs s p = Some j"
    "jobs s p = Some j \<Longrightarrow> p \<noteq> NULL \<and> p < brk (qh s)"
  using assms unfolding jobs_ok_def by blast+

lemma jobs_ok_sub:
  assumes "jobs_ok s xs" "in_pool t ys \<subseteq># in_pool s xs" "jobs t = jobs s" "brk (qh s) \<le> brk (qh t)"
  shows "jobs_ok t ys"
proof (rule jobs_okI)
  show "count (in_pool t ys) p \<le> 1" for p
    using mset_subset_eq_count [OF assms(2), of p] jobs_okD(1) [OF assms(1), of p] by simp
  show "\<exists>j. jobs t p = Some j" if "p \<in># in_pool t ys" for p
    using mset_subset_eqD [OF assms(2) that] jobs_okD(2) [OF assms(1)] assms(3) by simp
  show "p \<noteq> NULL \<and> p < brk (qh t)" if "jobs t p = Some j" for p j
    using jobs_okD(3) [OF assms(1), of p j] that assms(3,4) by simp
qed

lemma data_okD:
  assumes "data_ok N s xs"
  shows "jobs_ok s xs" "log_ok s xs" "queue_ok s xs" "room_ok N s"
  using assms unfolding data_ok_def by simp_all

lemma in_pool_jobs: "jobs_ok s xs \<Longrightarrow> p \<in># in_pool s xs \<Longrightarrow> \<exists>j. jobs s p = Some j \<and> job_at s p = j \<and> p \<noteq> NULL"
  unfolding jobs_ok_def job_at_def by (metis option.collapse option.sel)

lemma worker_hand: "worker_at i pc s \<Longrightarrow> p \<in># hand pc \<Longrightarrow> p \<in># in_pool s xs"
proof -
  assume w: "worker_at i pc s" "p \<in># hand pc"
  then have "hand pc \<subseteq># hands hand (threads s)"
    using hands_upd [of i "threads s" hand W_Lock] by (simp add: worker_at_def) (metis mset_subset_eq_add_right)
  then show ?thesis using w(2) by (auto simp: in_pool_def dest: mset_subset_eqD)
qed

section \<open>Steps that leave the jobs alone\<close>

lemma data_same:
  assumes "data_ok N s xs" "hands hand (threads t) = hands hand (threads s)" "hands unrun (threads t) = hands unrun (threads s)"
    and "main_hand (main t) = main_hand (main s)" "todo t = todo s \<or> (\<exists>ys. todo s = ys @ todo t)"
    and "brk (qh t) = brk (qh s)" "freed t = freed s" "\<And>q. qrep (qh s) q xs \<Longrightarrow> qrep (qh t) q xs"
    and "jobs t = jobs s" "pool.ran t = pool.ran s" "added t = added s" "taken t = taken s"
    and "map_option p_job_queue (tpool t) = map_option p_job_queue (tpool s)"
  shows "data_ok N t xs"
proof -
  note D = data_okD [OF assms(1)]
  have 1: "in_pool t xs = in_pool s xs" "job_at t = job_at s" using assms by (simp_all add: in_pool_def job_at_def fun_eq_iff)
  have n: "tpool t = None \<longleftrightarrow> tpool s = None" using assms(13) by (cases "tpool s"; cases "tpool t") auto
  have "jobs_ok t xs" by (rule jobs_ok_sub [OF D(1)]) (simp_all add: 1 assms)
  moreover have "log_ok t xs" using D(2) unfolding log_ok_def 1(2) assms n .
  moreover have "queue_ok t xs" using D(3) assms(8,13) unfolding queue_ok_def by (cases "tpool s") auto
  moreover have "length (todo t) \<le> length (todo s)" using assms(5) by auto
  then have "room_ok N t" using D(4) assms(4,11) unfolding room_ok_def by simp
  ultimately show ?thesis unfolding data_ok_def by blast
qed

lemma data_pc:
  assumes "data_ok N s xs" "worker_at i old s" "hand pc = hand old" "unrun pc = unrun old"
  shows "data_ok N (set_pc i pc s) xs" "data_ok N (set_pc i pc (s\<lparr>owner := x\<rparr>)) xs"
proof -
  have i: "i < length (threads s)" "hand pc = hand (threads s ! i)" "unrun pc = unrun (threads s ! i)"
    using assms(2-4) by (simp_all add: worker_at_def)
  show "data_ok N (set_pc i pc s) xs" "data_ok N (set_pc i pc (s\<lparr>owner := x\<rparr>)) xs"
    by (rule data_same [OF assms(1)]; simp add: set_pc_def hands_same i)+
qed

section \<open>Steps on jobs\<close>

lemma data_alloc:
  assumes ok: "data_ok N s xs" and m: "main s = M_Next" "todo s = j # js" and p: "calloc 24 (qh s) = (p, h)" "p \<noteq> NULL"
    and qok: "qheap_ok (qh s)"
  shows "data_ok N (s\<lparr>todo := js, qh := h, jobs := (jobs s)(p \<mapsto> j), main := A_Lock p\<rparr>) xs" (is "data_ok N ?t xs")
proof -
  have h: "h = (qh s)\<lparr>allocs := Suc (allocs (qh s)), brk := brk (qh s) + 24\<rparr>" "p = brk (qh s)"
    using p by (auto simp: calloc_def split: if_splits)
  note D = data_okD [OF ok]
  have fresh: "jobs s p = None" using jobs_okD(3) [OF D(1), of p] h(2) by (cases "jobs s p") auto
  have new: "p \<notin># in_pool s xs" using jobs_okD(2) [OF D(1), of p] fresh by auto
  have pool: "in_pool ?t xs = add_mset p (in_pool s xs)" by (simp add: in_pool_def m)
  have at: "job_at ?t q = job_at s q" if "q \<in># in_pool s xs" for q using that new by (auto simp: job_at_def)
  have c: "count (in_pool s xs) p = 0" using new by (simp add: not_in_iff)
  have "jobs_ok ?t xs"
  proof (rule jobs_okI)
    show "count (in_pool ?t xs) q \<le> 1" for q using jobs_okD(1) [OF D(1), of q] c unfolding pool by (cases "p = q") simp_all
    show "\<exists>j. jobs ?t q = Some j" if "q \<in># in_pool ?t xs" for q
      using that jobs_okD(2) [OF D(1), of q] unfolding pool by auto
    show "q \<noteq> NULL \<and> q < brk (qh ?t)" if "jobs ?t q = Some k" for q k
      using that jobs_okD(3) [OF D(1), of q k] p(2) h by (auto split: if_splits)
  qed
  moreover have "log_ok ?t xs"
  proof -
    have 1: "map (\<lambda>x. job_at ?t (fst x)) xs = map (\<lambda>x. job_at s (fst x)) xs" using at by (simp add: in_pool_def)
    have 2: "image_mset (job_at ?t) (hands hand (threads s)) = image_mset (job_at s) (hands hand (threads s))"
      by (rule image_mset_cong) (simp add: at in_pool_def)
    have 3: "image_mset (run_of \<circ> job_at ?t) (hands unrun (threads s)) = image_mset (run_of \<circ> job_at s) (hands unrun (threads s))"
      by (rule image_mset_cong) (simp add: at in_pool_def unrun_sub)
    show ?thesis using ok h(1) 1 2 3 unfolding data_ok_def log_ok_def by simp
  qed
  moreover have "queue_ok ?t xs"
  proof -
    have "qheap_ok h" using calloc_ok [OF qok p(1)] by blast
    then have "qrep (qh s) q xs \<Longrightarrow> qrep h q xs" for q by (simp add: qrep_def queue_at_def h(1))
    then show ?thesis using D(3) unfolding queue_ok_def by simp
  qed
  moreover have "room_ok N ?t" using ok m unfolding data_ok_def room_ok_def by simp
  ultimately show ?thesis unfolding data_ok_def by blast
qed

lemma queue_ops_frame:
  "queue_enqueue q d f h = Some (ok, h') \<Longrightarrow> brk h \<le> brk h' \<and> queue_heap.more h' = queue_heap.more h"
  "queue_dequeue q h = Some (p, h') \<Longrightarrow> brk h \<le> brk h' \<and> queue_heap.more h' = queue_heap.more h"
  by (auto simp: queue_enqueue_def queue_link_def queue_dequeue_def calloc_qnode_def calloc_def Let_def heap_defs
      bind_eq_Some_conv split: if_splits prod.splits)

lemma data_enqueue:
  assumes ok: "data_ok N s xs" and m: "main s = A_Enqueue p" and P: "tpool s = Some P" and j: "jobs s p = Some j"
    and e: "queue_enqueue (p_job_queue P) p (job_free j) (qh s) = Some (b, h)" and N: "N < 2 ^ 32"
  shows "data_ok N (s\<lparr>qh := h, added := (if b then added s @ [j] else added s), main := A_Unlock\<rparr>)
     (if b then xs @ [(p, job_free j)] else xs)" (is "data_ok N ?t ?ys")
proof -
  have rep: "qrep (qh s) (p_job_queue P) xs" using ok P unfolding data_ok_def queue_ok_def by blast
  have p: "p \<noteq> NULL" using ok j unfolding data_ok_def jobs_ok_def by blast
  have len: "Suc (length xs) < 2 ^ 32"
    using ok m N arg_cong [of "added s" _ length] unfolding data_ok_def room_ok_def log_ok_def by fastforce
  have h: "qrep h (p_job_queue P) ?ys" using queue_enqueue_spec [OF rep p len, of "job_free j"] e by (auto split: if_splits)
  note fr = queue_ops_frame(1) [OF e]
  have pool: "in_pool s xs = (if b then in_pool ?t ?ys else add_mset p (in_pool ?t ?ys))"
    by (simp add: in_pool_def m)
  have at: "job_at ?t = job_at s" by (simp add: job_at_def fun_eq_iff)
  have "jobs_ok ?t ?ys" by (rule jobs_ok_sub [OF data_okD(1) [OF ok]]) (use fr pool in \<open>simp_all split: if_splits\<close>)
  moreover have "log_ok ?t ?ys" using ok fr P unfolding data_ok_def log_ok_def at by (auto simp: job_at_def j)
  moreover have "queue_ok ?t ?ys" using h P by (simp add: queue_ok_def)
  moreover have "room_ok N ?t" using ok m unfolding data_ok_def room_ok_def by auto
  ultimately show ?thesis unfolding data_ok_def by blast
qed

lemma data_dequeue:
  assumes ok: "data_ok N s (x # xs)" and w: "worker_at i W_Take s" and P: "tpool s = Some P"
    and e: "queue_dequeue (p_job_queue P) (qh s) = Some (p, h)"
  shows "p = fst x" "data_ok N (set_pc i (W_Unlock p) (s\<lparr>qh := h, taken := taken s @ (case jobs s p of None \<Rightarrow> [] | Some j \<Rightarrow> [j])\<rparr>)) xs"
    (is "data_ok N ?t xs")
proof -
  have rep: "qrep (qh s) (p_job_queue P) (x # xs)" using ok P unfolding data_ok_def queue_ok_def by blast
  show p: "p = fst x" using queue_dequeue_spec [OF rep] e by auto
  have h: "qrep h (p_job_queue P) xs" using queue_dequeue_spec [OF rep] e by auto
  note fr = queue_ops_frame(2) [OF e]
  have "p \<in># in_pool s (x # xs)" by (simp add: in_pool_def p)
  then obtain j where j: "jobs s p = Some j" "job_at s p = j" using in_pool_jobs [OF data_okD(1) [OF ok]] by blast
  have i: "i < length (threads s)" "threads s ! i = W_Take" using w by (simp_all add: worker_at_def)
  have hs: "hands hand (threads ?t) = add_mset p (hands hand (threads s))" "hands unrun (threads ?t) = add_mset p (hands unrun (threads s))"
    using i by (simp_all add: set_pc_def hands_gain)
  have pool: "in_pool ?t xs = in_pool s (x # xs)" unfolding in_pool_def hs by (simp add: set_pc_def p)
  have at: "job_at ?t = job_at s" "jobs ?t = jobs s" by (simp_all add: job_at_def fun_eq_iff set_pc_def)
  have "jobs_ok ?t xs" by (rule jobs_ok_sub [OF data_okD(1) [OF ok]]) (use fr pool at in \<open>simp_all add: set_pc_def\<close>)
  moreover have "log_ok ?t xs" using ok fr P j p unfolding data_ok_def log_ok_def at hs by (auto simp: set_pc_def)
  moreover have "queue_ok ?t xs" using h P by (simp add: queue_ok_def set_pc_def)
  moreover have "room_ok N ?t" using ok unfolding data_ok_def room_ok_def by (simp add: set_pc_def)
  ultimately show "data_ok N ?t xs" unfolding data_ok_def by blast
qed

lemma data_run:
  assumes ok: "data_ok N s xs" and w: "worker_at i (W_Run p) s" and j: "jobs s p = Some j"
  shows "data_ok N (set_pc i (W_Free p) (s\<lparr>ran := ran s @ [(job_f j, p_args j)]\<rparr>)) xs" (is "data_ok N ?t xs")
proof -
  have i: "i < length (threads s)" "threads s ! i = W_Run p" using w by (simp_all add: worker_at_def)
  have hs: "hands hand (threads ?t) = hands hand (threads s)" "hands unrun (threads s) = add_mset p (hands unrun (threads ?t))"
    using i by (simp_all add: set_pc_def hands_same hands_lose)
  have at: "job_at ?t = job_at s" "jobs ?t = jobs s" "in_pool ?t xs = in_pool s xs"
    by (simp_all add: job_at_def fun_eq_iff set_pc_def in_pool_def) (use hs in \<open>simp add: set_pc_def\<close>)
  have "jobs_ok ?t xs" by (rule jobs_ok_sub [OF data_okD(1) [OF ok]]) (use at in \<open>simp_all add: set_pc_def\<close>)
  moreover have "log_ok ?t xs" using ok j hs unfolding data_ok_def log_ok_def at hs(1)
    by (simp add: set_pc_def run_of_def job_at_def)
  moreover have "queue_ok ?t xs" "room_ok N ?t" using ok unfolding data_ok_def room_ok_def queue_ok_def by (simp_all add: set_pc_def)
  ultimately show ?thesis unfolding data_ok_def by blast
qed

lemma qrep_more: "qrep (qwith_more h z) p xs = qrep h p xs"
  by (simp add: qrep_def qheap_ok_def queue_at_def)

lemma data_free:
  assumes ok: "data_ok N s xs" and w: "worker_at i (W_Free p) s" and j: "jobs s p = Some j"
    and h: "(if job_free j \<noteq> NULL then log_free (job_free j) (p_args j) (qh s) else Some (qh s)) = Some h"
  shows "data_ok N (set_pc i W_Lock (s\<lparr>qh := h, jobs := (jobs s)(p := None)\<rparr>)) xs" (is "data_ok N ?t xs")
proof -
  have i: "i < length (threads s)" "threads s ! i = W_Free p" using w by (simp_all add: worker_at_def)
  have hs: "hands unrun (threads ?t) = hands unrun (threads s)" "hands hand (threads s) = add_mset p (hands hand (threads ?t))"
    using i by (simp_all add: set_pc_def hands_same hands_lose)
  have pool: "in_pool s xs = add_mset p (in_pool ?t xs)" unfolding in_pool_def hs(2) by (simp add: set_pc_def)
  note D = data_okD [OF ok]
  note one = jobs_okD(1) [OF D(1), of p]
  have gone: "p \<notin># in_pool ?t xs" using one unfolding pool by (simp add: not_in_iff)
  have at: "job_at ?t q = job_at s q" if "q \<in># in_pool ?t xs" for q using that gone by (auto simp: job_at_def set_pc_def)
  have log: "h = (if job_free j \<noteq> NULL then qwith_more (qh s) (freed s @ [(job_free j, p_args j)]) else qh s)"
    using h by (auto simp: log_free_def split: if_splits)
  have "jobs_ok ?t xs"
  proof (rule jobs_okI)
    show "count (in_pool ?t xs) q \<le> 1" for q using jobs_okD(1) [OF D(1), of q] unfolding pool by (simp split: if_splits)
    show "\<exists>j. jobs ?t q = Some j" if q: "q \<in># in_pool ?t xs" for q
    proof -
      have "q \<noteq> p" using q gone by blast
      moreover have "q \<in># in_pool s xs" using q unfolding pool by simp
      ultimately show ?thesis using jobs_okD(2) [OF D(1), of q] by (simp add: set_pc_def)
    qed
    show "q \<noteq> NULL \<and> q < brk (qh ?t)" if "jobs ?t q = Some k" for q k
      using that jobs_okD(3) [OF D(1), of q k] log by (simp add: set_pc_def split: if_splits)
  qed
  moreover have "log_ok ?t xs"
  proof -
    have 1: "map (\<lambda>x. job_at ?t (fst x)) xs = map (\<lambda>x. job_at s (fst x)) xs" using at by (simp add: in_pool_def)
    have 2: "image_mset (job_at ?t) (hands hand (threads ?t)) = image_mset (job_at s) (hands hand (threads ?t))"
      by (rule image_mset_cong) (simp add: at in_pool_def)
    have 3: "image_mset (run_of \<circ> job_at ?t) (hands unrun (threads ?t)) = image_mset (run_of \<circ> job_at s) (hands unrun (threads ?t))"
      by (rule image_mset_cong) (simp add: at in_pool_def unrun_sub)
    have f: "mset (freed ?t) = mset (freed s) + frees_of {#job_at s p#}" using log j by (simp add: set_pc_def job_at_def)
    have 4: "frees_of (image_mset (job_at s) (hands hand (threads s)))
        = frees_of {#job_at s p#} + frees_of (image_mset (job_at s) (hands hand (threads ?t)))"
      unfolding hs(2) by simp
    have L: "added s = taken s @ map (\<lambda>x. job_at s (fst x)) xs"
      "image_mset run_of (mset (taken s)) = mset (ran s) + image_mset (run_of \<circ> job_at s) (hands unrun (threads s))"
      "tpool s \<noteq> None \<or> xs = [] \<Longrightarrow> frees_of (mset (taken s)) = mset (freed s) + frees_of (image_mset (job_at s) (hands hand (threads s)))"
      using ok unfolding data_ok_def log_ok_def by blast+
    have "frees_of (mset (taken s)) = mset (freed ?t) + frees_of (image_mset (job_at ?t) (hands hand (threads ?t)))"
      if "tpool s \<noteq> None \<or> xs = []" using L(3) [OF that] unfolding 2 f 4 by (simp only: ac_simps)
    moreover have "added ?t = taken ?t @ map (\<lambda>x. job_at ?t (fst x)) xs" using L(1) unfolding 1 by (simp add: set_pc_def)
    moreover have "image_mset run_of (mset (taken ?t)) = mset (pool.ran ?t) + image_mset (run_of \<circ> job_at ?t) (hands unrun (threads ?t))"
      using L(2) 3 hs(1) by (simp add: set_pc_def)
    ultimately show ?thesis unfolding log_ok_def by (simp add: set_pc_def)
  qed
  moreover have "queue_ok ?t xs" using ok log unfolding data_ok_def queue_ok_def by (auto simp: set_pc_def qrep_more)
  moreover have "room_ok N ?t" using ok unfolding data_ok_def room_ok_def by (simp add: set_pc_def)
  ultimately show ?thesis unfolding data_ok_def by blast
qed

end
