(* ===== verification/TPoolPhase.thy ===== *)
theory TPoolPhase
  imports TPoolData
begin

text \<open>The phases of the pool, and the invariant of its steps.\<close>

section \<open>Phases\<close>

definition running :: "pool \<Rightarrow> bool" where
  "running s = (case tpool s of None \<Rightarrow> False | Some P \<Rightarrow> b_run P)"

lemma running_simps [simp]: "tpool s = Some P \<Longrightarrow> running s = b_run P" "tpool s = None \<Longrightarrow> \<not> running s"
  by (simp_all add: running_def)

fun down :: "mpc \<Rightarrow> bool" where
  "down D_Lock = True" | "down D_Broadcast = True" | "down D_Unlock = True" | "down (D_Join k) = True"
| "down D_Free = True" | "down M_Done = True" | "down _ = False"

fun past :: "mpc \<Rightarrow> bool" where
  "past D_Unlock = True" | "past (D_Join k) = True" | "past D_Free = True" | "past M_Done = True" | "past _ = False"

text \<open>
  A worker leaves only an empty queue of a pool that is shut down, takes a job only from a queue
  that has one, and once module_1's broadcast is done no worker sleeps.
\<close>

definition thread_ok :: "bool \<Rightarrow> bool \<Rightarrow> 'a list \<Rightarrow> mpc \<Rightarrow> wpc \<Rightarrow> bool" where
  "thread_ok locked r xs m pc \<longleftrightarrow> (pc = W_Exit \<or> pc = W_Done \<longrightarrow> xs = [] \<and> \<not> r) \<and> (pc = W_If \<longrightarrow> xs \<noteq> [] \<or> \<not> r)
     \<and> (pc = W_Take \<longrightarrow> xs \<noteq> []) \<and> (locked \<and> past m \<longrightarrow> pc \<noteq> W_Sleep \<and> pc \<noteq> W_Asleep)"

fun main_ok :: "32 word \<Rightarrow> wpc list \<Rightarrow> mpc \<Rightarrow> bool" where
  "main_ok n ws (D_Join k) \<longleftrightarrow> unat k \<le> length ws \<and> (\<forall>i < unat k. ws ! i = W_Done)"
| "main_ok n ws D_Free \<longleftrightarrow> (\<forall>pc \<in> set ws. pc = W_Done)"
| "main_ok n ws M_Done \<longleftrightarrow> (\<forall>pc \<in> set ws. pc = W_Done)"
| "main_ok n ws (C_Threads k) \<longleftrightarrow> length ws = unat k"
| "main_ok n ws _ \<longleftrightarrow> True"

definition count_ok :: "32 word \<Rightarrow> pool \<Rightarrow> bool" where
  "count_ok n s \<longleftrightarrow> length (threads s) \<le> unat n \<and> (\<forall>P. tpool s = Some P \<longrightarrow>
     (if \<exists>k. main s = C_Threads k then thread_count P = n else unat (thread_count P) = length (threads s)))"

definition phase_ok :: "bool \<Rightarrow> 32 word \<Rightarrow> pool \<Rightarrow> 'a list \<Rightarrow> bool" where
  "phase_ok locked n s xs \<longleftrightarrow> (\<forall>pc \<in> set (threads s). thread_ok locked (running s) xs (main s) pc)
     \<and> (down (main s) \<longrightarrow> \<not> running s) \<and> (\<not> running s \<longrightarrow> down (main s) \<or> main s = M_Next \<and> todo s = [])
     \<and> (tpool s = None \<longleftrightarrow> main s = M_Done) \<and> count_ok n s \<and> main_ok n (threads s) (main s)"

lemma phase_okI:
  "(\<And>pc. pc \<in> set (threads s) \<Longrightarrow> thread_ok locked (running s) xs (main s) pc) \<Longrightarrow> (down (main s) \<Longrightarrow> \<not> running s)
     \<Longrightarrow> (\<not> running s \<Longrightarrow> down (main s) \<or> main s = M_Next \<and> todo s = []) \<Longrightarrow> (tpool s = None \<longleftrightarrow> main s = M_Done)
     \<Longrightarrow> count_ok n s \<Longrightarrow> main_ok n (threads s) (main s) \<Longrightarrow> phase_ok locked n s xs"
  unfolding phase_ok_def by blast

lemma phase_okD:
  assumes "phase_ok locked n s xs"
  shows "pc \<in> set (threads s) \<Longrightarrow> thread_ok locked (running s) xs (main s) pc" "down (main s) \<Longrightarrow> \<not> running s"
    "\<not> running s \<Longrightarrow> down (main s) \<or> main s = M_Next \<and> todo s = []" "tpool s = None \<longleftrightarrow> main s = M_Done"
    "count_ok n s" "main_ok n (threads s) (main s)"
  using assms unfolding phase_ok_def by blast+

lemma main_ok_upd:
  assumes "main_ok n ws m" "i < length ws" "ws ! i \<noteq> W_Done" 
  shows "main_ok n (ws[i := pc]) m"
proof (cases m)
  case (D_Join k)
  then have "\<not> i < unat k" using assms by auto
  then show ?thesis using assms(1) D_Join by (auto simp: nth_list_update)
next
  case D_Free
  then show ?thesis using assms nth_mem [OF assms(2)] by auto
next
  case M_Done
  then show ?thesis using assms nth_mem [OF assms(2)] by auto
qed (use assms in auto)

text \<open>A step of one worker that keeps the queue.\<close>

lemma phase_pc:
  assumes ok: "phase_ok locked n s xs" and w: "worker_at i old s" "old \<noteq> W_Done"
    and pc: "thread_ok locked (running s) xs (main s) pc"
    and t: "threads t = (threads s)[i := pc]" "main t = main s" "todo t = todo s" "tpool t = tpool s"
  shows "phase_ok locked n t xs"
proof -
  note D = phase_okD [OF ok]
  have r: "running t = running s" by (simp add: running_def t(4))
  show ?thesis
  proof (rule phase_okI)
    show "thread_ok locked (running t) xs (main t) pc'" if "pc' \<in> set (threads t)" for pc'
      using that set_update_subset_insert [of "threads s" i pc] D(1) pc unfolding t(1,2) r by blast
    show "count_ok n t" using D(5) by (simp add: count_ok_def t)
    show "main_ok n (threads t) (main t)" using main_ok_upd [OF D(6)] w by (simp add: t worker_at_def)
  qed (use D(2-4) t r in simp_all)
qed

text \<open>A step of the main thread that keeps the queue and the workers, up to a broadcast.\<close>

lemma thread_ok_wake: "thread_ok locked r xs m pc \<Longrightarrow> thread_ok locked r xs m (wake pc)"
  by (auto simp: thread_ok_def wake_def)

lemma wake_Done: "wake pc = W_Done \<longleftrightarrow> pc = W_Done"
  by (simp add: wake_def)

lemma unat_next: "(k :: 32 word) < n \<Longrightarrow> unat (k + 1) = Suc (unat k) \<and> Suc (unat k) \<le> unat n"
  using unat_less_32 [of n] by (simp add: word_less_nat_alt unat_add_1_32)

section \<open>Creation\<close>

lemma phase_create:
  assumes "create_step s t" "phase_ok locked n s xs"
  shows "phase_ok locked n t xs"
  using assms
proof (induction rule: create_step.induct)
  case (create s iter P)
  note D = phase_okD [OF create.prems]
  have n: "thread_count P = n" "length (threads s) = unat iter" "b_run P"
    using D(3,5,6) create.hyps by (auto simp: count_ok_def)
  have "unat (iter + 1) = Suc (unat iter)" "Suc (unat iter) \<le> unat n"
    using unat_next [of iter n] create.hyps(3) n(1) by simp_all
  then show ?case
    using D(1,3) create.hyps n by (intro phase_okI) (auto simp: count_ok_def thread_ok_def)
next
  case (create_fails s iter P)
  note D = phase_okD [OF create_fails.prems]
  have n: "length (threads s) = unat iter" "b_run P" using D(3,6) create_fails.hyps by auto
  have t: "thread_ok locked False xs M_Next pc" if "pc \<in> set (threads s)" for pc
    using D(1) [OF that] create_fails.hyps by (auto simp: thread_ok_def)
  show ?case
    using D(5) create_fails.hyps n t by (intro phase_okI) (simp_all add: count_ok_def)
next
  case (created s iter P)
  note D = phase_okD [OF created.prems]
  have n: "thread_count P = n" "length (threads s) = unat iter" "b_run P" "length (threads s) \<le> unat n"
    using D(3,5,6) created.hyps by (auto simp: count_ok_def)
  then have "unat (thread_count P) = length (threads s)" using created.hyps(3) by (simp add: word_less_nat_alt)
  then show ?case
    using D(1) created.hyps n by (intro phase_okI) (auto simp: count_ok_def thread_ok_def)
qed

section \<open>The invariant\<close>

definition pool_inv :: "bool \<Rightarrow> 32 word \<Rightarrow> nat \<Rightarrow> pool \<Rightarrow> bool" where
  "pool_inv locked n N s \<longleftrightarrow> mutex_ok locked s \<and> (\<exists>xs. data_ok N s xs \<and> phase_ok locked n s xs)"

lemma inv_create: "create_step s t \<Longrightarrow> data_ok N s xs \<Longrightarrow> data_ok N t xs"
  by (induction rule: create_step.induct) (erule data_same; simp)+

lemma phase_main:
  assumes ok: "phase_ok locked n s xs" and t: "threads t = threads s \<or> threads t = map wake (threads s)"
    and m: "\<not> (\<exists>k. main s = C_Threads k)" "\<not> (\<exists>k. main t = C_Threads k)" "\<not> down (main s)" "\<not> down (main t)"
    and s: "tpool t = tpool s" "running s" 
    and xs: "ys = xs \<or> (\<exists>y. ys = xs @ [y])"
  shows "phase_ok locked n t ys"
proof -
  note D = phase_okD [OF ok]
  have np: "\<not> past m" if "\<not> down m" for m using that by (cases m) auto
  have r: "running t = running s" by (simp add: running_def s(1))
  have 1: "thread_ok locked (running s) ys (main t) pc" if "pc \<in> set (threads s)" for pc
    using D(1) [OF that] xs s(2) np [OF m(4)] by (auto simp: thread_ok_def)
  have "main_ok n (threads t) (main t)" using m(2,4) by (cases "main t") auto
  moreover have "count_ok n t" using D(5) t m(1,2) s(1) by (auto simp: count_ok_def)
  moreover have "thread_ok locked (running t) ys (main t) pc" if "pc \<in> set (threads t)" for pc
    using t that 1 thread_ok_wake unfolding r by fastforce
  ultimately show ?thesis using D(4) m r s
    by (intro phase_okI) (auto dest: sym)
qed

lemma data_queue: "data_ok N s xs \<Longrightarrow> tpool s = Some P \<Longrightarrow> qrep (qh s) (p_job_queue P) xs"
  unfolding data_ok_def queue_ok_def by blast

lemma calloc_fails: "calloc sz h = (NULL, h') \<Longrightarrow> qheap_ok h \<Longrightarrow> h' = h\<lparr>allocs := Suc (allocs h)\<rparr>"
  by (auto simp: calloc_def split: if_splits) (simp add: qheap_ok_def)

lemma inv_add:
  assumes "add_step s t" "data_ok N s xs" "phase_ok locked n s xs" "N < 2 ^ 32"
  shows "\<exists>xs. data_ok N t xs \<and> phase_ok locked n t xs"
proof -
  note D = phase_okD [OF assms(3)]
  have run: "running s" "\<not> down (main s)" "\<not> (\<exists>k. main s = C_Threads k)" using assms(1) D(2,3)
    by (induction rule: add_step.induct) auto
  then obtain P where P: "tpool s = Some P" by (cases "tpool s") auto
  note rep = data_queue [OF assms(2) P]
  note ph = phase_main [OF assms(3) _ run(3) _ run(2) _ _ run(1)]
  show ?thesis using assms(1)
  proof cases
    case (no_job j js)
    then have "data_ok N t xs" "phase_ok locked n t xs"
      using run by (auto intro!: data_same [OF assms(2)] ph)
    then show ?thesis by blast
  next
    case (alloc j js p h)
    have "data_ok N t xs" unfolding alloc(1) 
      by (rule data_alloc [OF assms(2) alloc(2,3,5,6)]) (rule qrep_facts(1) [OF rep])
    moreover have "phase_ok locked n t xs" unfolding alloc(1) by (rule ph) simp_all
    ultimately show ?thesis by blast
  next
    case (alloc_fails j js p h)
    have h: "h = (qh s)\<lparr>allocs := Suc (allocs (qh s))\<rparr>"
      using calloc_fails [OF _ qrep_facts(1) [OF rep]] alloc_fails(5,6) by blast
    have "data_ok N t xs" unfolding alloc_fails(1) 
      by (rule data_same [OF assms(2)]) (simp_all add: h alloc_fails(3))
    moreover have "phase_ok locked n t xs" unfolding alloc_fails(1)
      by (rule ph) (use run in simp_all)
    ultimately show ?thesis by blast
  next
    case (add_lock p Q)
    have "data_ok N t xs" unfolding add_lock(1) by (rule data_same [OF assms(2)]) (simp_all add: add_lock(2))
    moreover have "phase_ok locked n t xs" unfolding add_lock(1) by (rule ph) simp_all
    ultimately show ?thesis by blast
  next
    case (enqueue p Q j ok h)
    note d = data_enqueue [OF assms(2) enqueue(2-5) assms(4)]
    have "phase_ok locked n t (if ok then xs @ [(p, job_free j)] else xs)"
      unfolding enqueue(1) by (rule ph) simp_all
    with d show ?thesis unfolding enqueue(1) by blast
  next
    case (add_unlock Q)
    have "data_ok N t xs" unfolding add_unlock(1) by (rule data_same [OF assms(2)]) (simp_all add: add_unlock(2))
    moreover have "phase_ok locked n t xs" unfolding add_unlock(1) by (rule ph) simp_all
    ultimately show ?thesis by blast
  next
    case (add_broadcast Q)
    have "data_ok N t xs" unfolding add_broadcast(1)
      by (rule data_same [OF assms(2)]) (simp_all add: add_broadcast(2) broadcast_def)
    moreover have "phase_ok locked n t xs" unfolding add_broadcast(1) by (rule ph) (simp_all add: broadcast_def)
    ultimately show ?thesis by blast
  qed
qed

section \<open>Workers\<close>

lemma phase_thread: "phase_ok locked n s xs \<Longrightarrow> worker_at i pc s \<Longrightarrow> thread_ok locked (running s) xs (main s) pc"
  unfolding worker_at_def by (auto intro: phase_okD(1))

lemma queue_empty: "data_ok N s xs \<Longrightarrow> tpool s = Some P \<Longrightarrow> queue_is_empty (p_job_queue P) (qh s) = Some (xs = [])"
  using data_queue [of N s xs P] queue_is_empty_at unfolding qrep_def by fastforce

lemma other_thread:
  assumes "mutex_ok locked s" "worker_at i old s" "holds old" "k < length (threads s)" "k \<noteq> i"
  shows "\<not> holds (threads s ! k)"
proof
  assume "holds (threads s ! k)"
  then have "owner s = Some (Worker k)" "owner s = Some (Worker i)"
    using assms unfolding mutex_ok_def worker_at_def by blast+
  with assms(5) show False by simp
qed

lemma inv_execute:
  assumes "execute_step i s t" "data_ok N s xs" "phase_ok locked n s xs"
  shows "data_ok N t xs \<and> phase_ok locked n t xs"
  using assms(1)
proof cases
  case (no_run p)
  have "p \<in># in_pool s xs" by (rule worker_hand [OF no_run(2)]) simp
  then show ?thesis using in_pool_jobs [OF data_okD(1) [OF assms(2)]] no_run(3) by blast
next
  case (run p j)
  have "phase_ok locked n t xs" unfolding run(1)
    by (rule phase_pc [OF assms(3) run(2)]) (simp_all add: thread_ok_def set_pc_def)
  then show ?thesis using data_run [OF assms(2) run(2,4)] unfolding run(1) by blast
next
  case (free p j h)
  have "phase_ok locked n t xs" unfolding free(1)
    by (rule phase_pc [OF assms(3) free(2)]) (simp_all add: thread_ok_def set_pc_def)
  then show ?thesis using data_free [OF assms(2) free(2-4)] unfolding free(1) by blast
qed

lemma inv_work:
  assumes "work_step i s t" "mutex_ok locked s" "data_ok N s xs" "phase_ok locked n s xs"
  shows "\<exists>xs. data_ok N t xs \<and> phase_ok locked n t xs"
proof -
  note ph = phase_pc [OF assms(4)]
  note dp = data_pc [OF assms(3)]
  note em = queue_empty [OF assms(3)]
  note th = phase_thread [OF assms(4)]
  have *: "\<exists>xs. data_ok N t xs \<and> phase_ok locked n t xs" 
    if "t = set_pc i pc s \<or> (\<exists>x. t = set_pc i pc (s\<lparr>owner := x\<rparr>))" "worker_at i old s" "old \<noteq> W_Done"
      "hand pc = hand old" "unrun pc = unrun old" "thread_ok locked (running s) xs (main s) pc" for pc old
  proof -
    have "data_ok N t xs" using that(1) dp [OF that(2,4,5)] by auto
    moreover have "phase_ok locked n t xs" by (rule ph [OF that(2,3,6)]) (use that(1) in \<open>auto simp: set_pc_def\<close>)
    ultimately show ?thesis by blast
  qed
  show ?thesis using assms(1)
  proof cases
    case (lock P)
    show ?thesis by (rule * [OF _ lock(2)]) (use lock(1) in \<open>auto simp: thread_ok_def\<close>)
  next
    case (loop P e)
    have "\<not> past (main s)" using phase_okD(2) [OF assms(4)] loop(3,5) by (cases "main s") auto
    then show ?thesis by (intro * [OF _ loop(2)]) (use loop(1) in \<open>auto simp: thread_ok_def\<close>)
  next
    case (loop_end P e)
    show ?thesis by (rule * [OF _ loop_end(2), of W_If]) (use loop_end(1,3-5) em in \<open>auto simp: thread_ok_def\<close>)
  next
    case (sleep P)
    show ?thesis by (rule * [OF _ sleep(2), of W_Asleep]) (use sleep(1) th [OF sleep(2)] in \<open>auto simp: thread_ok_def\<close>)
  next
    case (woken P)
    show ?thesis by (rule * [OF _ woken(2), of W_While]) (use woken(1) in \<open>auto simp: thread_ok_def\<close>)
  next
    case (stop P e)
    show ?thesis by (rule * [OF _ stop(2), of W_Exit]) (use stop(1,3-5) em in \<open>auto simp: thread_ok_def\<close>)
  next
    case (go_on P e)
    show ?thesis by (rule * [OF _ go_on(2), of W_Take]) (use go_on(1,3-5) em th [OF go_on(2)] in \<open>auto simp: thread_ok_def\<close>)
  next
    case (exit P)
    show ?thesis by (rule * [OF _ exit(2), of W_Done]) (use exit(1) th [OF exit(2)] in \<open>auto simp: thread_ok_def\<close>)
  next
    case (dequeue P p h)
    obtain x ys where xs: "xs = x # ys" using th [OF dequeue(2)] by (cases xs) (auto simp: thread_ok_def)
    note d = data_dequeue(2) [OF assms(3) [unfolded xs] dequeue(2-4)]
    have "phase_ok locked n t ys"
    proof (rule phase_okI)
      fix pc assume "pc \<in> set (threads t)"
      then obtain k where k: "k < length (threads s)" "pc = (threads s)[i := W_Unlock p] ! k"
        unfolding dequeue(1) by (auto simp: set_pc_def in_set_conv_nth)
      have "running t = running s" "main t = main s" unfolding dequeue(1) by (simp_all add: running_def set_pc_def)
      moreover have "thread_ok locked (running s) ys (main s) pc"
      proof (cases "k = i")
        case True
        then show ?thesis using k by (auto simp: thread_ok_def)
      next
        case False
        have "\<not> holds pc" using other_thread [OF assms(2) dequeue(2) _ k(1) False] k False by simp
        moreover have "thread_ok locked (running s) xs (main s) pc" using phase_okD(1) [OF assms(4)] k False by simp
        ultimately show ?thesis unfolding xs thread_ok_def by auto
      qed
      ultimately show "thread_ok locked (running t) ys (main t) pc" by simp
    next
      have "running t = running s" "main t = main s" "todo t = todo s" "tpool t = tpool s" "length (threads t) = length (threads s)"
        unfolding dequeue(1) by (simp_all add: running_def set_pc_def)
      then show "down (main t) \<Longrightarrow> \<not> running t" "\<not> running t \<Longrightarrow> down (main t) \<or> main t = M_Next \<and> todo t = []"
        "(tpool t = None) = (main t = M_Done)" "count_ok n t" using phase_okD(2-5) [OF assms(4)] by (simp_all add: count_ok_def)
      show "main_ok n (threads t) (main t)" unfolding dequeue(1) using main_ok_upd [OF phase_okD(6) [OF assms(4)]] dequeue(2)
        by (simp add: set_pc_def worker_at_def)
    qed
    with d show ?thesis unfolding dequeue(1) by blast
  next
    case (unlock p P)
    show ?thesis by (rule * [OF _ unlock(2), of "W_Run p"]) (use unlock(1) in \<open>auto simp: thread_ok_def\<close>)
  next
    case execute
    then show ?thesis using inv_execute [OF _ assms(3,4)] by blast
  qed
qed

end
