(* ===== verification/TPoolSpec.thy ===== *)
theory TPoolSpec
  imports TPoolPhase
begin

text \<open>
  Shutdown of the pool, the invariant of every reachable state, and a measure that every step of
  the code decreases.
\<close>

section \<open>Shutdown\<close>

interpretation job_queue: qfree_contract log_free "\<lambda>f d z. Some (z @ [(f, d)])"
  by unfold_locales (simp add: log_free_def)

lemma phase_down:
  assumes ok: "phase_ok locked n s xs" and d: "down (main s)" "down (main t)" "main t \<noteq> M_Done" "main s \<noteq> M_Done"
    and t: "threads t = threads s \<or> threads t = map wake (threads s)" "tpool t = tpool s"
    and sl: "locked \<Longrightarrow> past (main t) \<Longrightarrow> past (main s) \<or> (\<forall>pc \<in> set (threads t). pc \<noteq> W_Sleep \<and> pc \<noteq> W_Asleep)"
    and m: "main_ok n (threads t) (main t)"
  shows "phase_ok locked n t xs"
proof (rule phase_okI)
  note D = phase_okD [OF ok]
  have r: "running t = running s" by (simp add: running_def t(2))
  show "thread_ok locked (running t) xs (main t) pc" if pc: "pc \<in> set (threads t)" for pc
  proof -
    have "thread_ok locked (running s) xs (main s) pc" using t(1) pc D(1) thread_ok_wake by fastforce
    then show ?thesis using sl pc unfolding thread_ok_def r by auto
  qed
  have "\<not> (\<exists>k. main s = C_Threads k)" "\<not> (\<exists>k. main t = C_Threads k)" using d(1,2) by auto
  then show "count_ok n t" using D(5) t by (auto simp: count_ok_def)
  show "main_ok n (threads t) (main t)" by (rule m)
  show "down (main t) \<Longrightarrow> \<not> running t" "\<not> running t \<Longrightarrow> down (main t) \<or> main t = M_Next \<and> todo t = []"
    "(tpool t = None) = (main t = M_Done)" using D(2,4) d r t(2) by auto
qed

lemma inv_shutdown:
  assumes "shutdown_step locked s t" "mutex_ok locked s" "data_ok N s xs" "phase_ok locked n s xs"
  shows "data_ok N t xs \<and> phase_ok locked n t xs"
proof -
  note ph = phase_down [OF assms(4)]
  note ds = data_same [OF assms(3)]
  note D = phase_okD [OF assms(4)]
  show ?thesis using assms(1)
  proof cases
    case (down_lock P)
    show ?thesis unfolding down_lock(1) by (rule conjI; (rule ds | rule ph)) (use down_lock in simp_all)
  next
    case down_no_lock
    show ?thesis unfolding down_no_lock(1) by (rule conjI; (rule ds | rule ph)) (use down_no_lock in simp_all)
  next
    case (down_broadcast P)
    have "pc \<noteq> W_Sleep \<and> pc \<noteq> W_Asleep" if l: "locked" and pc: "pc \<in> set (map wake (threads s))" for pc
    proof -
      obtain k where k: "k < length (threads s)" "pc = wake (threads s ! k)" using pc by (auto simp: in_set_conv_nth)
      have "\<not> holds (threads s ! k)"
      proof
        assume "holds (threads s ! k)"
        then have "owner s = Some (Worker k)" "owner s = Some Main"
          using assms(2) k(1) l main_holds.simps(3) [of locked] unfolding mutex_ok_def down_broadcast(2) [symmetric] by blast+
        then show False by simp
      qed
      then show ?thesis using k(2) by (auto simp: wake_def split: if_splits)
    qed
    then have "phase_ok locked n t xs" unfolding down_broadcast(1)
      by (intro ph) (use down_broadcast in \<open>simp_all add: broadcast_def\<close>)
    moreover have "data_ok N t xs" unfolding down_broadcast(1) by (rule ds) (use down_broadcast in \<open>simp_all add: broadcast_def\<close>)
    ultimately show ?thesis by blast
  next
    case (down_unlock P)
    show ?thesis unfolding down_unlock(1) by (rule conjI; (rule ds | rule ph)) (use down_unlock in simp_all)
  next
    case down_no_unlock
    show ?thesis unfolding down_no_unlock(1) by (rule conjI; (rule ds | rule ph)) (use down_no_unlock in simp_all)
  next
    case (join iter P)
    have "main_ok n (threads s) (D_Join (iter + 1))"
      using D(6) unat_next [of iter "thread_count P"] join(2-5) D(5) by (auto simp: less_Suc_eq worker_at_def count_ok_def)
    then show ?thesis unfolding join(1) by - (rule conjI; (rule ds | rule ph); use join in simp_all)
  next
    case (joined iter P)
    have "pc = W_Done" if "pc \<in> set (threads s)" for pc
    proof -
      from that obtain k where k: "k < length (threads s)" "pc = threads s ! k" by (auto simp: in_set_conv_nth)
      then have "k < unat iter" using joined(2-4) D(5) by (auto simp: count_ok_def word_less_nat_alt)
      then show ?thesis using D(6) joined(2) k(2) by simp
    qed
    then show ?thesis unfolding joined(1) by - (rule conjI; (rule ds | rule ph); use joined in simp_all)
  qed
qed

lemma inv_destroy:
  assumes "destroy_step locked s t" "mutex_ok locked s" "data_ok N s xs" "phase_ok locked n s xs"
  shows "data_ok N t xs \<and> phase_ok locked n t xs"
proof -
  note D = phase_okD [OF assms(4)]
  show ?thesis using assms(1)
  proof cases
    case (destroy P)
    have "data_ok N t xs" unfolding destroy(1) by (rule data_same [OF assms(3)]) (use destroy in simp_all)
    moreover have "phase_ok locked n t xs"
    proof (rule phase_okI)
      show "thread_ok locked (running t) xs (main t) pc" if "pc \<in> set (threads t)" for pc
        using D(1) [of pc] that destroy by (auto simp: thread_ok_def)
      show "count_ok n t" using D(5) destroy by (auto simp: count_ok_def)
    qed (use destroy in simp_all)
    ultimately show ?thesis by blast
  next
    case shutdown
    then show ?thesis by (rule inv_shutdown [OF _ assms(2-4)])
  next
    case (free_all P b q h)
    note rep = data_queue [OF assms(3) free_all(3)]
    obtain h0 z where z: "h = qwith_more h0 z" "brk h0 = brk (qh s)" "qfree_all (\<lambda>f d z. Some (z @ [(f, d)])) xs (freed s) = Some z"
      using job_queue.queue_destroy_spec [OF rep] free_all(4) by fastforce
    note I = data_okD [OF assms(3)]
    have fr: "freed t = freed s" if "xs = []" using z(3) that by (simp add: free_all(1) z(1))
    have at: "job_at t = job_at s" by (simp add: job_at_def fun_eq_iff free_all(1))
    have "jobs_ok t xs"
      by (rule jobs_ok_sub [OF I(1)]) (simp_all add: free_all(1,2) in_pool_def z(1,2))
    moreover have "log_ok t xs" using I(2) fr free_all(3) unfolding log_ok_def at by (auto simp: free_all(1))
    moreover have "queue_ok t xs" by (simp add: queue_ok_def free_all(1))
    moreover have "room_ok N t" using I(4) by (simp add: room_ok_def free_all(1,2))
    moreover have "phase_ok locked n t xs"
    proof (rule phase_okI)
      have "\<not> running s" using D(2) free_all(2) by simp
      then show "thread_ok locked (running t) xs (main t) pc" if "pc \<in> set (threads t)" for pc
        using D(1) [of pc] that free_all(1,2) by (auto simp: thread_ok_def)
      show "count_ok n t" using D(5) by (simp add: count_ok_def free_all(1))
      show "main_ok n (threads t) (main t)" using D(6) by (simp add: free_all(1,2))
    qed (simp_all add: free_all(1))
    ultimately show ?thesis unfolding data_ok_def by blast
  qed
qed

section \<open>Reachable states\<close>

lemma inv_step:
  assumes "pool_step locked s t" "pool_inv locked n N s" "N < 2 ^ 32"
  shows "pool_inv locked n N t"
proof -
  obtain xs where I: "mutex_ok locked s" "data_ok N s xs" "phase_ok locked n s xs"
    using assms(2) unfolding pool_inv_def by blast
  have "\<exists>xs. data_ok N t xs \<and> phase_ok locked n t xs" using assms(1)
  proof cases
    case 1
    then show ?thesis using inv_create [OF 1 I(2)] phase_create [OF 1 I(3)] by blast
  next
    case 2
    then show ?thesis by (rule inv_add [OF _ I(2,3) assms(3)])
  next
    case (3 i)
    then show ?thesis by (rule inv_work [OF _ I])
  next
    case 4
    then show ?thesis using inv_destroy [OF _ I] by blast
  qed
  then show ?thesis using mutex_step [OF assms(1) I(1)] unfolding pool_inv_def by blast
qed

lemma inv_spurious:
  assumes "spurious_step i s t" "pool_inv locked n N s"
  shows "pool_inv locked n N t"
proof -
  obtain xs where I: "mutex_ok locked s" "data_ok N s xs" "phase_ok locked n s xs"
    using assms(2) unfolding pool_inv_def by blast
  from assms(1) have s: "t = set_pc i W_Woken s" "worker_at i W_Asleep s" by (simp_all add: spurious_step_iff)
  have "data_ok N t xs" unfolding s(1) by (rule data_pc(1) [OF I(2) s(2)]) simp_all
  moreover have "phase_ok locked n t xs" unfolding s(1)
    by (rule phase_pc [OF I(3) s(2)]) (simp_all add: thread_ok_def set_pc_def)
  ultimately show ?thesis using mutex_spurious [OF assms(1) I(1)] unfolding pool_inv_def by blast
qed

lemma reach_inv:
  assumes "reach locked n js s" "length js < 2 ^ 32"
  shows "pool_inv locked n (length js) s"
  using assms(1)
proof induction
  case (init h0 s h)
  from tpool_create_state [OF init(3,1)] obtain arr q where
    s: "s = \<lparr>tpool = Some \<lparr>p_thread_arr = arr, p_job_queue = q, thread_count = n, b_run = True\<rparr>,
     owner = None, threads = [], main = C_Threads 0, todo = js, qh = h, jobs = Map.empty, ran = [], added = [], taken = []\<rparr>"
    and h: "qrep h q []" "queue_heap.more h = []" using init(2) by auto
  have "mutex_ok locked s" "data_ok (length js) s []" "phase_ok locked n s []"
    using h by (simp_all add: s mutex_ok_def data_ok_def jobs_ok_def log_ok_def queue_ok_def room_ok_def in_pool_def
        phase_ok_def count_ok_def)
  then show ?case unfolding pool_inv_def by blast
next
  case (step s t)
  show ?case by (rule inv_step [OF step(2,3) assms(2)])
next
  case (wakeup s i t)
  show ?case by (rule inv_spurious [OF wakeup(2,3)])
qed

end
