(* ===== verification/TPoolProps.thy ===== *)
theory TPoolProps
  imports TPoolSpec
begin

text \<open>The properties of the thread pool.\<close>

section \<open>Progress and termination\<close>

fun worker_weight :: "wpc \<Rightarrow> nat" where
  "worker_weight W_Lock = 5" | "worker_weight W_Woken = 5" | "worker_weight W_While = 4" | "worker_weight W_Sleep = 3"
| "worker_weight W_Asleep = 0" | "worker_weight W_If = 3" | "worker_weight W_Exit = 1" | "worker_weight W_Take = 2"
| "worker_weight (W_Unlock p) = 9" | "worker_weight (W_Run p) = 8" | "worker_weight (W_Free p) = 7" | "worker_weight W_Done = 0"

text \<open>A broadcast wakes at most \<open>n\<close> workers, each of which can take five steps before it sleeps again.\<close>

fun main_weight :: "nat \<Rightarrow> mpc \<Rightarrow> nat" where
  "main_weight n (C_Threads k) = (n - unat k) * 6 + (6 * n + 12)"
| "main_weight n M_Next = 6 * n + 11"
| "main_weight n (A_Lock p) = (6 * n + 11) + (5 * n + 14)"
| "main_weight n (A_Enqueue p) = (6 * n + 11) + (5 * n + 13)"
| "main_weight n A_Unlock = (6 * n + 11) + (5 * n + 2)"
| "main_weight n A_Broadcast = (6 * n + 11) + (5 * n + 1)"
| "main_weight n D_Lock = 6 * n + 10"
| "main_weight n D_Broadcast = 6 * n + 9"
| "main_weight n D_Unlock = n + 7"
| "main_weight n (D_Join k) = n - unat k + 5"
| "main_weight n D_Free = 2"
| "main_weight n M_Done = 0"

definition pool_measure :: "32 word \<Rightarrow> pool \<Rightarrow> nat" where
  "pool_measure n s = main_weight (unat n) (main s) + length (todo s) * (5 * unat n + 16)
     + sum_list (map worker_weight (threads s)) + 10 * (length (added s) - length (taken s))"

lemma weight_upd: "i < length ws \<Longrightarrow> sum_list (map worker_weight (ws[i := pc])) + worker_weight (ws ! i)
    = sum_list (map worker_weight ws) + worker_weight pc"
  by (induction ws arbitrary: i) (auto split: nat.splits)

lemma weight_wake: "sum_list (map worker_weight (map wake ws)) \<le> sum_list (map worker_weight ws) + 5 * length ws"
  by (induction ws) (auto simp: wake_def)

lemma measure_pc:
  assumes "worker_at i old s" "worker_weight pc < worker_weight old" "threads t = (threads s)[i := pc]"
    "main t = main s" "todo t = todo s" "added t = added s" "taken t = taken s"
  shows "pool_measure n t < pool_measure n s"
  using weight_upd [of i "threads s" pc] assms by (simp add: pool_measure_def worker_at_def)

lemma measure_execute: "execute_step i s t \<Longrightarrow> pool_measure n t < pool_measure n s"
proof (induction rule: execute_step.induct)
  case (no_run p s) then show ?case by (intro measure_pc [OF no_run(1), of W_Lock]) (simp_all add: set_pc_def)
next
  case (run p s j) then show ?case by (intro measure_pc [OF run(1), of "W_Free p"]) (simp_all add: set_pc_def)
next
  case (free p s j h) then show ?case by (intro measure_pc [OF free(1), of W_Lock]) (simp_all add: set_pc_def)
qed

lemma measure_work:
  assumes "work_step i s t" "data_ok N s xs" "phase_ok locked n s xs"
  shows "pool_measure n t < pool_measure n s"
  using assms(1)
proof cases
  case (lock P) then show ?thesis by (intro measure_pc [OF lock(2), of W_While]) (simp_all add: set_pc_def)
next
  case (loop P e) then show ?thesis by (intro measure_pc [OF loop(2), of W_Sleep]) (simp_all add: set_pc_def)
next
  case (loop_end P e) then show ?thesis by (intro measure_pc [OF loop_end(2), of W_If]) (simp_all add: set_pc_def)
next
  case (sleep P) then show ?thesis by (intro measure_pc [OF sleep(2), of W_Asleep]) (simp_all add: set_pc_def)
next
  case (woken P) then show ?thesis by (intro measure_pc [OF woken(2), of W_While]) (simp_all add: set_pc_def)
next
  case (stop P e) then show ?thesis by (intro measure_pc [OF stop(2), of W_Exit]) (simp_all add: set_pc_def)
next
  case (go_on P e) then show ?thesis by (intro measure_pc [OF go_on(2), of W_Take]) (simp_all add: set_pc_def)
next
  case (exit P) then show ?thesis by (intro measure_pc [OF exit(2), of W_Done]) (simp_all add: set_pc_def)
next
  case (dequeue P p h)
  obtain x ys where xs: "xs = x # ys" using phase_thread [OF assms(3) dequeue(2)] by (cases xs) (auto simp: thread_ok_def)
  have "p \<in># in_pool s xs" using data_dequeue(1) [OF assms(2) [unfolded xs] dequeue(2-4)] xs by (simp add: in_pool_def)
  then obtain j where "jobs s p = Some j" using jobs_okD(2) [OF data_okD(1) [OF assms(2)]] by blast
  moreover have "length (taken s) < length (added s)"
    using data_okD(2) [OF assms(2)] xs unfolding log_ok_def by simp
  ultimately show ?thesis using weight_upd [of i "threads s" "W_Unlock p"] dequeue(2) unfolding dequeue(1)
    by (simp add: pool_measure_def set_pc_def worker_at_def)
next
  case (unlock p P) then show ?thesis by (intro measure_pc [OF unlock(2), of "W_Run p"]) (simp_all add: set_pc_def)
next
  case execute then show ?thesis by (rule measure_execute)
qed

lemma measure_create:
  assumes "create_step s t" "phase_ok locked n s xs"
  shows "pool_measure n t < pool_measure n s"
  using assms
proof (induction rule: create_step.induct)
  case (create s iter P)
  have "thread_count P = n" using phase_okD(5) [OF create.prems] create.hyps by (auto simp: count_ok_def)
  then have "unat (iter + 1) = Suc (unat iter)" "Suc (unat iter) \<le> unat n"
    using unat_next [of iter n] create.hyps(3) by simp_all
  then have "(unat n - unat iter) * 6 = (unat n - unat (iter + 1)) * 6 + 6" by simp
  then show ?case using create.hyps(1) by (simp add: pool_measure_def)
qed (simp_all add: pool_measure_def)

lemma measure_add:
  assumes "add_step s t" "data_ok N s xs" "phase_ok locked n s xs"
  shows "pool_measure n t < pool_measure n s"
  using assms(1)
proof cases
  case (enqueue p P j ok h)
  have "length (taken s) \<le> length (added s)" using data_okD(2) [OF assms(2)] unfolding log_ok_def by simp
  then show ?thesis using enqueue(2) unfolding enqueue(1) by (simp add: pool_measure_def Suc_diff_le)
next
  case (add_broadcast P)
  have "length (threads s) \<le> unat n" using phase_okD(5) [OF assms(3)] by (simp add: count_ok_def)
  then show ?thesis using weight_wake [of "threads s"] add_broadcast(2) unfolding add_broadcast(1)
    by (simp add: pool_measure_def broadcast_def)
qed (simp_all add: pool_measure_def)

lemma measure_shutdown:
  assumes "shutdown_step locked s t" "phase_ok locked n s xs"
  shows "pool_measure n t < pool_measure n s"
  using assms(1)
proof cases
  case (down_broadcast P)
  have "length (threads s) \<le> unat n" using phase_okD(5) [OF assms(2)] by (simp add: count_ok_def)
  then show ?thesis using weight_wake [of "threads s"] down_broadcast(2) unfolding down_broadcast(1)
    by (simp add: pool_measure_def broadcast_def)
next
  case (join iter P)
  have "unat (thread_count P) \<le> unat n" using phase_okD(5) [OF assms(2)] join(2,3) by (auto simp: count_ok_def)
  moreover have "unat (iter + 1) = Suc (unat iter)" "Suc (unat iter) \<le> unat (thread_count P)"
    using unat_next [OF join(4)] by simp_all
  ultimately show ?thesis using join(2) unfolding join(1) by (simp add: pool_measure_def)
qed (simp_all add: pool_measure_def)

lemma measure_step:
  assumes "pool_step locked s t" "pool_inv locked n N s"
  shows "pool_measure n t < pool_measure n s"
proof -
  obtain xs where I: "data_ok N s xs" "phase_ok locked n s xs" using assms(2) unfolding pool_inv_def by blast
  show ?thesis using assms(1)
  proof cases
    case 1 then show ?thesis using measure_create I(2) by blast
  next
    case 2 then show ?thesis using measure_add I by blast
  next
    case 3 then show ?thesis using measure_work I by blast
  next
    case 4
    then show ?thesis
    proof cases
      case shutdown then show ?thesis using measure_shutdown I(2) by blast
    qed (simp_all add: pool_measure_def)
  qed
qed

lemma worker_progress:
  assumes "mutex_ok locked s" "data_ok N s xs" "phase_ok locked n s xs" "i < length (threads s)"
    and "owner s = None \<or> owner s = Some (Worker i)" "main s \<noteq> M_Done"
    and "threads s ! i \<noteq> W_Done" "threads s ! i \<noteq> W_Asleep"
  shows "\<exists>t. work_step i s t"
proof -
  obtain P where P: "tpool s = Some P" using phase_okD(4) [OF assms(3)] assms(6) by auto
  note em = queue_empty [OF assms(2) P] and jb = in_pool_jobs [OF data_okD(1) [OF assms(2)]]
  have free: "owner s = None" if "\<not> holds (threads s ! i)"
    using assms(1,4,5) that unfolding mutex_ok_def by auto
  have w: "worker_at i (threads s ! i) s" using assms(4) by (simp add: worker_at_def)
  have job: "\<exists>j. jobs s p = Some j \<and> p \<noteq> NULL" if "p \<in># hand (threads s ! i)" for p
    using jb worker_hand [OF w that] by blast
  show ?thesis
  proof (cases "threads s ! i")
    case W_Lock then show ?thesis using w P free by (fastforce intro: work_step.lock)
  next
    case W_While then show ?thesis using w P em by (metis work_step.loop work_step.loop_end)
  next
    case W_Sleep then show ?thesis using w P by (fastforce intro: work_step.sleep)
  next
    case W_Woken then show ?thesis using w P free by (fastforce intro: work_step.woken)
  next
    case W_If then show ?thesis using w P em by (metis work_step.stop work_step.go_on)
  next
    case W_Exit then show ?thesis using w P by (fastforce intro: work_step.exit)
  next
    case W_Take
    obtain p h where "queue_dequeue (p_job_queue P) (qh s) = Some (p, h)"
      using queue_dequeue_spec [OF data_queue [OF assms(2) P]] by blast
    then show ?thesis using w W_Take P by (fastforce intro: work_step.dequeue)
  next
    case (W_Unlock p) then show ?thesis using w P by (fastforce intro: work_step.unlock)
  next
    case (W_Run p)
    then show ?thesis using w job [of p] by (fastforce intro: work_step.execute execute_step.run)
  next
    case (W_Free p)
    then obtain j where "jobs s p = Some j" using job [of p] by auto
    moreover obtain h where "(if job_free j \<noteq> NULL then log_free (job_free j) (p_args j) (qh s) else Some (qh s)) = Some h"
      by (cases "job_free j = NULL") (auto simp: log_free_def)
    ultimately show ?thesis using w W_Free by (fastforce intro: work_step.execute execute_step.free)
  qed (use assms in simp_all)
qed

text \<open>Outside the joins the main thread can step when the mutex is free or its own.\<close>

lemma main_progress:
  assumes "mutex_ok locked s" "data_ok N s xs" "phase_ok locked n s xs" "N < 2 ^ 32" "main s \<noteq> M_Done"
    and "owner s = None \<or> owner s = Some Main" "\<nexists>k. main s = D_Join k"
  shows "\<exists>t. pool_step locked s t"
proof -
  obtain P where P: "tpool s = Some P" using phase_okD(4) [OF assms(3)] assms(5) by auto
  note rep = data_queue [OF assms(2) P]
  have free: "owner s = None" if "\<not> main_holds locked (main s)" using assms(1,6) that unfolding mutex_ok_def by blast
  have "(\<exists>t. create_step s t) \<or> (\<exists>t. add_step s t) \<or> (\<exists>t. destroy_step locked s t)"
  proof (cases "main s")
    case (C_Threads k) then show ?thesis using P by (metis create_step.create create_step.created)
  next
    case M_Next
    show ?thesis
    proof (cases "todo s")
      case Nil then show ?thesis using M_Next P by (metis destroy_step.destroy)
    next
      case (Cons j js)
      obtain p h where "calloc 24 (qh s) = (p, h)" by fastforce
      then show ?thesis using M_Next Cons by (metis add_step.no_job add_step.alloc add_step.alloc_fails)
    qed
  next
    case (A_Lock p)
    then have "owner s = None" using free by simp
    then show ?thesis using A_Lock P by (metis add_step.add_lock)
  next
    case (A_Enqueue p)
    then have "p \<in># in_pool s xs" by (simp add: in_pool_def)
    then obtain j where j: "jobs s p = Some j" "p \<noteq> NULL" using in_pool_jobs [OF data_okD(1) [OF assms(2)]] by blast
    have "length xs \<le> length (added s)" "length (added s) + 1 \<le> N"
      using data_okD(2,4) [OF assms(2)] A_Enqueue unfolding log_ok_def room_ok_def by simp_all
    then have "Suc (length xs) < 2 ^ 32" using assms(4) by simp
    then obtain b h where "queue_enqueue (p_job_queue P) p (job_free j) (qh s) = Some (b, h)"
      using queue_enqueue_spec [OF rep j(2)] by blast
    then show ?thesis using A_Enqueue P j by (metis add_step.enqueue)
  next
    case A_Unlock then show ?thesis using P by (metis add_step.add_unlock)
  next
    case A_Broadcast then show ?thesis using P by (metis add_step.add_broadcast)
  next
    case D_Lock
    then have "owner s = None" using free by simp
    then show ?thesis using D_Lock P by (metis destroy_step.shutdown shutdown_step.down_lock shutdown_step.down_no_lock)
  next
    case D_Broadcast then show ?thesis using P by (metis destroy_step.shutdown shutdown_step.down_broadcast)
  next
    case D_Unlock then show ?thesis using P by (metis destroy_step.shutdown shutdown_step.down_unlock shutdown_step.down_no_unlock)
  next
    case D_Free
    obtain b q h where "queue_destroy log_free (p_job_queue P) (qh s) = Some (b, q, h)"
    proof -
      have "\<exists>z. qfree_all (\<lambda>f d z. Some (z @ [(f, d)])) ys z0 = Some z" for ys and z0 :: log
        by (induction ys arbitrary: z0) auto
      then show ?thesis using job_queue.queue_destroy_spec [OF rep] that by fastforce
    qed
    then show ?thesis using D_Free P by (metis destroy_step.free_all)
  qed (use assms(5,7) in auto)
  then show ?thesis using pool_step.intros(1,2,4) by blast
qed

lemma locked_progress:
  assumes "pool_inv True n N s" "N < 2 ^ 32" "main s \<noteq> M_Done"
  shows "\<exists>t. pool_step True s t"
proof -
  obtain xs where I: "mutex_ok True s" "data_ok N s xs" "phase_ok True n s xs" using assms(1) unfolding pool_inv_def by blast
  have work: "\<exists>t. pool_step True s t" if "\<exists>t. work_step i s t" for i using that pool_step.intros(3) by blast
  show ?thesis
  proof (cases "owner s")
    case (Some x)
    show ?thesis
    proof (cases x)
      case Main
      then have "\<nexists>k. main s = D_Join k" using I(1) Some unfolding mutex_ok_def by auto
      then show ?thesis using main_progress [OF I assms(2,3)] Some Main by blast
    next
      case (Worker i)
      then have i: "i < length (threads s)" "holds (threads s ! i)" using I(1) Some unfolding mutex_ok_def by auto
      then have "threads s ! i \<noteq> W_Done" "threads s ! i \<noteq> W_Asleep" by auto
      then show ?thesis using worker_progress [OF I i(1) _ assms(3)] Some Worker work by blast
    qed
  next
    case None
    show ?thesis
    proof (cases "\<exists>k. main s = D_Join k")
      case False
      then show ?thesis using main_progress [OF I assms(2,3)] None by blast
    next
      case True
      then obtain k where k: "main s = D_Join k" by blast
      obtain P where P: "tpool s = Some P" using phase_okD(4) [OF I(3)] assms(3) by auto
      have len: "unat (thread_count P) = length (threads s)" using phase_okD(5) [OF I(3)] k P by (simp add: count_ok_def)
      show ?thesis
      proof (cases "k < thread_count P")
        case False
        then show ?thesis using k P by (blast intro: pool_step.intros(4) destroy_step.shutdown shutdown_step.joined)
      next
        case True
        let ?i = "unat k"
        have i: "?i < length (threads s)" using True len by (simp add: word_less_nat_alt)
        show ?thesis
        proof (cases "threads s ! ?i = W_Done")
          case True
          then have "worker_at ?i W_Done s" using i by (simp add: worker_at_def)
          then show ?thesis using k P \<open>k < thread_count P\<close>
            by (blast intro: pool_step.intros(4) destroy_step.shutdown shutdown_step.join)
        next
          case False
          have "threads s ! ?i \<noteq> W_Asleep" using phase_okD(1) [OF I(3) nth_mem [OF i]] k by (simp add: thread_ok_def)
          then show ?thesis using worker_progress [OF I i _ assms(3) False] None work by blast
        qed
      qed
    qed
  qed
qed

lemma hands_done: "\<forall>pc \<in> set ws. pc = W_Done \<Longrightarrow> f W_Done = {#} \<Longrightarrow> hands f ws = {#}"
  by (induction ws) auto

lemma locked_completes:
  "pool_inv True n N s \<Longrightarrow> N < 2 ^ 32 \<Longrightarrow> \<exists>t. (pool_step True)\<^sup>*\<^sup>* s t \<and> main t = M_Done"
proof (induction "pool_measure n s" arbitrary: s rule: less_induct)
  case less
  show ?case
  proof (cases "main s = M_Done")
    case False
    then obtain t where t: "pool_step True s t" using locked_progress [OF less.prems] by blast
    have "\<exists>u. (pool_step True)\<^sup>*\<^sup>* t u \<and> main u = M_Done"
      by (rule less.hyps [OF measure_step [OF t less.prems(1)] inv_step [OF t less.prems] less.prems(2)])
    then show ?thesis using t by (meson converse_rtranclp_into_rtranclp)
  qed blast
qed

lemma steps_bounded:
  "pool_inv locked n N s \<Longrightarrow> N < 2 ^ 32 \<Longrightarrow> (pool_step locked ^^ k) s t \<Longrightarrow> k \<le> pool_measure n s"
proof (induction k arbitrary: s)
  case (Suc k)
  obtain u where u: "pool_step locked s u" "(pool_step locked ^^ k) u t" using relpowp_Suc_D2 [OF Suc.prems(3)] by blast
  have "k \<le> pool_measure n u" by (rule Suc.IH [OF inv_step [OF u(1) Suc.prems(1,2)] Suc.prems(2) u(2)])
  then show ?case using measure_step [OF u(1) Suc.prems(1)] by simp
qed simp

lemma reach_steps: "(pool_step locked)\<^sup>*\<^sup>* s t \<Longrightarrow> reach locked n js s \<Longrightarrow> reach locked n js t"
  by (induction rule: rtranclp_induct) (auto intro: reach.step)

lemma steps_grow:
  assumes "(pool_step locked)\<^sup>*\<^sup>* s t"
  shows "length (threads s) \<le> length (threads t) \<and> set (added s) \<subseteq> set (added t)"
  using assms
proof induction
  case (step t u)
  have "length (threads t) \<le> length (threads u) \<and> set (added t) \<subseteq> set (added u)"
    using step(2)
    by (auto elim!: step_elims simp: set_pc_def broadcast_def)
  then show ?case using step.IH by auto
qed simp

section \<open>An example\<close>

text \<open>A pool with one worker and an empty queue, in the states of the examples.\<close>

definition ex_job :: tpool_job_t where "ex_job = \<lparr>job_f = 70, p_args = 80, job_free = 90\<rparr>"

definition ex_pool :: "ptr \<Rightarrow> ptr \<Rightarrow> job_heap \<Rightarrow> tpool_job_t list \<Rightarrow> bool \<Rightarrow> tid option \<Rightarrow> wpc list \<Rightarrow> mpc \<Rightarrow> pool" where
  "ex_pool arr q h js r x ws m = \<lparr>tpool = Some \<lparr>p_thread_arr = arr, p_job_queue = q, thread_count = 1, b_run = r\<rparr>,
     owner = x, threads = ws, main = m, todo = js, qh = h, jobs = Map.empty, ran = [], added = [], taken = []\<rparr>"

lemma ex_reach: "\<exists>arr q h. qrep h q [] \<and> (\<forall>k. \<not> oom h k) \<and> reach locked 1 js (ex_pool arr q h js True None [W_Lock] M_Next)"
proof -
  let ?h0 = "\<lparr>brk = 8, allocs = 0, oom = (\<lambda>_. False), qnodes = Map.empty, queues = Map.empty, \<dots> = []\<rparr> :: job_heap"
  have ok: "qheap_ok ?h0" by (simp add: qheap_ok_def)
  obtain s h where s: "tpool_create 1 js ?h0 = Some (Some s, h)" "(\<forall>k. \<not> oom h k)"
    by (simp add: tpool_create_def queue_create_def calloc_queue_def calloc_def Let_def heap_defs)
  from tpool_create_state [OF s(1) ok] obtain arr q where q: "s = ex_pool arr q h js True None [] (C_Threads 0)" "qrep h q []"
    unfolding ex_pool_def by blast
  have "reach locked 1 js s" by (rule reach.init [OF ok _ s(1)]) simp
  then have 1: "reach locked 1 js (ex_pool arr q h js True None [W_Lock] (C_Threads 1))"
    unfolding q(1) by (rule reach.step) (use create_step.create [of "ex_pool arr q h js True None [] (C_Threads 0)" 0]
      in \<open>simp add: ex_pool_def pool_step.intros(1)\<close>)
  have "reach locked 1 js (ex_pool arr q h js True None [W_Lock] M_Next)"
    by (rule reach.step [OF 1]) (use create_step.created [of "ex_pool arr q h js True None [W_Lock] (C_Threads 1)" 1]
      in \<open>simp add: ex_pool_def pool_step.intros(1)\<close>)
  then show ?thesis using q(2) s(2) by blast
qed

lemma ex_added: "\<exists>s. reach locked 1 [ex_job] s \<and> threads s = [W_Lock] \<and> added s = [ex_job] \<and> main s = A_Unlock"
proof -
  obtain arr q h where r: "qrep h q []" "(\<forall>k. \<not> oom h k)" "reach locked 1 [ex_job] (ex_pool arr q h [ex_job] True None [W_Lock] M_Next)"
    using ex_reach by blast
  let ?s = "ex_pool arr q h [ex_job] True None [W_Lock] M_Next"
  obtain p h1 where p: "calloc 24 h = (p, h1)" "p \<noteq> NULL" "(\<forall>k. \<not> oom h1 k)" 
    using r(2) qrep_facts(3) [OF r(1)] by (simp add: calloc_def) 
  let ?s1 = "?s\<lparr>todo := [], qh := h1, jobs := [p \<mapsto> ex_job], main := A_Lock p\<rparr>"
  have "add_step ?s ?s1" using add_step.alloc [of ?s ex_job "[]" p h1] p by (simp add: ex_pool_def ex_job_def)
  then have 1: "reach locked 1 [ex_job] ?s1" using r(3) reach.step pool_step.intros(2) by blast
  let ?s2 = "?s1\<lparr>owner := Some Main, main := A_Enqueue p\<rparr>"
  have "add_step ?s1 ?s2" using add_step.add_lock [of ?s1 p] by (simp add: ex_pool_def)
  then have 2: "reach locked 1 [ex_job] ?s2" using 1 reach.step pool_step.intros(2) by blast
  obtain N xs where "data_ok N ?s2 xs" using reach_inv [OF 2] unfolding pool_inv_def by auto
  then have xs: "qrep h1 q xs" "xs = []" unfolding data_ok_def queue_ok_def log_ok_def by (auto simp: ex_pool_def)
  obtain h2 where h2: "queue_enqueue q p (job_free ex_job) h1 = Some (True, h2)"
    using queue_enqueue_spec [OF xs(1) p(2)] xs(2) p(3) by auto
  let ?s3 = "?s2\<lparr>qh := h2, added := [ex_job], main := A_Unlock\<rparr>"
  have "add_step ?s2 ?s3" using add_step.enqueue [of ?s2 p _ ex_job True h2] h2 by (simp add: ex_pool_def)
  then have "reach locked 1 [ex_job] ?s3" using 2 reach.step pool_step.intros(2) by blast
  then show ?thesis by (intro exI [of _ ?s3]) (simp add: ex_pool_def)
qed

section \<open>Properties\<close>

text \<open>C7: Mutual exclusion: in every reachable state of either pool, at most one thread is between a
  lock and an unlock of the mutex (two workers there are the same worker, and none is there
  while the thread that uses the pool is), spurious wake-ups included.\<close>

theorem pool_mutual_exclusion:
  assumes "reach locked n js s" "i < length (threads s)" "holds (threads s ! i)"
  shows "\<not> main_holds locked (main s) \<and> (\<forall>k < length (threads s). holds (threads s ! k) \<longrightarrow> k = i)"
proof -
  have m: "mutex_ok locked s" by (rule reach_mutex [OF assms(1)])
  then have "owner s = Some (Worker i)" using assms(2,3) unfolding mutex_ok_def by blast
  then show ?thesis using m unfolding mutex_ok_def by (metis option.inject tid.distinct(1) tid.inject)
qed

text \<open>C8: Every job is run at most once and none is lost: in every reachable state the jobs that
  entered the queue are those that workers took from it, in that order, followed by those the
  queue holds; the taken ones are those that were run and those in the hand of a worker that has
  yet to run them; and all these jobs are allocated and held once.\<close>

theorem pool_jobs_exactly_once:
  assumes "reach locked n js s" "length js < 2 ^ 32"
  shows "\<exists>xs. (\<forall>P. tpool s = Some P \<longrightarrow> qrep (qh s) (p_job_queue P) xs)
     \<and> added s = taken s @ map (job_at s \<circ> fst) xs
     \<and> mset (map run_of (taken s)) = mset (pool.ran s) + image_mset (run_of \<circ> job_at s) (hands unrun (threads s))
     \<and> (\<forall>p. count (mset (map fst xs) + hands hand (threads s)) p \<le> 1)"
proof -
  obtain xs where I: "data_ok (length js) s xs" using reach_inv [OF assms] unfolding pool_inv_def by blast
  have "count (mset (map fst xs) + hands hand (threads s)) p \<le> 1" for p
    using jobs_okD(1) [OF data_okD(1) [OF I], of p] by (simp add: in_pool_def)
  then show ?thesis using I unfolding data_ok_def log_ok_def queue_ok_def by (intro exI [of _ xs]) (simp add: comp_def)
qed

text \<open>C6: When \<open>tpool_destroy\<close> of a pool with a thread has returned, all workers have ended, the pool is
  freed, every job that entered the queue has been run exactly once and the free function of its
  arguments, when it has one, has been called once on them.\<close>

theorem pool_destroy_runs_all:
  assumes "reach locked n js s" "length js < 2 ^ 32" "main s = M_Done" "threads s \<noteq> []"
  shows "(\<forall>pc \<in> set (threads s). pc = W_Done) \<and> tpool s = None \<and> mset (pool.ran s) = mset (map run_of (added s))
     \<and> mset (freed s) = frees_of (mset (added s))"
proof -
  obtain xs where I: "data_ok (length js) s xs" "phase_ok locked n s xs"
    using reach_inv [OF assms(1,2)] unfolding pool_inv_def by blast
  have all: "\<forall>pc \<in> set (threads s). pc = W_Done" "tpool s = None" using phase_okD(4,6) [OF I(2)] assms(3) by simp_all
  then have "xs = []" using phase_okD(1) [OF I(2), of "hd (threads s)"] assms(4) by (auto simp: thread_ok_def)
  moreover note hands_done [OF all(1), of hand] hands_done [OF all(1), of unrun]
  ultimately show ?thesis using all data_okD(2) [OF I(1)] unfolding log_ok_def by simp
qed

text \<open>C5: The pool of module_1 always shuts down: from every reachable state each run without
  spurious wake-ups has at most \<open>pool_measure n s\<close> steps, and a state in which no step is possible is
  one where \<open>tpool_destroy\<close> has returned.\<close>

theorem module1_pool_completes:
  assumes "reach True n js s" "length js < 2 ^ 32"
  shows "(\<forall>k t. (pool_step True ^^ k) s t \<longrightarrow> k \<le> pool_measure n s)
     \<and> (\<exists>t. (pool_step True)\<^sup>*\<^sup>* s t \<and> main t = M_Done) \<and> (main s = M_Done \<or> (\<exists>t. pool_step True s t))"
  using reach_inv [OF assms] assms(2) steps_bounded locked_completes locked_progress by blast

theorem module1_pool_completes_witness:
  "\<exists>s t. reach True 1 [ex_job] s \<and> (pool_step True)\<^sup>*\<^sup>* s t \<and> main t = M_Done"
proof -
  obtain s where s: "reach True 1 [ex_job] s" using ex_added by blast
  from module1_pool_completes [OF this] show ?thesis using s by auto
qed

theorem pool_mutual_exclusion_witness:
  "\<exists>s. reach False 1 [] s \<and> holds (threads s ! 0) \<and> \<not> main_holds False (main s)"
proof -
  obtain arr q h where r: "reach False 1 [] (ex_pool arr q h [] True None [W_Lock] M_Next)" using ex_reach by blast
  let ?s = "ex_pool arr q h [] True (Some (Worker 0)) [W_While] M_Next"
  have "work_step 0 (ex_pool arr q h [] True None [W_Lock] M_Next) ?s"
    using work_step.lock [of 0 "ex_pool arr q h [] True None [W_Lock] M_Next"] by (simp add: ex_pool_def set_pc_def worker_at_def)
  then have s: "reach False 1 [] ?s" using r reach.step pool_step.intros(3) by blast
  have "holds (threads ?s ! 0)" "0 < length (threads ?s)" by (simp_all add: ex_pool_def)
  with pool_mutual_exclusion [OF s this(2,1)] show ?thesis using s by blast
qed

theorem pool_jobs_exactly_once_witness:
  "\<exists>s (xs :: (ptr \<times> fptr) list). reach False 1 [ex_job] s \<and> added s = [ex_job] \<and> added s = taken s @ map (job_at s \<circ> fst) xs"
proof -
  obtain s where s: "reach False 1 [ex_job] s" "added s = [ex_job]" using ex_added by blast
  have "length [ex_job] < 2 ^ 32" by simp
  from pool_jobs_exactly_once [OF s(1) this] show ?thesis using s by blast
qed

theorem pool_destroy_runs_all_witness:
  "\<exists>s. reach True 1 [ex_job] s \<and> main s = M_Done \<and> (70, 80) \<in> set (pool.ran s)"
proof -
  obtain s where s: "reach True 1 [ex_job] s" "threads s = [W_Lock]" "added s = [ex_job]" using ex_added by blast
  obtain t where t: "(pool_step True)\<^sup>*\<^sup>* s t" "main t = M_Done" using locked_completes [OF reach_inv [OF s(1)]] by auto
  have g: "threads t \<noteq> []" "ex_job \<in> set (added t)" using steps_grow [OF t(1)] s(2,3) by auto
  have r: "reach True 1 [ex_job] t" by (rule reach_steps [OF t(1) s(1)])
  have "mset (pool.ran t) = mset (map run_of (added t))" using pool_destroy_runs_all [OF r _ t(2) g(1)] by simp
  then have "run_of ex_job \<in># mset (pool.ran t)" using g(2) by simp
  then show ?thesis using r t(2) by (auto simp: run_of_def ex_job_def)
qed

text \<open>C9: The pool of ChatRoom can lose its shutdown: a worker that has found the queue empty and the
  pool running may go to sleep after the broadcast, which is sent without the mutex. Then the
  worker sleeps, \<open>tpool_destroy\<close> waits for it, and no step is possible.\<close>

theorem chat_pool_deadlock:
  "\<exists>s. reach False 1 [] s \<and> main s = D_Join 0 \<and> threads s = [W_Asleep] \<and> (\<nexists>t. pool_step False s t)"
proof -
  obtain arr q h where r: "qrep h q []" "reach False 1 [] (ex_pool arr q h [] True None [W_Lock] M_Next)" using ex_reach by blast
  let ?p = "ex_pool arr q h []"
  have e: "queue_is_empty q h = Some True" using r(1) queue_is_empty_at unfolding qrep_def by fastforce
  note go = reach.step [of False 1 "[]", rotated]
  have work: "work_step i s t \<Longrightarrow> reach False 1 [] s \<Longrightarrow> reach False 1 [] t" for i s t
    using go [OF pool_step.intros(3)] by blast
  note down = go [OF pool_step.intros(4)]
  have 1: "reach False 1 [] (?p True (Some (Worker 0)) [W_While] M_Next)"
    by (rule work [where i = 0, OF _ r(2)]) (use work_step.lock [of 0 "?p True None [W_Lock] M_Next"] in \<open>simp add: ex_pool_def set_pc_def worker_at_def\<close>)
  have 2: "reach False 1 [] (?p True (Some (Worker 0)) [W_Sleep] M_Next)"
    by (rule work [where i = 0, OF _ 1]) (use work_step.loop [of 0 "?p True (Some (Worker 0)) [W_While] M_Next" _ True] e in \<open>simp add: ex_pool_def set_pc_def worker_at_def\<close>)
  have 3: "reach False 1 [] (?p False (Some (Worker 0)) [W_Sleep] D_Lock)"
    by (rule down [OF _ 2]) (use destroy_step.destroy [of "?p True (Some (Worker 0)) [W_Sleep] M_Next" _ False] in \<open>simp add: ex_pool_def\<close>)
  have 4: "reach False 1 [] (?p False (Some (Worker 0)) [W_Sleep] D_Broadcast)"
    by (rule down [OF destroy_step.shutdown 3]) (use shutdown_step.down_no_lock [of "?p False (Some (Worker 0)) [W_Sleep] D_Lock" False] in \<open>simp add: ex_pool_def\<close>)
  have 5: "reach False 1 [] (?p False (Some (Worker 0)) [W_Sleep] D_Unlock)"
    by (rule down [OF destroy_step.shutdown 4]) (use shutdown_step.down_broadcast [of "?p False (Some (Worker 0)) [W_Sleep] D_Broadcast" _ False] in \<open>simp add: ex_pool_def broadcast_def wake_def\<close>)
  have 6: "reach False 1 [] (?p False (Some (Worker 0)) [W_Sleep] (D_Join 0))"
    by (rule down [OF destroy_step.shutdown 5]) (use shutdown_step.down_no_unlock [of "?p False (Some (Worker 0)) [W_Sleep] D_Unlock" False] in \<open>simp add: ex_pool_def\<close>)
  have 7: "reach False 1 [] (?p False None [W_Asleep] (D_Join 0))"
    by (rule work [where i = 0, OF _ 6]) (use work_step.sleep [of 0 "?p False (Some (Worker 0)) [W_Sleep] (D_Join 0)"] in \<open>simp add: ex_pool_def set_pc_def worker_at_def\<close>)
  have "\<not> pool_step False (?p False None [W_Asleep] (D_Join 0)) t" for t
    by (auto simp: ex_pool_def worker_at_def elim!: step_elims)
  then show ?thesis using 7 by (intro exI [of _ "?p False None [W_Asleep] (D_Join 0)"]) (simp add: ex_pool_def)
qed

end
