(* ===== verification/CSocket.thy ===== *)
theory CSocket
  imports CHeap
begin

text \<open>
  The socket calls of the servers, with the values of the constants on Linux. What the calls
  return is a parameter of the functions that make them.
\<close>

record sockaddr_in =
  sin_family :: int
  sin_port :: "16 word"
  sin_addr :: "32 word"

datatype syscall =
    Socket (call_domain: int) (call_service: int) (call_protocol: int)
  | Setsockopt int
  | Bind int sockaddr_in
  | Listen int "32 word"

definition AF_INET :: int where "AF_INET = 2"
definition SOCK_STREAM :: int where "SOCK_STREAM = 1"

text \<open>Network byte order on a little-endian machine.\<close>

definition htons :: "16 word \<Rightarrow> 16 word" where
  "htons x = of_nat (unat x mod 256 * 256 + unat x div 256)"

end
