(* ===== verification/ChatServer.thy ===== *)
theory ChatServer
  imports ChatRefine TPool CSocket
begin

text \<open>
  The main program of the chat server, ChatRoom/src/server.c: the set-up of the socket and of the
  shared objects, the accept loop, and the shutdown.

  \<open>init_status\<close> is what \<open>pthread_mutex_init\<close> and \<open>pthread_cond_init\<close> return for each object, \<open>inited\<close>
  the objects that are initialised: those whose call returned zero. Destroying any other is
  undefined. The jobs that wait in the pool are a list (TPool shows that the pool takes them in
  this order, each once). One job runs from start to end between two calls of \<open>accept\<close>: jobs do
  not overlap in this model.
\<close>

definition CLIENT_PORT :: "32 word" where "CLIENT_PORT = 5555"
definition BACKLOG :: "32 word" where "BACKLOG = 100"
definition IP :: string where "IP = ''127.0.0.1''"
definition N_FAILURE :: int where "N_FAILURE = -1"
definition HANDLE_CLIENTS :: fptr where "HANDLE_CLIENTS = 5"
definition CONN_DATA_FREE :: fptr where "CONN_DATA_FREE = 6"

text \<open>The bytes of \<open>log.txt\<close>.\<close>

definition LOG_FILE :: "byte list" where
  "LOG_FILE = [108, 111, 103, 46, 116, 120, 116]"

section \<open>The socket\<close>

record server_t =
  domain :: int
  protocol :: int
  service :: int
  port :: "32 word"
  backlog :: "32 word"
  ip :: string
  socket :: int
  addr :: sockaddr_in

text \<open>
  \<open>create_server\<close>, given what \<open>inet_addr\<close>, \<open>socket\<close>, \<open>bind\<close> and \<open>listen\<close> return: the calls made, and the
  server or the status of \<open>exit\<close>.
\<close>

definition create_server :: "(string \<Rightarrow> 32 word) \<Rightarrow> int \<Rightarrow> int \<Rightarrow> int \<Rightarrow> syscall list \<times> (int + server_t)" where
  "create_server inet_addr sock bind_stat listen_stat =
     (let a = \<lparr>sin_family = AF_INET, sin_port = htons (ucast CLIENT_PORT), sin_addr = inet_addr IP\<rparr>;
          server = \<lparr>domain = AF_INET, protocol = 0, service = SOCK_STREAM, port = CLIENT_PORT, backlog = BACKLOG,
            ip = IP, socket = sock, addr = a\<rparr>;
          calls = [Socket AF_INET SOCK_STREAM 0, Setsockopt sock]
      in if sock < 0 then (calls, Inl 1)
         else let calls = calls @ [Bind sock a]
         in if bind_stat < 0 then (calls, Inl 1)
         else let calls = calls @ [Listen sock BACKLOG]
         in if listen_stat < 0 then (calls, Inl 1) else (calls, Inr server))"

text \<open>\<open>sess_comp\<close>: a difference of 64 bits converted to \<open>int\<close>.\<close>

definition sess_comp :: "ptr \<Rightarrow> 64 word \<Rightarrow> chat_state \<Rightarrow> int option" where
  "sess_comp p_client1 session z =
     (if p_client1 = NULL then Some N_FAILURE
      else do { c \<leftarrow> clients z p_client1; Some (sint (ucast (session_id c - session) :: 32 word)) })"

section \<open>The shared objects\<close>

datatype sync = Client_Mutex | Sess_Mutex | Log_Mutex | Cond

record program =
  srv :: server
  inited :: "sync set"
  init_status :: "sync \<Rightarrow> int"

abbreviation pst :: "program \<Rightarrow> chat_state" where "pst e \<equiv> st (srv e)"

definition on_srv :: "(server \<Rightarrow> server option) \<Rightarrow> program \<Rightarrow> program option" where
  "on_srv f e = map_option (\<lambda>h. e\<lparr>srv := h\<rparr>) (f (srv e))"

definition calloc_in :: "nat \<Rightarrow> (ptr \<Rightarrow> chat_state \<Rightarrow> chat_state) \<Rightarrow> server \<Rightarrow> ptr \<times> server" where
  "calloc_in sz new h = (let (p, h) = calloc sz h in if p = NULL then (NULL, h) else (p, hwith_more h (new p (st h))))"

definition sync_init :: "sync \<Rightarrow> program \<Rightarrow> int \<times> program" where
  "sync_init x e = (init_status e x, if init_status e x = 0 then e\<lparr>inited := insert x (inited e)\<rparr> else e)"

definition sync_destroy :: "sync \<Rightarrow> program \<Rightarrow> program option" where
  "sync_destroy x e = (if x \<in> inited e then Some (e\<lparr>inited := inited e - {x}\<rparr>) else None)"

definition free_signals :: "ptr \<Rightarrow> chat_state \<Rightarrow> chat_state option" where
  "free_signals p z = (if p = NULL then Some z else map_option (\<lambda>m. z\<lparr>signals := m\<rparr>) (release p (signals z)))"

definition free_objects :: "ptr \<Rightarrow> chat_state \<Rightarrow> chat_state option" where
  "free_objects p z = (if p = NULL then Some z else map_option (\<lambda>m. z\<lparr>objects := m\<rparr>) (release p (objects z)))"

text \<open>\<open>object_teardown\<close>: the cases of the switch fall through. A broadcast needs an initialised condition.\<close>

definition object_teardown :: "ptr \<Rightarrow> int \<Rightarrow> program \<Rightarrow> program option" where
  "object_teardown p_objects opt e = do {
     e \<leftarrow> (if opt = 7 then sync_destroy Cond e else Some e);
     e \<leftarrow> (if opt \<in> {7, 6} then sync_destroy Log_Mutex e else Some e);
     e \<leftarrow> (if opt \<in> {7, 6, 5} then sync_destroy Sess_Mutex e else Some e);
     e \<leftarrow> (if opt \<in> {7, 6, 5, 4} then sync_destroy Client_Mutex e else Some e);
     e \<leftarrow> (if opt \<in> {7, 6, 5, 4, 1} then do {
         objs \<leftarrow> objects (pst e) p_objects;
         e \<leftarrow> on_srv (on_st (free_signals (o_signals objs))) e;
         on_srv (on_st (upd_objects p_objects (\<lambda>x. x\<lparr>o_signals := NULL\<rparr>))) e
       } else Some e);
     if opt \<in> {7, 6, 5, 4, 1, 2} then on_srv (on_st (free_objects p_objects)) e else Some e
   }"

text \<open>\<open>object_init\<close>. The log file is opened for writing, which empties it, and closed.\<close>

definition object_init :: "int \<Rightarrow> program \<Rightarrow> (ptr \<times> program) option" where
  "object_init max_clients e =
     (if max_clients = 0 then Some (NULL, e)
      else
        let (p_objects, h) = calloc_in 56 (\<lambda>p z. z\<lparr>objects := (objects z)
              (p \<mapsto> \<lparr>o_session_id = 0, o_signals = NULL, o_htable = NULL\<rparr>)\<rparr>) (srv e);
            e = e\<lparr>srv := h\<rparr>
        in if p_objects = NULL then Some (NULL, e)
        else if \<not> can_open (pst e) LOG_FILE then do { e \<leftarrow> object_teardown p_objects 2 e; Some (NULL, e) }
        else do {
          e \<leftarrow> on_srv (on_st (\<lambda>z. Some (z\<lparr>files := (files z)(LOG_FILE \<mapsto> [])\<rparr>))) e;
          e \<leftarrow> on_srv (on_st (upd_objects p_objects (\<lambda>x. x\<lparr>o_session_id := 0, o_htable := NULL\<rparr>))) e;
          let (p_signals, h) = calloc_in 168 (\<lambda>p z. z\<lparr>signals := (signals z)
              (p \<mapsto> \<lparr>client_mutex = False, sess_mutex = False\<rparr>)\<rparr>) (srv e);
              e = e\<lparr>srv := h\<rparr>
          in if p_signals = NULL then do { e \<leftarrow> object_teardown p_objects 2 e; Some (NULL, e) }
          else do {
            e \<leftarrow> on_srv (on_st (upd_objects p_objects (\<lambda>x. x\<lparr>o_signals := p_signals\<rparr>))) e;
            let (success, e) = sync_init Client_Mutex e
            in if 0 > success then do { e \<leftarrow> object_teardown p_objects 1 e; Some (NULL, e) }
            else let (success, e) = sync_init Sess_Mutex e
            in if 0 > success then do { e \<leftarrow> object_teardown p_objects 4 e; Some (NULL, e) }
            else let (success, e) = sync_init Log_Mutex e
            in if 0 > success then do { e \<leftarrow> object_teardown p_objects 5 e; Some (NULL, e) }
            else let (success, e) = sync_init Cond e
            in if 0 > success then do { e \<leftarrow> object_teardown p_objects 6 e; Some (NULL, e) }
            else Some (p_objects, e)
          }
        })"

section \<open>The accept loop\<close>

definition conn_data_free :: "ptr \<Rightarrow> chat_state \<Rightarrow> chat_state option" where
  "conn_data_free p z = (if p = NULL then Some z else map_option (\<lambda>m. z\<lparr>conns := m\<rparr>) (release p (conns z)))"

definition sighandler :: "chat_state \<Rightarrow> chat_state" where
  "sighandler z = z\<lparr>gb_run := False\<rparr>"

text \<open>
  \<open>tpool_add_job\<close> on the waiting jobs: the job and its queue node are allocated, and a failure of the
  second is not noticed (\<open>add_step\<close> of TPool has the details). \<open>pool\<close> is the pool or \<open>NULL\<close>.
\<close>

definition add_job :: "ptr \<Rightarrow> tpool_job_t \<Rightarrow> tpool_job_t list \<Rightarrow> server \<Rightarrow> bool \<times> tpool_job_t list \<times> server" where
  "add_job pool j js h =
     (if pool = NULL \<or> job_f j = NULL then (False, js, h)
      else let (p, h) = calloc 24 h
      in if p = NULL then (False, js, h)
      else let (node, h) = calloc 24 h in (True, if node = NULL then js else js @ [j], h))"

text \<open>\<open>execute_job\<close> of a job of this program.\<close>

definition run_job :: "nat \<Rightarrow> tpool_job_t \<Rightarrow> server \<Rightarrow> server option" where
  "run_job fuel j h =
     (if job_f j = HANDLE_CLIENTS then do {
        h \<leftarrow> handle_clients fuel (p_args j) h;
        if job_free j \<noteq> NULL then
          if job_free j = CONN_DATA_FREE then on_st (conn_data_free (p_args j)) h else None
        else Some h
      } else None)"

fun run_jobs :: "nat \<Rightarrow> tpool_job_t list \<Rightarrow> server \<Rightarrow> server option" where
  "run_jobs fuel [] h = Some h"
| "run_jobs fuel (j # js) h = do { h \<leftarrow> run_job fuel j h; run_jobs fuel js h }"

text \<open>
  What happens while \<open>main\<close> is in its loop: \<open>accept\<close> returns a socket or an error, the pool runs the
  next job, a signal arrives. The address of \<open>client_addr\<close> is the same for every connection.
\<close>

datatype event = Accept int | Work | Signal

definition accept_one :: "ptr \<Rightarrow> ptr \<Rightarrow> ptr \<Rightarrow> int \<Rightarrow> tpool_job_t list \<Rightarrow> server \<Rightarrow> (tpool_job_t list \<times> server) option" where
  "accept_one p_objects p_tpool client_addr client_sock js h =
     (if 0 > client_sock then Some (js, h)
      else
        let (p_conn, h) = calloc_in 24 (\<lambda>p z. z\<lparr>conns := (conns z)
              (p \<mapsto> \<lparr>conn_objects = p_objects, conn_addr = client_addr, conn_fd = client_sock\<rparr>)\<rparr>) h
        in if p_conn = NULL then Some (js, h)
        else
          let (client_job, js, h) = add_job p_tpool
                \<lparr>job_f = HANDLE_CLIENTS, p_args = p_conn, job_free = CONN_DATA_FREE\<rparr> js h
          in if \<not> client_job then do { h \<leftarrow> on_st (conn_data_free p_conn) h; Some (js, h) }
             else Some (js, h))"

text \<open>The loop waits when nothing happens, so it does not return when the events end first.\<close>

fun accept_loop :: "nat \<Rightarrow> ptr \<Rightarrow> ptr \<Rightarrow> ptr \<Rightarrow> event list \<Rightarrow> tpool_job_t list \<Rightarrow> server
    \<Rightarrow> (tpool_job_t list \<times> server) option" where
  "accept_loop fuel p_objects p_tpool client_addr [] js h =
     (if gb_run (st h) then None else Some (js, h))"
| "accept_loop fuel p_objects p_tpool client_addr (ev # evs) js h =
     (if \<not> gb_run (st h) then Some (js, h)
      else case ev of
        Accept client_sock \<Rightarrow> do {
          (js, h) \<leftarrow> accept_one p_objects p_tpool client_addr client_sock js h;
          accept_loop fuel p_objects p_tpool client_addr evs js h
        }
      | Work \<Rightarrow> (case js of
          [] \<Rightarrow> accept_loop fuel p_objects p_tpool client_addr evs js h
        | j # js \<Rightarrow> do {
            h \<leftarrow> run_job fuel j h;
            accept_loop fuel p_objects p_tpool client_addr evs js h
          })
      | Signal \<Rightarrow> do {
          h \<leftarrow> on_st (\<lambda>z. Some (sighandler z)) h;
          accept_loop fuel p_objects p_tpool client_addr evs js h
        })"

text \<open>
  The end of \<open>main\<close>: the table of accounts is destroyed first, then \<open>tpool_destroy\<close> lets the workers
  finish the waiting jobs.
\<close>

definition shut_down :: "nat \<Rightarrow> ptr \<Rightarrow> tpool_job_t list \<Rightarrow> program \<Rightarrow> program option" where
  "shut_down fuel p_objects js e = do {
     objs \<leftarrow> objects (pst e) p_objects;
     (_, t, h) \<leftarrow> htable_destroy call_free (o_htable objs) (srv e);
     h \<leftarrow> on_st (upd_objects p_objects (\<lambda>x. x\<lparr>o_htable := t\<rparr>)) h;
     h \<leftarrow> run_jobs fuel js h;
     object_teardown p_objects 7 (e\<lparr>srv := h\<rparr>)
   }"

text \<open>\<open>main\<close>, given the result of \<open>create_server\<close> and of \<open>tpool_create\<close>: its exit status and the final state.\<close>

definition main_program :: "int + server_t \<Rightarrow> nat \<Rightarrow> ptr \<Rightarrow> ptr \<Rightarrow> event list \<Rightarrow> program \<Rightarrow> (int \<times> program) option" where
  "main_program net fuel p_tpool client_addr evs e = (case net of
     Inl status \<Rightarrow> Some (status, e)
   | Inr server \<Rightarrow> do {
       (p_objects, e) \<leftarrow> object_init (sint (backlog server)) e;
       if p_objects = NULL then Some (0, e)
       else do {
         (js, h) \<leftarrow> accept_loop fuel p_objects p_tpool client_addr evs [] (srv e);
         e \<leftarrow> shut_down fuel p_objects js (e\<lparr>srv := h\<rparr>);
         Some (0, e)
       }
     })"

end
