(* ===== verification/ChatServerSpec.thy ===== *)
theory ChatServerSpec
  imports ChatServer
begin

text \<open>
  What the main program does: the shared objects are set up and torn down completely, and the accept
  loop keeps the invariant that the waiting jobs are the allocated connections.
\<close>

section \<open>Set-up and teardown\<close>

text \<open>No shared object is allocated or initialised.\<close>

definition clean :: "program \<Rightarrow> bool" where
  "clean e \<longleftrightarrow> objects (pst e) = Map.empty \<and> signals (pst e) = Map.empty \<and> inited e = {}"

text \<open>The state after \<open>object_init\<close> has succeeded, with the results \<open>init_status\<close>.\<close>

definition init_state :: "program \<Rightarrow> program" where
  "init_state e = e\<lparr>srv := hwith_more ((srv e)\<lparr>allocs := Suc (Suc (allocs (srv e))), brk := 224 + brk (srv e)\<rparr>)
      ((pst e)\<lparr>files := (files (pst e))(LOG_FILE \<mapsto> []),
         signals := (signals (pst e))(brk (srv e) + 56 \<mapsto> \<lparr>client_mutex = False, sess_mutex = False\<rparr>),
         objects := (objects (pst e))(brk (srv e) \<mapsto>
           \<lparr>o_session_id = 0, o_signals = brk (srv e) + 56, o_htable = NULL\<rparr>)\<rparr>),
     inited := inited e \<union> {x. init_status e x = 0}\<rparr>"

lemma sync_inits:
  "inited e \<union> {x. init_status e x = 0} = (let
     add = (\<lambda>x I. if init_status e x = 0 then insert x I else I)
     in add Cond (add Log_Mutex (add Sess_Mutex (add Client_Mutex (inited e)))))"
proof -
  have "x \<in> inited e \<or> init_status e x = 0 \<longleftrightarrow> x \<in> (let
     add = (\<lambda>x I. if init_status e x = 0 then insert x I else I)
     in add Cond (add Log_Mutex (add Sess_Mutex (add Client_Mutex (inited e)))))" for x
    by (cases x) (simp_all add: Let_def)
  then show ?thesis by blast
qed

lemma object_init_ok:
  assumes "0 < brk (srv e)" "n \<noteq> 0" "\<forall>x. 0 \<le> init_status e x" "can_open (pst e) LOG_FILE"
    and "\<not> oom (srv e) (allocs (srv e))" "\<not> oom (srv e) (Suc (allocs (srv e)))"
  shows "object_init n e = Some (brk (srv e), init_state e)"
proof -
  have "\<not> init_status e x < 0" for x using assms(3) by (simp add: not_less)
  then show ?thesis using assms(1,2,4-6)
    by (simp add: object_init_def init_state_def calloc_in_def calloc_def on_srv_def on_st_def upd_objects_def
      sync_init_def sync_inits Let_def)
qed

lemma object_init_fails:
  assumes "clean e" "0 < brk (srv e)"
    and "n = 0 \<or> \<not> can_open (pst e) LOG_FILE \<or> oom (srv e) (allocs (srv e)) \<or> oom (srv e) (Suc (allocs (srv e)))"
  shows "\<exists>e'. object_init n e = Some (NULL, e') \<and> clean e'"
proof -
  have m: "Map.empty(p := None) = Map.empty" for p :: ptr by simp
  note defs = object_init_def object_teardown_def free_objects_def calloc_in_def calloc_def on_srv_def on_st_def
    upd_objects_def Let_def m
  consider "n = 0" | "n \<noteq> 0" "oom (srv e) (allocs (srv e))"
    | "n \<noteq> 0" "\<not> oom (srv e) (allocs (srv e))" "\<not> can_open (pst e) LOG_FILE"
    | "n \<noteq> 0" "\<not> oom (srv e) (allocs (srv e))" "can_open (pst e) LOG_FILE" "oom (srv e) (Suc (allocs (srv e)))"
    using assms(3) by blast
  then show ?thesis
  proof cases
    case 1
    then show ?thesis using assms(1) by (simp add: defs)
  next
    case 2
    then show ?thesis using assms(1) by (simp add: defs clean_def)
  next
    case 3
    then show ?thesis using assms(1,2) by (simp add: defs clean_def)
  next
    case 4
    then show ?thesis using assms(1,2) by (simp add: defs clean_def)
  qed
qed

text \<open>The teardown of initialised objects.\<close>

lemma object_teardown_all:
  assumes "objects (pst e) = [p \<mapsto> objs]" "signals (pst e) = [o_signals objs \<mapsto> s]" "p \<noteq> NULL" "o_signals objs \<noteq> NULL"
  shows "object_teardown p 7 e = (if inited e = UNIV then Some (e\<lparr>inited := {}, srv := hwith_more (srv e)
      ((pst e)\<lparr>signals := Map.empty, objects := Map.empty\<rparr>)\<rparr>) else None)"
proof -
  have m: "Map.empty(p := None) = Map.empty" for p :: ptr by simp
  have U: "inited e = UNIV \<longleftrightarrow> {Cond, Log_Mutex, Sess_Mutex, Client_Mutex} \<subseteq> inited e"
  proof
    assume s: "{Cond, Log_Mutex, Sess_Mutex, Client_Mutex} \<subseteq> inited e"
    have "x \<in> inited e" for x using s by (cases x) simp_all
    then show "inited e = UNIV" by blast
  qed simp
  have E: "UNIV - {Cond} - {Log_Mutex} - {Sess_Mutex} - {Client_Mutex} = {}"
  proof -
    have "x \<in> {Cond, Log_Mutex, Sess_Mutex, Client_Mutex}" for x by (cases x) simp_all
    then show ?thesis by blast
  qed
  show ?thesis
  proof (cases "inited e = UNIV")
    case True
    then show ?thesis using assms
      by (simp add: object_teardown_def sync_destroy_def on_srv_def on_st_def free_signals_def free_objects_def
          upd_objects_def E m)
  next
    case False
    then show ?thesis using U by (auto simp: object_teardown_def sync_destroy_def)
  qed
qed

section \<open>The waiting jobs\<close>

lemma accounts_conns:
  assumes acc: "accounts h po A" and env: "env_step h h'"
    and same: "mem (st h') = mem (st h)" "clients (st h') = clients (st h)" "objects (st h') = objects (st h)"
    and conns: "conns (st h') NULL = None" "\<And>c. conns (st h') c \<noteq> None \<Longrightarrow> c < brk h'"
  shows "accounts h' po A"
proof -
  obtain objs where o: "server_ok h" "objects (st h) po = Some objs"
      "if o_htable objs = NULL then A = Map.empty else \<exists>M. accounts_in h (o_htable objs) A M"
    using acc unfolding accounts_def by blast
  have b: "brk h \<le> brk h'" using env by (simp add: env_step_def)
  have "layout_ok (brk h) (st h)" using o(1) by (simp add: server_ok_def)
  then have "layout_ok (brk h') (st h')"
    using b conns unfolding layout_ok_def same by (meson le_trans less_le_trans)
  then have "server_ok h'" by (rule env_step_server_ok [OF env o(1)])
  moreover have "accounts_in h' t A M" if "accounts_in h t A M" for t M
    using accounts_in_same [OF that env same(1)] same(2) by simp
  ultimately show ?thesis using o(2,3) same(3) unfolding accounts_def by (auto split: if_splits)
qed

text \<open>
  The server represents the accounts \<open>A\<close> and session number \<open>s\<close>, and its connections are exactly
  those of the waiting jobs \<open>cs\<close>: pairs of a connection and its socket.
\<close>

definition server_at :: "server \<Rightarrow> ptr \<Rightarrow> ptr \<Rightarrow> (byte list \<rightharpoonup> byte list) \<Rightarrow> 64 word \<Rightarrow> (ptr \<times> int) list \<Rightarrow> bool" where
  "server_at h po sp A s cs \<longleftrightarrow> accounts h po A \<and> cap_ok h po A \<and> po \<noteq> NULL
     \<and> (\<exists>objs. objects (st h) po = Some objs \<and> o_session_id objs = s \<and> o_signals objs = sp)
     \<and> dom (objects (st h)) = {po} \<and> signals (st h) = [sp \<mapsto> \<lparr>client_mutex = False, sess_mutex = False\<rparr>]
     \<and> distinct (map fst cs) \<and> dom (conns (st h)) = fst ` set cs
     \<and> (\<forall>y \<in> set cs. \<exists>x. conns (st h) (fst y) = Some x \<and> conn_objects x = po \<and> conn_fd x = snd y)"

definition conn_job :: "ptr \<times> int \<Rightarrow> tpool_job_t" where
  "conn_job x = \<lparr>job_f = HANDLE_CLIENTS, p_args = fst x, job_free = CONN_DATA_FREE\<rparr>"

lemma server_at_accounts: "server_at h po sp A s cs \<Longrightarrow> accounts h po A \<and> cap_ok h po A"
  unfolding server_at_def by blast

lemma server_at_conns:
  assumes "server_at h po sp A s cs"
  shows "conns (st h) NULL = None" "conns (st h) c \<noteq> None \<Longrightarrow> c < brk h" "0 < brk h" "\<not> oom h k"
proof -
  have "accounts h po A" using assms unfolding server_at_def by (elim conjE)
  then have "server_ok h" unfolding accounts_def by (elim conjE)
  then have so: "hheap_ok h \<and> never_oom h \<and> layout_ok (brk h) (st h)" by (rule server_ok_def [THEN iffD1])
  note ok = conjunct1 [OF so] conjunct2 [OF conjunct2 [OF so]] conjunct1 [OF conjunct2 [OF so]]
  show "conns (st h) NULL = None" by (rule layout_okD(1) [OF ok(2)])
  show "c < brk h" if "conns (st h) c \<noteq> None" by (rule layout_okD(8) [OF ok(2) that])
  show "0 < brk h" by (rule hheap_ok_fresh(7) [OF ok(1)])
  show "\<not> oom h k" by (rule ok(3) [rule_format])
qed

lemma server_at_conn:
  assumes "server_at h po sp A s cs" "(c, f) \<in> set cs"
  shows "conn_ok (st h) c f po"
proof -
  obtain x where x: "conns (st h) c = Some x" "conn_objects x = po" "conn_fd x = f"
    using assms unfolding server_at_def by fastforce
  have "c \<noteq> NULL" using server_at_conns(1) [OF assms(1)] x(1) by (metis option.distinct(1))
  moreover obtain objs where "objects (st h) po = Some objs" "o_signals objs = sp" "po \<noteq> NULL"
    "signals (st h) sp = Some \<lparr>client_mutex = False, sess_mutex = False\<rparr>"
    using assms(1) unfolding server_at_def by (elim conjE exE) (rule that, simp_all)
  ultimately show ?thesis using x unfolding conn_ok_def by simp
qed

lemma cap_ok_env: "env_step h h' \<Longrightarrow> objects (st h') = objects (st h) \<Longrightarrow> cap_ok h po A \<Longrightarrow> cap_ok h' po A"
  by (simp add: cap_ok_def env_step_def)

text \<open>A new connection.\<close>

lemma accept_one_spec:
  assumes at: "server_at h po sp A s cs" and tp: "p_tpool \<noteq> NULL"
  shows "\<exists>h' c. accept_one po p_tpool ca f (map conn_job cs) h
        = Some (map conn_job (if 0 \<le> f then cs @ [(c, f)] else cs), h')
     \<and> server_at h' po sp A s (if 0 \<le> f then cs @ [(c, f)] else cs)
     \<and> st h' = (st h)\<lparr>conns := conns (st h')\<rparr>"
proof (cases "0 \<le> f")
  case False
  then show ?thesis using at by (simp add: accept_one_def)
next
  case True
  let ?c = "brk h"
  let ?x = "\<lparr>conn_objects = po, conn_addr = ca, conn_fd = f\<rparr>"
  let ?h = "(hwith_more h ((st h)\<lparr>conns := (conns (st h))(?c \<mapsto> ?x)\<rparr>))
     \<lparr>allocs := Suc (Suc (Suc (allocs h))), brk := 72 + brk h\<rparr>"
  note C = server_at_conns [OF at]
  have fresh: "conns (st h) ?c = None" using C(2) [of ?c] by (cases "conns (st h) ?c") simp_all
  have ev: "accept_one po p_tpool ca f (map conn_job cs) h = Some (map conn_job (cs @ [(?c, f)]), ?h)"
    using True tp C(3,4) by (simp add: accept_one_def calloc_in_def calloc_def add_job_def conn_job_def HANDLE_CLIENTS_def)
  have env: "env_step h ?h" by (simp add: env_step_def)
  have "accounts ?h po A"
  proof (rule accounts_conns [OF _ env])
    show "accounts h po A" using server_at_accounts [OF at] by blast
    show "c < brk ?h" if "conns (st ?h) c \<noteq> None" for c using that C(2) [of c] by (cases "c = ?c") simp_all
  qed (use C(1,3) in simp_all)
  moreover have "cap_ok ?h po A" using cap_ok_env [OF env] at unfolding server_at_def by simp
  moreover have "?c \<notin> fst ` set cs" using at fresh unfolding server_at_def by (auto simp: domIff)
  ultimately have "server_at ?h po sp A s (cs @ [(?c, f)])"
    using at unfolding server_at_def by (auto simp: image_iff split: if_splits)
  then show ?thesis using ev True by (intro exI [of _ ?h] exI [of _ ?c]) simp
qed

text \<open>The pool runs the first job.\<close>

lemma conn_data_free_spec:
  assumes at: "server_at h po sp A s ((c, f) # cs)"
  shows "\<exists>h'. on_st (conn_data_free c) h = Some h' \<and> server_at h' po sp A s cs
     \<and> st h' = (st h)\<lparr>conns := conns (st h')\<rparr>"
proof -
  obtain x where x: "conns (st h) c = Some x" using at unfolding server_at_def by auto
  note C = server_at_conns [OF at]
  have c: "c \<noteq> NULL" using x C(1) by (metis option.distinct(1))
  let ?h = "hwith_more h ((st h)\<lparr>conns := (conns (st h))(c := None)\<rparr>)"
  have ev: "on_st (conn_data_free c) h = Some ?h" using x c by (simp add: on_st_def conn_data_free_def)
  have env: "env_step h ?h" by simp
  have "accounts ?h po A"
    by (rule accounts_conns [OF _ env]) (use at C in \<open>auto simp: server_at_def split: if_splits\<close>)
  moreover have "cap_ok ?h po A" using cap_ok_env [OF env] at unfolding server_at_def by simp
  ultimately have "server_at ?h po sp A s cs" using at unfolding server_at_def by (auto simp: image_iff)
  then show ?thesis using ev by (intro exI [of _ ?h]) simp
qed

lemma served_server_at:
  assumes at: "server_at h po sp A s cs" and sv: "served h h' po A A' s' acts"
  shows "server_at h' po sp A' s' cs"
proof -
  have "cap_ok h po A" using at unfolding server_at_def by blast
  then show ?thesis using at sv unfolding server_at_def served_def by auto
qed

lemma run_job_spec:
  assumes at: "server_at h po sp A s ((c, f) # cs)" and ok: "request_ok r" and fuel: "0 < fuel"
    and room: "card (dom A) < 2 ^ 27" and script: "script (st h) = map (Got True) (messages r (A, s)) @ es"
    and step: "db_step r (A, s) = ((A', s'), k)"
  shows "\<exists>h'. run_job fuel (conn_job (c, f)) h = Some h' \<and> server_at h' po sp A' s' cs
     \<and> script (st h') = es \<and> gb_run (st h') \<and> trace (st h') = trace (st h) @ [Send f k, Close f]"
proof -
  obtain objs where o: "objects (st h) po = Some objs" "o_session_id objs = s" using at unfolding server_at_def by blast
  have acc: "accounts h po A" "cap_ok h po A" using server_at_accounts [OF at] by blast+
  have conn: "conn_ok (st h) c f po" by (rule server_at_conn [OF at]) simp
  obtain h1 where h1: "handle_clients fuel c h = Some h1" "script (st h1) = es" "gb_run (st h1)"
      "served h h1 po A A' s' [Send f k, Close f]"
    using serve_one [OF acc(1) conn o(1) cap_ok_room [OF acc(2) room] ok fuel, unfolded o(2), OF script step] by blast
  obtain h2 where h2: "on_st (conn_data_free c) h1 = Some h2" "server_at h2 po sp A' s' cs"
      "st h2 = (st h1)\<lparr>conns := conns (st h2)\<rparr>"
    using conn_data_free_spec [OF served_server_at [OF at h1(4)]] by blast
  have "run_job fuel (conn_job (c, f)) h = Some h2"
    using h1(1) h2(1) by (simp add: run_job_def conn_job_def CONN_DATA_FREE_def)
  moreover have "script (st h2) = es" "gb_run (st h2)" "trace (st h2) = trace (st h1)"
    by (subst h2(3), simp add: h1)+
  ultimately show ?thesis using h2(2) h1(4) unfolding served_def by simp
qed

section \<open>The accept loop\<close>

text \<open>The sockets that are accepted before a signal, and how many jobs run by then if \<open>n\<close> wait at first.\<close>

fun accepted :: "event list \<Rightarrow> int list" where
  "accepted [] = []"
| "accepted (Accept f # evs) = (if 0 \<le> f then f # accepted evs else accepted evs)"
| "accepted (Work # evs) = accepted evs"
| "accepted (Signal # evs) = []"

fun worked :: "nat \<Rightarrow> event list \<Rightarrow> nat" where
  "worked n [] = 0"
| "worked n (Accept f # evs) = worked (if 0 \<le> f then Suc n else n) evs"
| "worked 0 (Work # evs) = worked 0 evs"
| "worked (Suc n) (Work # evs) = Suc (worked n evs)"
| "worked n (Signal # evs) = 0"

text \<open>A run of the abstract machine over the requests \<open>rs\<close> of the sockets \<open>fs\<close>.\<close>

definition db_serve :: "int list \<Rightarrow> request list \<Rightarrow> db \<Rightarrow> db \<times> byte list list \<times> action list" where
  "db_serve fs rs = db_run (map (\<lambda>(f, r). (NULL, f, r)) (zip fs rs))"

lemma db_serve_simps [simp]:
  "db_serve fs [] d = (d, [], [])" "db_serve [] rs d = (d, [], [])"
  "db_serve (f # fs) (r # rs) d = (let (d1, k) = db_step r d; (d2, ms, acts) = db_serve fs rs d1
      in (d2, messages r d @ ms, Send f k # Close f # acts))"
  by (simp_all add: db_serve_def)

lemma accept_loop_spec:
  assumes "server_at h po sp A s cs" "gb_run (st h)" "Signal \<notin> set evs" "p_tpool \<noteq> NULL" "0 < fuel"
    and "length rs = worked (length cs) evs" "\<forall>r \<in> set rs. request_ok r" "card (dom A) + length rs < 2 ^ 27"
    and "db_serve (map snd cs @ accepted evs) rs (A, s) = ((A', s'), ms, acts)"
    and "script (st h) = map (Got True) ms @ es"
  shows "\<exists>h' cs'. accept_loop fuel po p_tpool ca (evs @ Signal # late) (map conn_job cs) h = Some (map conn_job cs', h')
     \<and> server_at h' po sp A' s' cs' \<and> map snd cs' = drop (length rs) (map snd cs @ accepted evs)
     \<and> script (st h') = es \<and> \<not> gb_run (st h') \<and> trace (st h') = trace (st h) @ acts"
  using assms
proof (induction evs arbitrary: h A s cs rs ms acts)
  case Nil
  let ?h = "hwith_more h (sighandler (st h))"
  have env: "env_step h ?h" by simp
  have "accounts ?h po A" by (rule accounts_same [OF _ env])
    (use server_at_accounts [OF Nil.prems(1)] in \<open>simp_all add: sighandler_def\<close>)
  moreover have "cap_ok ?h po A" by (rule cap_ok_env [OF env])
    (use server_at_accounts [OF Nil.prems(1)] in \<open>simp_all add: sighandler_def\<close>)
  ultimately have "server_at ?h po sp A s cs" using Nil.prems(1) unfolding server_at_def by (simp add: sighandler_def)
  moreover have "accept_loop fuel po p_tpool ca ([] @ Signal # late) (map conn_job cs) h = Some (map conn_job cs, ?h)"
    using Nil.prems(2) by (cases late) (simp_all add: on_st_def sighandler_def)
  ultimately show ?case using Nil.prems(6,9,10) by (intro exI [of _ ?h] exI [of _ cs]) (simp add: sighandler_def)
next
  case (Cons ev evs)
  show ?case
  proof (cases ev)
    case Signal
    then show ?thesis using Cons.prems(3) by simp
  next
    case (Accept f)
    let ?cs = "\<lambda>c. if 0 \<le> f then cs @ [(c, f)] else cs"
    obtain h1 c where h1: "accept_one po p_tpool ca f (map conn_job cs) h = Some (map conn_job (?cs c), h1)"
        "server_at h1 po sp A s (?cs c)" "st h1 = (st h)\<lparr>conns := conns (st h1)\<rparr>"
      using accept_one_spec [OF Cons.prems(1,4)] by blast
    have st: "gb_run (st h1) = gb_run (st h)" "script (st h1) = script (st h)" "trace (st h1) = trace (st h)"
      by (subst h1(3), simp)+
    have fs: "map snd (?cs c) @ accepted evs = map snd cs @ accepted (ev # evs)" by (simp add: Accept)
    have ns: "Signal \<notin> set evs" using Cons.prems(3) by simp
    have len: "length rs = worked (length (?cs c)) evs" using Cons.prems(6) by (simp add: Accept split: if_splits)
    obtain h' cs' where "accept_loop fuel po p_tpool ca (evs @ Signal # late) (map conn_job (?cs c)) h1 = Some (map conn_job cs', h')"
      "server_at h' po sp A' s' cs'" "map snd cs' = drop (length rs) (map snd cs @ accepted (ev # evs))"
      "script (st h') = es" "\<not> gb_run (st h')" "trace (st h') = trace (st h) @ acts"
      using Cons.IH [OF h1(2) _ _ Cons.prems(4,5) len Cons.prems(7,8), unfolded st fs, OF Cons.prems(2) ns Cons.prems(9,10)]
      by blast
    then show ?thesis using h1(1) Cons.prems(2) by (intro exI [of _ h'] exI [of _ cs']) (simp add: Accept)
  next
    case Work
    show ?thesis
    proof (cases cs)
      case Nil
      then show ?thesis using Cons.IH [OF Cons.prems(1,2) _ Cons.prems(4,5) _ Cons.prems(7,8)] Cons.prems Work by simp
    next
      case (Cons x cs1)
      obtain c f where x: "x = (c, f)" by (cases x)
      obtain r rs1 where rs: "rs = r # rs1" "length rs1 = worked (length cs1) evs"
        using Cons.prems(6) by (cases rs) (simp_all add: Work Cons)
      obtain A1 s1 k where step: "db_step r (A, s) = ((A1, s1), k)" by (metis prod.collapse)
      obtain ms1 acts1 where run: "db_serve (map snd cs1 @ accepted evs) rs1 (A1, s1) = ((A', s'), ms1, acts1)"
          "ms = messages r (A, s) @ ms1" "acts = Send f k # Close f # acts1"
        using Cons.prems(9) step by (auto simp: Work Cons x rs(1) split: prod.splits)
      have sc: "script (st h) = map (Got True) (messages r (A, s)) @ map (Got True) ms1 @ es"
        using Cons.prems(10) run(2) by simp
      obtain h1 where h1: "run_job fuel (conn_job (c, f)) h = Some h1" "server_at h1 po sp A1 s1 cs1"
          "script (st h1) = map (Got True) ms1 @ es" "gb_run (st h1)" "trace (st h1) = trace (st h) @ [Send f k, Close f]"
        using run_job_spec [OF Cons.prems(1) [unfolded Cons x] _ Cons.prems(5) _ sc step] Cons.prems(7,8) rs(1) by auto
      have fin: "finite (dom A)" using accounts_finite server_at_accounts [OF Cons.prems(1)] by blast
      have card: "card (dom A1) + length rs1 < 2 ^ 27" using db_step_dom [OF step fin] Cons.prems(8) rs(1) by simp
      obtain h' cs' where "accept_loop fuel po p_tpool ca (evs @ Signal # late) (map conn_job cs1) h1 = Some (map conn_job cs', h')"
        "server_at h' po sp A' s' cs'" "map snd cs' = drop (length rs1) (map snd cs1 @ accepted evs)"
        "script (st h') = es" "\<not> gb_run (st h')" "trace (st h') = trace (st h1) @ acts1"
        using Cons.IH [OF h1(2,4) _ Cons.prems(4,5) rs(2) _ card run(1) h1(3)] Cons.prems(3,7) rs(1) by auto
      then show ?thesis using h1(1,5) Cons.prems(2) run(3)
        by (intro exI [of _ h'] exI [of _ cs']) (simp add: Work Cons x rs(1))
    qed
  qed
qed

end
