(* ===== verification/ChatServerProps.thy ===== *)
theory ChatServerProps
  imports ChatServerSpec HTableProps
begin

text \<open>The shutdown of the server, and the properties of the main program.\<close>

section \<open>The end of the accounts\<close>

lemma client_free_layout:
  assumes "layout_ok b z" "client_free q z = Some z'"
  shows "layout_ok b z'"
proof (cases "q = NULL")
  case True
  then show ?thesis using assms by (simp add: client_free_def)
next
  case False
  then have q: "clients z q \<noteq> None" "clients z' = (clients z)(q := None)"
      "mem z' = (\<lambda>a. if q + 16 \<le> a \<and> a < q + 52 then None else mem z a)" "conns z' = conns z" "objects z' = objects z"
    using assms(2) by (auto simp: client_free_def release_def split: option.splits)
  note D = layout_okD [OF assms(1)]
  show ?thesis unfolding layout_ok_def
  proof (intro conjI allI impI)
    fix c i :: nat assume c: "clients z' c \<noteq> None" and i: "i < 36"
    then have n: "c \<noteq> q" "clients z c \<noteq> None" using q(2) by (auto split: if_splits)
    show "mem z' (c + 16 + i) \<noteq> None"
      using D(7) [OF n(2) q(1) n(1)] D(6) [OF n(2) i] i by (simp add: q(3)) linarith
  qed (use D q(2-5) in \<open>auto split: if_splits\<close>)
qed

lemma client_free_frame: "client_free q z = Some z' \<Longrightarrow> z' = z\<lparr>clients := clients z', mem := mem z'\<rparr>"
  by (auto simp: client_free_def split: if_splits)

text \<open>Freeing nodes keeps the layout and everything but the clients and their bytes.\<close>

lemma free_nodes_keep:
  assumes "free_nodes free_eff hn ds z = Some z'"
  shows "z' = z\<lparr>clients := clients z', mem := mem z'\<rparr> \<and> (layout_ok b z \<longrightarrow> layout_ok b z')"
  using assms
proof (induction ds arbitrary: z)
  case (Cons d ds)
  obtain x z1 where x: "hn d = Some x" "(if h_free x \<noteq> NULL then free_eff (h_free x) (h_value x) z else Some z) = Some z1"
      "free_nodes free_eff hn ds z1 = Some z'"
    using Cons.prems by (cases "hn d") (auto simp: bind_eq_Some_conv split: if_splits)
  have "z1 = z\<lparr>clients := clients z1, mem := mem z1\<rparr> \<and> (layout_ok b z \<longrightarrow> layout_ok b z1)"
    using x(2) client_free_layout client_free_frame by (auto simp: free_eff_def split: if_splits)
  then show ?case using Cons.IH [OF x(3)]
    by (metis (no_types, lifting) chat_state.select_convs(1,2) chat_state.surjective chat_state.update_convs(1,2))
qed simp

lemma hheap_ok_sub:
  assumes "hheap_ok h" "brk h' = brk h" "dom (nodes h') \<subseteq> dom (nodes h)" "dom (lists h') \<subseteq> dom (lists h)"
    and "dom (hnodes h') \<subseteq> dom (hnodes h)" "dom (tables h') \<subseteq> dom (tables h)" "dom (arrs h') \<subseteq> dom (arrs h)"
  shows "hheap_ok h'"
proof -
  have "lheap_ok h'" using hheap_ok_lheap [OF assms(1)] assms(2-4) unfolding lheap_ok_def by (simp add: subset_iff)
  moreover have "0 < q \<and> q < brk h'" if "q \<in> dom (hnodes h') \<union> dom (tables h') \<union> dom (arrs h')" for q
  proof -
    have "q \<in> dom (hnodes h) \<union> dom (tables h) \<union> dom (arrs h)" using assms(5-7) that by blast
    then show ?thesis using assms(1) unfolding hheap_ok_def assms(2) by (elim conjE allE [of _ q]) (erule mp)
  qed
  ultimately show ?thesis unfolding hheap_ok_def by blast
qed

text \<open>\<open>htable_destroy\<close> leaves no account.\<close>

lemma accounts_destroyed:
  assumes acc: "accounts h po A" and pn: "po \<noteq> NULL" and o: "objects (st h) po = Some objs"
  shows "\<exists>b h'. htable_destroy call_free (o_htable objs) h = Some (b, NULL, h')
     \<and> (let h2 = hwith_more h' ((st h')\<lparr>objects := (objects (st h'))(po \<mapsto> objs\<lparr>o_htable := NULL\<rparr>)\<rparr>)
        in accounts h2 po Map.empty \<and> cap_ok h2 po Map.empty)
     \<and> objects (st h') = objects (st h) \<and> conns (st h') = conns (st h) \<and> signals (st h') = signals (st h)
     \<and> script (st h') = script (st h) \<and> gb_run (st h') = gb_run (st h) \<and> trace (st h') = trace (st h)"
proof -
  have so: "server_ok h" and if_tab: "if o_htable objs = NULL then A = Map.empty else \<exists>M. accounts_in h (o_htable objs) A M"
    using acc o unfolding accounts_def by auto
  note ok = server_ok_def [THEN iffD1, OF so]
  let ?h2 = "\<lambda>h'. hwith_more h' ((st h')\<lparr>objects := (objects (st h'))(po \<mapsto> objs\<lparr>o_htable := NULL\<rparr>)\<rparr>)"
  have empty: "accounts (?h2 h') po Map.empty \<and> cap_ok (?h2 h') po Map.empty"
    if h': "hheap_ok h'" "never_oom h'" "layout_ok (brk h') (st h')" for h'
  proof -
    have "layout_ok (brk h') (st (?h2 h'))" using h'(3) pn by (simp add: layout_ok_def)
    moreover have "hheap_ok (?h2 h')" by (rule env_step_hheap_ok [OF _ h'(1)]) simp
    ultimately have "server_ok (?h2 h')" using h'(2) by (simp add: server_ok_def)
    moreover have "tables h' NULL = None" using h'(1) hheap_ok_below(2) by fastforce
    ultimately show ?thesis by (simp add: accounts_def cap_ok_def)
  qed
  show ?thesis
  proof (cases "o_htable objs = NULL")
    case True
    then show ?thesis using empty ok by (intro exI [of _ False] exI [of _ h]) (simp add: htable_destroy_def Let_def)
  next
    case False
    then obtain M where M: "accounts_in h (o_htable objs) A M" using if_tab by auto
    then have map: "chat.ht_map h (o_htable objs) M" "dom A = dom M"
      "\<And>u d p. M u = Some d \<Longrightarrow> A u = Some p \<Longrightarrow> account_at h d u p" unfolding accounts_in_def by blast+
    obtain n a bs As B where B: "chat.ht_at h (o_htable objs) n a bs As B"
      "\<forall>k d. M k = Some d \<longleftrightarrow> d \<in> set (concat B) \<and> chat.nkey h d = Some k"
      by (rule chat.ht_mapE [OF map(1)])
    have nk: "chat.nkeys_ok h n B" using B(1) unfolding chat.ht_at_def by blast
    have nodes: "\<forall>d \<in> set (concat B). \<exists>u p. account_at h d u p"
    proof
      fix d assume d: "d \<in> set (concat B)"
      then obtain b where b: "b \<in> set B" "d \<in> set b" by auto
      from b(1) obtain i where "i < length B" "B ! i = b" by (auto simp: in_set_conv_nth)
      then obtain k where "chat.nkey h d = Some k" using nk b(2) unfolding chat.nkeys_ok_def by blast
      then have "M k = Some d" using B(2) d by blast
      then show "\<exists>u p. account_at h d u p" using map(2,3) by blast
    qed
    obtain z where z: "free_nodes free_eff (hnodes h) (concat B) (st h) = Some z"
      using free_account_nodes [OF so nk nodes] by blast
    obtain h' where h': "htable_destroy call_free (o_htable objs) h = Some (True, NULL, h')"
      "tables h' = (tables h)(o_htable objs := None)" "arrs h' = (arrs h)(a := None)"
      "hnodes h' = hnodes h |` (- set (concat B))" "nodes h' = nodes h |` (- \<Union> (set As))"
      "lists h' = lists h |` (- set bs)" "st h' = z" "brk h' = brk h" "oom h' = oom h"
      using chat.htable_destroy_spec [OF B(1) z] by blast
    have "hheap_ok h'" by (rule hheap_ok_sub [OF conjunct1 [OF ok] h'(8)]) (simp_all only: h'(2-6), auto)
    moreover have zz: "z = (st h)\<lparr>clients := clients z, mem := mem z\<rparr>" "layout_ok (brk h) z"
      using free_nodes_keep [OF z, of "brk h"] ok by blast+
    ultimately have "accounts (?h2 h') po Map.empty \<and> cap_ok (?h2 h') po Map.empty"
      by (intro empty) (use ok h'(7-9) in simp_all)
    moreover have "objects z = objects (st h)" "conns z = conns (st h)" "signals z = signals (st h)"
      "script z = script (st h)" "gb_run z = gb_run (st h)" "trace z = trace (st h)" by (subst zz(1), simp)+
    ultimately show ?thesis using h'(1,7) by (intro exI [of _ True] exI [of _ h']) (simp add: Let_def)
  qed
qed

section \<open>The whole program\<close>

lemma init_server_at:
  assumes "server_ok (srv e)" "conns (pst e) = Map.empty" "clean e"
  shows "server_at (srv (init_state e)) (brk (srv e)) (brk (srv e) + 56) Map.empty 0 []"
    "script (pst (init_state e)) = script (pst e)" "gb_run (pst (init_state e)) = gb_run (pst e)"
    "trace (pst (init_state e)) = trace (pst e)" "inited (init_state e) = {x. init_status e x = 0}"
proof -
  let ?h = "srv (init_state e)" and ?po = "brk (srv e)"
  note ok = server_ok_def [THEN iffD1, OF assms(1)]
  have b: "0 < ?po" using ok hheap_ok_fresh(7) by blast
  have env: "env_step (srv e) ?h" by (simp add: init_state_def env_step_def)
  have "layout_ok (brk ?h) (pst (init_state e))"
  proof -
    have "layout_ok ?po (pst e)" using ok by blast
    then have "layout_ok (224 + ?po) (pst e)" using layout_ok_mono by fastforce
    then show ?thesis using b by (simp add: init_state_def layout_ok_def)
  qed
  then have so: "server_ok ?h" by (rule env_step_server_ok [OF env assms(1)])
  have o: "objects (st ?h) = [?po \<mapsto> \<lparr>o_session_id = 0, o_signals = ?po + 56, o_htable = NULL\<rparr>]"
    "signals (st ?h) = [?po + 56 \<mapsto> \<lparr>client_mutex = False, sess_mutex = False\<rparr>]" "conns (st ?h) = Map.empty"
    "tables ?h = tables (srv e)"
    using assms(2,3) by (simp_all add: init_state_def clean_def)
  have "tables (srv e) NULL = None" using hheap_ok_below(2) ok by fastforce
  then have "accounts ?h ?po Map.empty" "cap_ok ?h ?po Map.empty" using so o by (simp_all add: accounts_def cap_ok_def)
  then show "server_at ?h ?po (?po + 56) Map.empty 0 []" using b o by (simp add: server_at_def)
  show "script (pst (init_state e)) = script (pst e)" "gb_run (pst (init_state e)) = gb_run (pst e)"
    "trace (pst (init_state e)) = trace (pst e)" "inited (init_state e) = {x. init_status e x = 0}"
    using assms(3) by (simp_all add: init_state_def clean_def)
qed

text \<open>After the loop: what is left when the table has been destroyed.\<close>

lemma destroyed_server_at:
  assumes at: "server_at h po sp A s cs" and o: "objects (st h) po = Some objs"
  shows "\<exists>b h' h2. htable_destroy call_free (o_htable objs) h = Some (b, NULL, h')
     \<and> on_st (upd_objects po (\<lambda>x. x\<lparr>o_htable := NULL\<rparr>)) h' = Some h2 \<and> server_at h2 po sp Map.empty s cs
     \<and> script (st h2) = script (st h) \<and> gb_run (st h2) = gb_run (st h) \<and> trace (st h2) = trace (st h)"
proof -
  have acc: "accounts h po A" and pn: "po \<noteq> NULL" using at unfolding server_at_def by blast+
  obtain b h' where h': "htable_destroy call_free (o_htable objs) h = Some (b, NULL, h')"
     "let h2 = hwith_more h' ((st h')\<lparr>objects := (objects (st h'))(po \<mapsto> objs\<lparr>o_htable := NULL\<rparr>)\<rparr>)
      in accounts h2 po Map.empty \<and> cap_ok h2 po Map.empty"
     "objects (st h') = objects (st h)" "conns (st h') = conns (st h)" "signals (st h') = signals (st h)"
     "script (st h') = script (st h)" "gb_run (st h') = gb_run (st h)" "trace (st h') = trace (st h)"
    using accounts_destroyed [OF acc pn o] by blast
  let ?h2 = "hwith_more h' ((st h')\<lparr>objects := (objects (st h'))(po \<mapsto> objs\<lparr>o_htable := NULL\<rparr>)\<rparr>)"
  have "on_st (upd_objects po (\<lambda>x. x\<lparr>o_htable := NULL\<rparr>)) h' = Some ?h2"
    using o h'(3) by (simp add: on_st_def upd_objects_def)
  moreover have "server_at ?h2 po sp Map.empty s cs"
    using at h'(2-5) o unfolding server_at_def Let_def by auto
  ultimately show ?thesis using h'(1,6-8) by (intro exI [of _ b] exI [of _ h'] exI [of _ ?h2]) simp
qed

lemma teardown_server_at:
  assumes at: "server_at (srv e) po sp A s cs" and init: "inited e = UNIV" and sp: "sp \<noteq> NULL"
  shows "\<exists>e'. object_teardown po 7 e = Some e' \<and> clean e' \<and> script (pst e') = script (pst e)
     \<and> trace (pst e') = trace (pst e) \<and> conns (pst e') = conns (pst e)"
proof -
  obtain objs where o: "objects (pst e) po = Some objs" "o_signals objs = sp" "po \<noteq> NULL" "dom (objects (pst e)) = {po}"
    "signals (pst e) = [sp \<mapsto> \<lparr>client_mutex = False, sess_mutex = False\<rparr>]"
    using at unfolding server_at_def by (elim conjE exE) (rule that)
  have "objects (pst e) = [po \<mapsto> objs]" using o(1,4) by (auto simp: dom_eq_singleton_conv)
  then show ?thesis using object_teardown_all [of e po objs] o(2,3,5) init sp by (simp add: clean_def)
qed

text \<open>A login that is still waiting when the server stops.\<close>

lemma late_login:
  assumes at: "server_at h po sp A s ((c, f) # cs)" and ok: "request_ok (Login u p)" and A: "A u = None"
    and script: "script (st h) = Got r (encode (Login u p)) # es"
  shows "\<exists>h'. run_job fuel (conn_job (c, f)) h = Some h' \<and> server_at h' po sp A s cs
     \<and> trace (st h') = trace (st h) @ [Send f (failure FAILURE (of_int INVALID_UNAME)), Close f] \<and> script (st h') = es"
proof -
  obtain objs where o: "objects (st h) po = Some objs" "o_session_id objs = s" using at unfolding server_at_def by blast
  have acc: "accounts h po A" using server_at_accounts [OF at] by blast
  have conn: "conn_ok (st h) c f po" by (rule server_at_conn [OF at]) simp
  let ?z = "(st h)\<lparr>script := es, gb_run := r\<rparr>"
  have got: "recv_poll (st h) = Some (Some (encode (Login u p)), ?z)" using recv_poll_Got [OF script]
    by (simp only: take_all [OF encode_length])
  have b: "init_bytes (pad BUFF_SIZE (encode (Login u p))) (of_nat (length u)) u (of_nat (length p)) p"
     "pad BUFF_SIZE (encode (Login u p)) ! 0 = LOGIN" using ok init_bytes_encode by simp_all
  obtain h1 where h1: "handle_clients fuel c h = Some h1" "script (st h1) = es"
      "served h h1 po A A s [Send f (failure FAILURE (of_int INVALID_UNAME)), Close f]"
    using handle_clients_login_spec [OF acc conn got b(2,1) o(1), of fuel] A o(2) by auto
  obtain h2 where h2: "on_st (conn_data_free c) h1 = Some h2" "server_at h2 po sp A s cs"
      "st h2 = (st h1)\<lparr>conns := conns (st h2)\<rparr>"
    using conn_data_free_spec [OF served_server_at [OF at h1(3)]] by blast
  have "run_job fuel (conn_job (c, f)) h = Some h2"
    using h1(1) h2(1) by (simp add: run_job_def conn_job_def CONN_DATA_FREE_def)
  moreover have "trace (st h2) = trace (st h1)" "script (st h2) = script (st h1)" by (subst h2(3), simp)+
  ultimately show ?thesis using h1 h2(2) unfolding served_def by simp
qed

lemma shut_down_spec:
  assumes at: "server_at (srv e) po sp A s cs" and init: "inited e = UNIV" and sp: "sp \<noteq> NULL"
    and run: "\<And>h. server_at h po sp Map.empty s cs \<Longrightarrow> script (st h) = script (pst e)
       \<Longrightarrow> \<exists>h'. run_jobs fuel (map conn_job cs) h = Some h' \<and> server_at h' po sp A' s' []
             \<and> script (st h') = es \<and> trace (st h') = trace (st h) @ acts"
  shows "\<exists>e'. shut_down fuel po (map conn_job cs) e = Some e' \<and> clean e' \<and> conns (pst e') = Map.empty
     \<and> script (pst e') = es \<and> trace (pst e') = trace (pst e) @ acts"
proof -
  obtain objs where o: "objects (pst e) po = Some objs" using at unfolding server_at_def by blast
  obtain b h1 h2 where h2: "htable_destroy call_free (o_htable objs) (srv e) = Some (b, NULL, h1)"
      "on_st (upd_objects po (\<lambda>x. x\<lparr>o_htable := NULL\<rparr>)) h1 = Some h2" "server_at h2 po sp Map.empty s cs"
      "script (st h2) = script (pst e)" "trace (st h2) = trace (pst e)"
    using destroyed_server_at [OF at o] by blast
  obtain h3 where h3: "run_jobs fuel (map conn_job cs) h2 = Some h3" "server_at h3 po sp A' s' []"
      "script (st h3) = es" "trace (st h3) = trace (st h2) @ acts"
    using run [OF h2(3,4)] by blast
  have conns: "conns (st h3) = Map.empty" using h3(2) unfolding server_at_def by simp
  obtain e' where e': "object_teardown po 7 (e\<lparr>srv := h3\<rparr>) = Some e'" "clean e'" "script (pst e') = script (st h3)"
      "trace (pst e') = trace (st h3)" "conns (pst e') = conns (st h3)"
    using teardown_server_at [of "e\<lparr>srv := h3\<rparr>" po sp A' s' "[]"] h3(2) init sp by auto
  have "shut_down fuel po (map conn_job cs) e = Some e'"
    using o h2(1,2) h3(1) e'(1) by (simp add: shut_down_def)
  then show ?thesis using e' h2(5) h3(3,4) conns by (intro exI [of _ e']) simp
qed

section \<open>Properties\<close>


text \<open>An example: a process that has just started, on the memory of the example server.\<close>

definition ex_program :: "(sync \<Rightarrow> int) \<Rightarrow> recv_result list \<Rightarrow> program" where
  "ex_program status es = \<lparr>srv = hwith_more (ex_server es)
     ((ex_chat es)\<lparr>conns := Map.empty, objects := Map.empty, signals := Map.empty\<rparr>), inited = {}, init_status = status\<rparr>"

lemma ex_program_sel [simp]:
  "conns (pst (ex_program w es)) = Map.empty" "clean (ex_program w es)" "gb_run (pst (ex_program w es))"
  "can_open (pst (ex_program w es)) LOG_FILE" "init_status (ex_program w es) = w"
  "script (pst (ex_program w es)) = es" "trace (pst (ex_program w es)) = []" "brk (srv (ex_program w es)) = 1000"
  "oom (srv (ex_program w es)) = (\<lambda>_. False)"
  by (simp_all add: ex_program_def clean_def ex_chat_def ex_server_def)

lemma ex_program_ok: "server_ok (srv (ex_program w es))"
proof -
  have "hheap_ok (srv (ex_program w es))"
    by (rule env_step_hheap_ok [OF _ ex_hheap_ok [of es]]) (simp add: ex_program_def)
  moreover have "layout_ok 1000 (pst (ex_program w es))" by (auto simp: layout_ok_def ex_program_def ex_chat_def)
  ultimately show ?thesis by (simp add: server_ok_def)
qed


text \<open>C29: The order of the shutdown loses logins. \<open>main\<close> destroys the account table before
  \<open>tpool_destroy\<close> lets the workers finish, so a connection that is still waiting then is refused as
  an unknown user although its account exists and the account database would accept it.\<close>

theorem late_login_rejected:
  assumes "server_at (srv e) po sp A s [(c, f)]" "inited e = UNIV" "sp \<noteq> NULL" "A u = Some p"
    and "request_ok (Login u p)" "script (pst e) = Got False (encode (Login u p)) # es"
  shows "snd (db_step (Login u p) (A, s)) = login_ack LOGIN ACKNOWLEDGE (of_nat (card (dom A)))
     \<and> (\<exists>e'. shut_down fuel po [conn_job (c, f)] e = Some e' \<and> clean e'
          \<and> trace (pst e') = trace (pst e) @ [Send f (failure FAILURE (of_int INVALID_UNAME)), Close f])"
proof -
  have "\<exists>h'. run_jobs fuel (map conn_job [(c, f)]) h = Some h' \<and> server_at h' po sp Map.empty s []
     \<and> script (st h') = es \<and> trace (st h') = trace (st h) @ [Send f (failure FAILURE (of_int INVALID_UNAME)), Close f]"
    if h: "server_at h po sp Map.empty s [(c, f)]" "script (st h) = script (pst e)" for h
    using late_login [OF h(1) assms(5) _ trans [OF h(2) assms(6)], of fuel] by auto
  from shut_down_spec [OF assms(1-3) this] show ?thesis using assms(4) by auto
qed

theorem late_login_rejected_witness:
  "\<exists>e c e'. server_at (srv e) 1000 1056 [[98] \<mapsto> [104]] 1 [(c, 6)] \<and> shut_down 1 1000 [conn_job (c, 6)] e = Some e'
     \<and> trace (pst e') = trace (pst e) @ [Send 6 (failure FAILURE (of_int INVALID_UNAME)), Close 6]"
proof -
  let ?evs = "[Accept 5, Work, Accept 6]"
  let ?e = "ex_program (\<lambda>_. 0) (map (Got True) [encode (Create [98] [104])] @ [Got False (encode (Login [98] [104]))])"
  let ?i = "init_state ?e"
  note I = init_server_at [OF ex_program_ok ex_program_sel(1,2)]
  have run: "db_serve (map snd ([] :: (ptr \<times> int) list) @ accepted ?evs) [Create [98] [104]] (Map.empty, 0)
      = (([[98] \<mapsto> [104]], 1), [encode (Create [98] [104])], [Send 5 (init_ack INIT ACKNOWLEDGE 1), Close 5])" by simp
  let ?acts = "[Send 5 (init_ack INIT ACKNOWLEDGE 1), Close 5]" and ?late = "[Got False (encode (Login [98] [104]))]"
  have "\<exists>h' cs'. accept_loop 1 (brk (srv ?e)) 7 4 (?evs @ Signal # []) (map conn_job []) (srv ?i) = Some (map conn_job cs', h')
     \<and> server_at h' (brk (srv ?e)) (brk (srv ?e) + 56) [[98] \<mapsto> [104]] 1 cs'
     \<and> map snd cs' = drop (length [Create [98] [104]]) (map snd ([] :: (ptr \<times> int) list) @ accepted ?evs)
     \<and> script (st h') = ?late \<and> \<not> gb_run (st h') \<and> trace (st h') = trace (pst ?i) @ ?acts"
    by (rule accept_loop_spec [OF I(1) _ _ _ _ _ _ _ run])
      (simp_all add: I(2,3) UNAME_MAX_def PASS_MAX_def del: encode.simps)
  then obtain h' c where h': "server_at h' 1000 1056 [[98] \<mapsto> [104]] 1 [(c, 6)]"
    "script (st h') = [Got False (encode (Login [98] [104]))]" by (auto simp del: encode.simps)
  let ?e2 = "?i\<lparr>srv := h'\<rparr>"
  have "inited ?e2 = UNIV" using I(5) [of "\<lambda>_. 0"] by simp
  moreover have "server_at (srv ?e2) 1000 1056 [[98] \<mapsto> [104]] 1 [(c, 6)]" using h'(1) by simp
  ultimately have "\<exists>e'. shut_down 1 1000 [conn_job (c, 6)] ?e2 = Some e' \<and> clean e'
      \<and> trace (pst e') = trace (pst ?e2) @ [Send 6 (failure FAILURE (of_int INVALID_UNAME)), Close 6]"
    using late_login_rejected [of ?e2 1000 1056 "[[98] \<mapsto> [104]]" 1 c 6 "[98]" "[104]" "[]" 1] h'(2)
    by (simp add: UNAME_MAX_def PASS_MAX_def del: encode.simps)
  with \<open>server_at (srv ?e2) 1000 1056 [[98] \<mapsto> [104]] 1 [(c, 6)]\<close> show ?thesis by blast
qed

text \<open>C30: \<open>object_init\<close> and \<open>object_teardown\<close> match. From a state without shared objects, and with the
  non-negative results that \<open>pthread_mutex_init\<close> and \<open>pthread_cond_init\<close> have, \<open>object_init\<close> fails
  exactly when there is no client, no memory or no log file, and then leaves nothing behind. Else,
  when all objects could be initialised, \<open>object_teardown\<close> with 7 releases everything. But
  \<open>object_init\<close> does not notice a failed initialisation (it tests for a negative result), and then
  the teardown destroys an object that was never initialised, which is undefined.\<close>

theorem object_init_teardown:
  assumes "clean e" "0 < brk (srv e)" "\<forall>x. 0 \<le> init_status e x"
  shows "\<exists>p e'. object_init n e = Some (p, e')
     \<and> (p = NULL \<longleftrightarrow> n = 0 \<or> \<not> can_open (pst e) LOG_FILE \<or> oom (srv e) (allocs (srv e)) \<or> oom (srv e) (Suc (allocs (srv e))))
     \<and> (if p = NULL then clean e'
        else if \<forall>x. init_status e x = 0 then \<exists>e2. object_teardown p 7 e' = Some e2 \<and> clean e2
        else object_teardown p 7 e' = None)"
proof (cases "n = 0 \<or> \<not> can_open (pst e) LOG_FILE \<or> oom (srv e) (allocs (srv e)) \<or> oom (srv e) (Suc (allocs (srv e)))")
  case True
  then show ?thesis using object_init_fails [OF assms(1,2) True] by auto
next
  case False
  let ?p = "brk (srv e)" and ?objs = "\<lparr>o_session_id = 0, o_signals = brk (srv e) + 56, o_htable = NULL\<rparr>"
  have init: "object_init n e = Some (?p, init_state e)" using object_init_ok [OF assms(2) _ assms(3)] False by blast
  have o: "objects (pst (init_state e)) = [?p \<mapsto> ?objs]" "inited (init_state e) = {x. init_status e x = 0}"
      "signals (pst (init_state e)) = [o_signals ?objs \<mapsto> \<lparr>client_mutex = False, sess_mutex = False\<rparr>]"
    using assms(1) by (simp_all add: init_state_def clean_def)
  show ?thesis using init assms(2) False object_teardown_all [OF o(1,3)]
    by (intro exI [of _ ?p] exI [of _ "init_state e"]) (auto simp: o(2) clean_def)
qed

theorem object_init_teardown_witness:
  "(\<exists>e1 e2. object_init 100 (ex_program (\<lambda>_. 0) []) = Some (1000, e1) \<and> object_teardown 1000 7 e1 = Some e2 \<and> clean e2)
   \<and> (\<exists>e1. object_init 100 (ex_program (\<lambda>x. if x = Cond then 11 else 0) []) = Some (1000, e1) \<and> object_teardown 1000 7 e1 = None)"
proof -
  have p: "object_init 100 (ex_program w []) = Some (1000, init_state (ex_program w []))" if "\<forall>x. 0 \<le> w x" for w
    using object_init_ok [of "ex_program w []" 100] that by simp
  from object_init_teardown [of "ex_program (\<lambda>_. 0) []" 100]
    object_init_teardown [of "ex_program (\<lambda>x. if x = Cond then 11 else 0) []" 100]
  show ?thesis using p [of "\<lambda>_. 0"] p [of "\<lambda>x. if x = Cond then 11 else 0"] by (auto split: if_splits)
qed

text \<open>C39: \<open>sess_comp\<close> compares session numbers in their low 32 bits only: it returns their difference
  when that fits an \<open>int\<close>, and 0 exactly when they agree modulo \<open>2 ^ 32\<close>.\<close>

theorem sess_comp_low_bits:
  assumes "p \<noteq> NULL" "clients z p = Some c"
  shows "\<exists>r. sess_comp p session z = Some r
     \<and> (r = 0 \<longleftrightarrow> uint (session_id c) mod 2 ^ 32 = uint session mod 2 ^ 32)
     \<and> (- (2 ^ 31) \<le> uint (session_id c) - uint session \<and> uint (session_id c) - uint session < 2 ^ 31
          \<longrightarrow> r = uint (session_id c) - uint session)"
proof -
  let ?d = "uint (session_id c) - uint session"
  have r: "sint (ucast (session_id c - session) :: 32 word) = signed_take_bit 31 ?d"
  proof -
    have "session_id c - session = word_of_int ?d" by simp
    then have "(ucast (session_id c - session) :: 32 word) = word_of_int (take_bit 64 ?d)"
      by (simp only: unsigned_of_int) simp
    also have "\<dots> = word_of_int ?d" by (rule word_of_int_eq_iff [THEN iffD2]) (simp add: take_bit_take_bit)
    finally show ?thesis by (simp only: signed_of_int) simp
  qed
  have z: "signed_take_bit 31 ?d = 0 \<longleftrightarrow> ?d mod 2 ^ 32 = 0"
    using signed_take_bit_eq_iff_take_bit_eq [of 31 ?d 0] by (simp add: take_bit_eq_mod)
  have "?d mod 2 ^ 32 = 0 \<longleftrightarrow> uint (session_id c) mod 2 ^ 32 = uint session mod 2 ^ 32"
    by (simp add: mod_eq_dvd_iff dvd_eq_mod_eq_0)
  then show ?thesis using assms z r signed_take_bit_int_eq_self [of 31 ?d] by (auto simp: sess_comp_def)
qed

theorem sess_comp_low_bits_witness:
  "\<exists>z. sess_comp 8 1 z = Some 4 \<and> sess_comp 8 (5 + 2 ^ 32) z = Some 0"
proof -
  let ?z = "(ex_chat [])\<lparr>clients := [8 \<mapsto> \<lparr>session_id = 5, p_addr = 0, fd = 0\<rparr>]\<rparr>"
  have "\<exists>r. sess_comp 8 1 ?z = Some r \<and> r = 4" using sess_comp_low_bits [of 8 ?z _ 1] by simp
  moreover have "\<exists>r. sess_comp 8 (5 + 2 ^ 32) ?z = Some r \<and> r = 0" using sess_comp_low_bits [of 8 ?z _ "5 + 2 ^ 32"] by simp
  ultimately show ?thesis by blast
qed

end
