(* ===== verification/CText.thy ===== *)
theory CText
  imports CString
begin

text \<open>
  Functions of \<open>string.h\<close>, \<open>stdio.h\<close> and \<open>stdlib.h\<close> on character arrays that are values: local
  arrays, and arrays inside a struct. \<open>None\<close> is undefined behaviour, here an access past the end.
\<close>

text \<open>The length of the string that starts an array, at most that of the array.\<close>

definition arr_len :: "byte list \<Rightarrow> nat" where
  "arr_len bs = length (takeWhile (\<lambda>c. c \<noteq> 0) bs)"

text \<open>\<open>strncat(dst, src, n)\<close>, where \<open>src\<close> is the array from the source address on.\<close>

definition strncat :: "byte list \<Rightarrow> byte list \<Rightarrow> nat \<Rightarrow> byte list option" where
  "strncat dst src n =
     (let s = takeWhile (\<lambda>c. c \<noteq> 0) (take n src); k = arr_len dst
      in if (0 \<in> set (take n src) \<or> n \<le> length src) \<and> k + length s < length dst
         then Some (take k dst @ s @ 0 # drop (k + length s + 1) dst) else None)"

definition is_space :: "byte \<Rightarrow> bool" where
  "is_space c \<longleftrightarrow> c = 32 \<or> 9 \<le> c \<and> c \<le> 13"

definition is_digit :: "byte \<Rightarrow> bool" where
  "is_digit c \<longleftrightarrow> 48 \<le> c \<and> c \<le> 57"

definition digits :: "byte list \<Rightarrow> int" where
  "digits s = foldl (\<lambda>n c. 10 * n + (uint c - 48)) 0 (takeWhile is_digit s)"

text \<open>
  \<open>strtol(s, NULL, 10)\<close>. The strings of these programs have at most three characters, so the limits
  of \<open>long\<close> play no role. \<open>strtoul\<close> negates in 64 bits.
\<close>

definition strtol :: "byte list \<Rightarrow> int" where
  "strtol s = (case dropWhile is_space s of
     [] \<Rightarrow> 0
   | c # cs \<Rightarrow> if c = 45 then - digits cs else if c = 43 then digits cs else digits (c # cs))"

definition strtoul :: "byte list \<Rightarrow> 64 word" where
  "strtoul s = of_int (strtol s)"

text \<open>\<open>%d\<close> of a number that is not negative.\<close>

definition digit :: "nat \<Rightarrow> byte" where
  "digit n = of_nat (48 + n)"

fun dec :: "nat \<Rightarrow> byte list" where
  "dec n = (if n < 10 then [digit n] else dec (n div 10) @ [digit (n mod 10)])"

declare dec.simps [simp del]

text \<open>\<open>fgets(buff, n, stdin)\<close>: the array and the rest of the input. At its end nothing changes.\<close>

definition fgets :: "nat \<Rightarrow> byte list \<Rightarrow> byte list \<Rightarrow> byte list \<times> byte list" where
  "fgets n buff inp =
     (if inp = [] then (buff, [])
      else let line = take (n - 1) (takeWhile (\<lambda>c. c \<noteq> 10) inp @ (if 10 \<in> set inp then [10] else []))
      in (line @ 0 # drop (length line + 1) buff, drop (length line) inp))"

text \<open>\<open>strtok\<close> with the delimiter ",": the next token, if any, and what follows it.\<close>

definition strtok :: "byte list \<Rightarrow> byte list option \<times> byte list" where
  "strtok s = (let s = dropWhile (\<lambda>c. c = 44) s
     in if s = [] then (None, [])
        else (Some (takeWhile (\<lambda>c. c \<noteq> 44) s), drop 1 (dropWhile (\<lambda>c. c \<noteq> 44) s)))"

text \<open>\<open>0 == strncmp(s, t, n)\<close> for two strings.\<close>

definition same_prefix :: "nat \<Rightarrow> byte list \<Rightarrow> byte list \<Rightarrow> bool" where
  "same_prefix n s t \<longleftrightarrow> take n (s @ [0]) = take n (t @ [0])"

section \<open>Lemmas\<close>

lemma takeWhile_upto: "x \<notin> set s \<Longrightarrow> takeWhile (\<lambda>c. c \<noteq> x) (s @ x # t) = s"
  by (induction s) auto

lemma takeWhile_not: "x \<notin> set s \<Longrightarrow> takeWhile (\<lambda>c. c \<noteq> x) s = s"
  by (induction s) auto

lemma cstr_nul: "0 \<notin> set s \<Longrightarrow> cstr (s @ 0 # t) = Some s"
  by (simp add: cstr_def takeWhile_upto)

lemma arr_len_nul: "0 \<notin> set s \<Longrightarrow> arr_len (s @ 0 # t) = length s"
  by (simp add: arr_len_def takeWhile_upto)

lemma arr_len_take: "0 \<notin> set s \<Longrightarrow> length s < k \<Longrightarrow> arr_len (take k (s @ 0 # t)) = length s"
  by (cases "k - length s") (simp_all add: arr_len_nul)

text \<open>Appending to a string that is followed by zeros.\<close>

lemma strncat_zeros:
  assumes "0 \<notin> set s" "0 \<notin> set (take n src)" "n \<le> length src" "n \<le> k"
  shows "strncat (s @ replicate (Suc k) 0) src n = Some (s @ take n src @ replicate (Suc (k - n)) 0)"
proof -
  have l: "arr_len (s @ replicate (Suc k) 0) = length s" using arr_len_nul [OF assms(1)] by simp
  have t: "takeWhile (\<lambda>c. c \<noteq> 0) (take n src) = take n src" by (rule takeWhile_not [OF assms(2)])
  show ?thesis unfolding strncat_def l t Let_def using assms(3,4) by (simp add: min_absorb1)
qed

lemma fgets_line:
  assumes "10 \<notin> set s" "length s + 1 < n"
  shows "fgets n buff (s @ 10 # rest) = (s @ 10 # 0 # drop (length s + 2) buff, rest)"
  using assms by (simp add: fgets_def takeWhile_upto)

lemma dec_digit: "n < 10 \<Longrightarrow> dec n = [digit n]"
  by (simp add: dec.simps)

lemma dec_two: "10 \<le> n \<Longrightarrow> n < 100 \<Longrightarrow> dec n = [digit (n div 10), digit (n mod 10)]"
  using dec.simps [of n] dec_digit [of "n div 10"] by simp

lemma unat_digit: "n < 10 \<Longrightarrow> unat (digit n) = 48 + n"
  unfolding digit_def unat_of_nat by simp

lemma uint_digit: "n < 10 \<Longrightarrow> uint (digit n) = 48 + int n"
  using unat_digit [of n] by (simp add: uint_nat)

lemma is_digit_digit: "n < 10 \<Longrightarrow> is_digit (digit n)"
  by (simp add: is_digit_def word_le_nat_alt unat_digit)

lemma digit_facts:
  assumes "n < 10"
  shows "\<not> is_space (digit n)" "digit n \<noteq> 45" "digit n \<noteq> 43" "digit n \<noteq> 0" "digit n \<noteq> 10" "digit n \<noteq> 44"
  using unat_digit [OF assms] assms by (auto simp: is_space_def word_le_nat_alt word_unat_eq_iff)

lemma dec_chars:
  assumes "10 \<le> n" "n < 100"
  shows "length (dec n) = 2" "0 \<notin> set (dec n)" "10 \<notin> set (dec n)" "44 \<notin> set (dec n)"
proof -
  have d: "n div 10 < 10" "n mod 10 < 10" using assms by simp_all
  show "length (dec n) = 2" "0 \<notin> set (dec n)" "10 \<notin> set (dec n)" "44 \<notin> set (dec n)"
    using digit_facts(4-6) [OF d(1)] digit_facts(4-6) [OF d(2)] by (auto simp: dec_two [OF assms])
qed

lemma strtol_dec:
  assumes "10 \<le> n" "n < 100"
  shows "strtol (dec n) = int n" "strtol (dec n @ [10]) = int n"
proof -
  have a: "n div 10 < 10" "n mod 10 < 10" using assms by simp_all
  have s: "takeWhile is_digit (dec n) = dec n" "takeWhile is_digit (dec n @ [10]) = dec n"
    using is_digit_digit [OF a(1)] is_digit_digit [OF a(2)] unfolding dec_two [OF assms] by (simp_all add: is_digit_def)
  have "10 * int (n div 10) + int (n mod 10) = int (10 * (n div 10) + n mod 10)" by (simp only: of_nat_add of_nat_mult of_nat_numeral)
  also have "\<dots> = int n" by (simp only: mult_div_mod_eq)
  finally have v: "foldl (\<lambda>n c. 10 * n + (uint c - 48)) 0 (dec n) = int n"
    unfolding dec_two [OF assms] using uint_digit [OF a(1)] uint_digit [OF a(2)] by simp
  have d: "digits (dec n) = int n" "digits (dec n @ [10]) = int n" using s v by (simp_all only: digits_def)
  show "strtol (dec n) = int n" "strtol (dec n @ [10]) = int n"
    using d digit_facts(1-3) [OF a(1)] unfolding strtol_def dec_two [OF assms] by simp_all
qed

end
