(* ===== verification/Arena.thy ===== *)
theory Arena
  imports CText CSocket
begin

text \<open>
  The server of the fighting game: Client-Server-Networking/server.c, which pairs the players, and
  worker.c, whose \<open>decide_winner\<close> is the job of every fight.

  The arena's memory has one map per type of object, and next to it what the rest of the world
  sees and decides: the messages, closed sockets and log lines in their order, which calls of
  \<open>close\<close> fail, and the numbers \<open>rand\<close> gives after the \<open>n\<close>-th call of \<open>srand\<close>. A line of the log is its type
  and status; the time, the address and the port in it are left out, and so is the output on the
  terminal.
\<close>

section \<open>State\<close>

record fighter_t =
  name :: "byte list"
  attack :: byte
  dodge :: byte
  luck :: byte
  health :: int

record file_t =
  log_type :: string
  log_status :: string

record fight_data_t =
  pp_fighter :: ptr
  client_fds :: ptr
  p_file_struct :: ptr

datatype effect = Sent int "byte list" | Closed int | Logged string string

record arena = heap +
  fighters :: "ptr \<rightharpoonup> fighter_t"
  fighter_arrs :: "ptr \<rightharpoonup> ptr list"
  fd_arrs :: "ptr \<rightharpoonup> int list"
  fight_datas :: "ptr \<rightharpoonup> fight_data_t"
  log_files :: "ptr \<rightharpoonup> file_t"
  log_open :: bool
  running :: bool
  effects :: "effect list"
  close_fails :: "int \<Rightarrow> bool"
  seeds :: nat
  rand :: "nat \<Rightarrow> nat \<Rightarrow> nat"

definition effect :: "effect \<Rightarrow> arena \<Rightarrow> arena" where
  "effect x h = h\<lparr>effects := effects h @ [x]\<rparr>"

definition set_fighter :: "ptr \<Rightarrow> fighter_t \<Rightarrow> arena \<Rightarrow> arena option" where
  "set_fighter p f h = map_option (\<lambda>m. h\<lparr>fighters := m\<rparr>) (modify p (\<lambda>_. f) (fighters h))"

definition set_slot :: "ptr \<Rightarrow> nat \<Rightarrow> ptr \<Rightarrow> arena \<Rightarrow> arena option" where
  "set_slot p i x h = map_option (\<lambda>m. h\<lparr>fighter_arrs := m\<rparr>) (modify p (\<lambda>xs. xs[i := x]) (fighter_arrs h))"

definition set_sock :: "ptr \<Rightarrow> nat \<Rightarrow> int \<Rightarrow> arena \<Rightarrow> arena option" where
  "set_sock p i x h = map_option (\<lambda>m. h\<lparr>fd_arrs := m\<rparr>) (modify p (\<lambda>xs. xs[i := x]) (fd_arrs h))"

definition upd_data :: "ptr \<Rightarrow> (fight_data_t \<Rightarrow> fight_data_t) \<Rightarrow> arena \<Rightarrow> arena option" where
  "upd_data p f h = map_option (\<lambda>m. h\<lparr>fight_datas := m\<rparr>) (modify p f (fight_datas h))"

definition upd_log :: "ptr \<Rightarrow> (file_t \<Rightarrow> file_t) \<Rightarrow> arena \<Rightarrow> arena option" where
  "upd_log p f h = map_option (\<lambda>m. h\<lparr>log_files := m\<rparr>) (modify p f (log_files h))"

text \<open>\<open>FREE\<close>: nothing happens to a null pointer.\<close>

definition free_fighter :: "ptr \<Rightarrow> arena \<Rightarrow> arena option" where
  "free_fighter p h = (if p = NULL then Some h else map_option (\<lambda>m. h\<lparr>fighters := m\<rparr>) (release p (fighters h)))"

definition free_fighter_arr :: "ptr \<Rightarrow> arena \<Rightarrow> arena option" where
  "free_fighter_arr p h = (if p = NULL then Some h else map_option (\<lambda>m. h\<lparr>fighter_arrs := m\<rparr>) (release p (fighter_arrs h)))"

definition free_fds :: "ptr \<Rightarrow> arena \<Rightarrow> arena option" where
  "free_fds p h = (if p = NULL then Some h else map_option (\<lambda>m. h\<lparr>fd_arrs := m\<rparr>) (release p (fd_arrs h)))"

definition free_data :: "ptr \<Rightarrow> arena \<Rightarrow> arena option" where
  "free_data p h = (if p = NULL then Some h else map_option (\<lambda>m. h\<lparr>fight_datas := m\<rparr>) (release p (fight_datas h)))"

definition free_log :: "ptr \<Rightarrow> arena \<Rightarrow> arena option" where
  "free_log p h = (if p = NULL then Some h else map_option (\<lambda>m. h\<lparr>log_files := m\<rparr>) (release p (log_files h)))"

definition calloc_with :: "nat \<Rightarrow> (ptr \<Rightarrow> arena \<Rightarrow> arena) \<Rightarrow> arena \<Rightarrow> ptr \<times> arena" where
  "calloc_with sz new h = (let (p, h) = calloc sz h in (p, if p = NULL then h else new p h))"

definition write_log :: "ptr \<Rightarrow> arena \<Rightarrow> arena option" where
  "write_log p h = do {
     l \<leftarrow> log_files h p;
     if log_open h then Some (effect (Logged (log_type l) (log_status l)) h) else None
   }"

definition close :: "int \<Rightarrow> arena \<Rightarrow> bool \<times> arena" where
  "close fd h = (\<not> close_fails h fd, effect (Closed fd) h)"

section \<open>A player's message\<close>

definition check_packet :: "byte list option \<Rightarrow> bool" where
  "check_packet client_msg \<longleftrightarrow> client_msg \<noteq> None"

text \<open>The loop that copies the name, from \<open>iter\<close> on.\<close>

function copy_name :: "byte list \<Rightarrow> int \<Rightarrow> int \<Rightarrow> byte list \<Rightarrow> byte list option" where
  "copy_name from_client iter name_len dst =
     (if iter < name_len + 1 then do {
        let client_char = from_client ! nat iter;
        dst \<leftarrow> strncat dst [client_char] 1;
        copy_name from_client (iter + 1) name_len dst
      } else Some dst)"
  by pat_completeness auto
termination by (relation "measure (\<lambda>(_, iter, name_len, _). nat (name_len + 1 - iter))") auto

declare copy_name.simps [simp del]

definition read_number :: "byte list \<Rightarrow> int \<Rightarrow> byte option" where
  "read_number from_client i =
     (if i < 0 then None
      else do {
        s \<leftarrow> strncat [0, 0, 0] (drop (nat i) from_client) 2;
        s \<leftarrow> cstr s;
        Some (ucast (strtoul s))
      })"

text \<open>The fighter of a message, in the array of 1024 bytes.\<close>

definition read_fighter :: "byte list \<Rightarrow> fighter_t option" where
  "read_fighter from_client = do {
     let name_len = sint (from_client ! 0) - 48;
     nm \<leftarrow> copy_name from_client 1 name_len (replicate 10 0);
     let start = name_len + 1;
     a \<leftarrow> read_number from_client start;
     d \<leftarrow> read_number from_client (start + 2);
     l \<leftarrow> read_number from_client (start + 4);
     Some \<lparr>name = nm, attack = a, dodge = d, luck = l, health = 0\<rparr>
   }"

definition HELLO :: "byte list" where
  "HELLO = [72, 101, 108, 108, 111, 32, 102, 114, 111, 109, 32, 116, 104, 101, 32, 115, 101, 114, 118, 101, 114, 46]"

definition arena_sighandler :: "arena \<Rightarrow> arena" where
  "arena_sighandler h = h\<lparr>running := False\<rparr>"

text \<open>
  \<open>handle_connections\<close>. It waits for a message (\<open>None\<close> when a signal comes first, and \<open>[]\<close> when the player
  is gone), of which it takes 1024 bytes. The three strings of digits are allocated and freed.
\<close>

definition handle_connections :: "int \<Rightarrow> byte list option \<Rightarrow> arena \<Rightarrow> (ptr \<times> arena) option" where
  "handle_connections client_sock msg h =
     (let h = effect (Sent client_sock HELLO) h
      in case msg of
        None \<Rightarrow> Some (NULL, arena_sighandler h)
      | Some bs \<Rightarrow>
          let from_client = take 1024 bs @ replicate (1024 - length bs) 0
          in if \<not> check_packet (Some from_client) \<or> from_client ! 0 = 0
             then let (_, h) = close client_sock h in Some (NULL, h)
             else
               let (p_fighter, h) = calloc 20 h;
                   (attack_str, h) = calloc 3 h;
                   (dodge_str, h) = calloc 3 h;
                   (luck_str, h) = calloc 3 h
               in if p_fighter = NULL \<or> attack_str = NULL \<or> dodge_str = NULL \<or> luck_str = NULL then None
                  else do {
                    f \<leftarrow> read_fighter from_client;
                    Some (p_fighter, h\<lparr>fighters := (fighters h)(p_fighter \<mapsto> f)\<rparr>)
                  })"

section \<open>A fight\<close>

text \<open>The damage that \<open>f\<close> does to \<open>g\<close> in one round, for the two random numbers of the attack.\<close>

definition damage :: "nat \<Rightarrow> nat \<Rightarrow> fighter_t \<Rightarrow> fighter_t \<Rightarrow> int" where
  "damage rand1 rand2 f g =
     (if rand1 > unat (dodge g)
      then if rand2 \<le> unat (luck f) then 2 * uint (attack f) else uint (attack f)
      else 0)"

definition fight_round :: "(nat \<Rightarrow> nat) \<Rightarrow> nat \<Rightarrow> fighter_t \<times> fighter_t \<Rightarrow> fighter_t \<times> fighter_t" where
  "fight_round rnd i = (\<lambda>(f1, f2).
     let rand1 = rnd i mod 100;
         rand2 = rnd (i + 1) mod 100;
         rand3 = rnd (i + 2) mod 100;
         rand4 = rnd (i + 3) mod 100;
         f2 = f2\<lparr>health := health f2 - damage rand1 rand2 f1 f2\<rparr>;
         f1 = f1\<lparr>health := health f1 - damage rand3 rand4 f2 f1\<rparr>
     in (f1, f2))"

text \<open>The rounds, from the \<open>i\<close>-th random number on. A fight may have no end.\<close>

partial_function (option) fight_loop :: "(nat \<Rightarrow> nat) \<Rightarrow> nat \<Rightarrow> fighter_t \<Rightarrow> fighter_t \<Rightarrow> (fighter_t \<times> fighter_t) option" where
  "fight_loop rnd i f1 f2 =
     (if health f1 > 0 \<and> health f2 > 0
      then let (f1, f2) = fight_round rnd i (f1, f2) in fight_loop rnd (i + 4) f1 f2
      else Some (f1, f2))"

definition TIE :: "byte list" where "TIE = [84, 73, 69, 33]"

text \<open>The message to both players: what is sent of a buffer of 30 bytes.\<close>

definition result_msg :: "fighter_t \<Rightarrow> fighter_t \<Rightarrow> byte list option" where
  "result_msg f1 f2 = do {
     n1 \<leftarrow> cstr (name f1);
     n2 \<leftarrow> cstr (name f2);
     let (name_len, buffer) =
       (if health f1 > health f2 then (arr_len (name f1) + arr_len (name f2) + 2, n1 @ [44] @ n2)
        else if health f1 < health f2 then (arr_len (name f2) + arr_len (name f1) + 2, n2 @ [44] @ n1)
        else (4 + arr_len (name f1) + arr_len (name f2) + 3, TIE @ [44] @ n1 @ [44] @ n2));
     let text = take (name_len - 1) buffer @ [0];
     if length text \<le> 30 then Some (take name_len (text @ replicate (30 - length text) 0)) else None
   }"

text \<open>\<open>decide_winner\<close>. The end of the two connections is logged in the same way.\<close>

definition close_player :: "ptr \<Rightarrow> int \<Rightarrow> arena \<Rightarrow> arena option" where
  "close_player p_file fd h = do {
     let (ok, h) = close fd h;
     h \<leftarrow> upd_log p_file (\<lambda>l. l\<lparr>log_status := (if ok then ''Success'' else ''Failure'')\<rparr>) h;
     h \<leftarrow> upd_log p_file (\<lambda>l. l\<lparr>log_type := ''Disconnection''\<rparr>) h;
     write_log p_file h
   }"

definition decide_winner :: "ptr \<Rightarrow> arena \<Rightarrow> arena option" where
  "decide_winner p_data h = do {
     data \<leftarrow> fight_datas h p_data;
     pp_fighters \<leftarrow> fighter_arrs h (pp_fighter data);
     let p_fighter1 = pp_fighters ! 0;
     let p_fighter2 = pp_fighters ! 1;
     let rnd = rand h (seeds h);
     let h = h\<lparr>seeds := Suc (seeds h)\<rparr>;
     f1 \<leftarrow> fighters h p_fighter1;
     f2 \<leftarrow> fighters h p_fighter2;
     (f1, f2) \<leftarrow> fight_loop rnd 0 (f1\<lparr>health := 100\<rparr>) (f2\<lparr>health := 100\<rparr>);
     h \<leftarrow> set_fighter p_fighter1 f1 h;
     h \<leftarrow> set_fighter p_fighter2 f2 h;
     msg \<leftarrow> result_msg f1 f2;
     fds \<leftarrow> fd_arrs h (client_fds data);
     let h = effect (Sent (fds ! 0) msg) h;
     let h = effect (Sent (fds ! 1) msg) h;
     h \<leftarrow> close_player (p_file_struct data) (fds ! 0) h;
     close_player (p_file_struct data) (fds ! 1) h
   }"

definition data_free :: "ptr \<Rightarrow> arena \<Rightarrow> arena option" where
  "data_free p_data h = do {
     data \<leftarrow> fight_datas h p_data;
     arr \<leftarrow> fighter_arrs h (pp_fighter data);
     h \<leftarrow> free_fighter (arr ! 0) h;
     h \<leftarrow> set_slot (pp_fighter data) 0 NULL h;
     h \<leftarrow> free_fighter (arr ! 1) h;
     h \<leftarrow> set_slot (pp_fighter data) 1 NULL h;
     h \<leftarrow> free_fighter_arr (pp_fighter data) h;
     h \<leftarrow> upd_data p_data (\<lambda>d. d\<lparr>pp_fighter := NULL\<rparr>) h;
     h \<leftarrow> set_sock (client_fds data) 0 0 h;
     h \<leftarrow> set_sock (client_fds data) 1 0 h;
     h \<leftarrow> free_fds (client_fds data) h;
     upd_data p_data (\<lambda>d. d\<lparr>client_fds := NULL\<rparr>) h
   }"

text \<open>\<open>execute_job\<close> of the pool, whose jobs here all are \<open>decide_winner\<close> with \<open>data_free\<close>.\<close>

definition run_fight :: "ptr \<Rightarrow> arena \<Rightarrow> arena option" where
  "run_fight p_data h = do { h \<leftarrow> decide_winner p_data h; data_free p_data h }"

fun run_fights :: "ptr list \<Rightarrow> arena \<Rightarrow> arena option" where
  "run_fights [] h = Some h"
| "run_fights (p # js) h = do { h \<leftarrow> run_fight p h; run_fights js h }"

section \<open>The socket\<close>

record game_server_t =
  domain :: int
  protocol :: int
  service :: int
  interface :: "32 word"
  port :: "32 word"
  backlog :: "32 word"
  addr :: sockaddr_in
  socket :: int

text \<open>
  \<open>set_params\<close>, given what \<open>inet_addr\<close>, \<open>socket\<close>, \<open>bind\<close> and \<open>listen\<close> return: the calls made, and the server or
  the status of \<open>exit\<close>. The field \<open>ip\<close> is never set.
\<close>

definition set_params :: "(string \<Rightarrow> 32 word) \<Rightarrow> int \<Rightarrow> int \<Rightarrow> int \<Rightarrow> int \<Rightarrow> int \<Rightarrow> int \<Rightarrow> 32 word \<Rightarrow> 32 word \<Rightarrow> 32 word
    \<Rightarrow> string \<Rightarrow> syscall list \<times> (int + game_server_t)" where
  "set_params inet_addr server_sock bind_status listen_status fam proto serv iface prt blog ip =
     (let a = \<lparr>sin_family = fam, sin_port = htons (ucast prt), sin_addr = inet_addr ip\<rparr>;
          server = \<lparr>domain = fam, protocol = proto, service = serv, interface = iface, port = prt, backlog = blog,
            addr = a, socket = server_sock\<rparr>;
          calls = [Socket fam serv proto, Setsockopt server_sock]
      in if 0 > server_sock then (calls, Inl 1)
         else let calls = calls @ [Bind server_sock a]
         in if 0 > bind_status then (calls, Inl 1)
         else let calls = calls @ [Listen server_sock blog]
         in if 0 > listen_status then (calls, Inl 1) else (calls, Inr server))"

text \<open>
  The port number in the configuration file, of which 100 bytes are read into an array that has no
  terminator of its own.
\<close>

definition config_port :: "byte list \<Rightarrow> int option" where
  "config_port file = do {
     let config_buff = dropWhile (\<lambda>c. c = 44) (take 100 file);
     if 44 \<in> set config_buff \<or> 0 \<in> set config_buff
     then do {
       port_str \<leftarrow> fst (strtok (takeWhile (\<lambda>c. c \<noteq> 0) config_buff));
       Some (sint (of_int (strtol port_str) :: 32 word))
     } else None
   }"

section \<open>The main program\<close>

text \<open>\<open>tpool_add_job\<close>: a job and its queue node of 32 bytes; a failure of the second is not noticed.\<close>

definition add_fight :: "ptr \<Rightarrow> ptr \<Rightarrow> ptr list \<Rightarrow> arena \<Rightarrow> ptr list \<times> arena" where
  "add_fight p_tpool p_data js h =
     (if p_tpool = NULL then (js, h)
      else let (p, h) = calloc 24 h
      in if p = NULL then (js, h)
      else let (node, h) = calloc 32 h in (if node = NULL then js else js @ [p_data], h))"

definition new_fighters :: "arena \<Rightarrow> ptr \<times> arena" where
  "new_fighters = calloc_with 16 (\<lambda>p h. h\<lparr>fighter_arrs := (fighter_arrs h)(p \<mapsto> [NULL, NULL])\<rparr>)"

definition new_socks :: "arena \<Rightarrow> ptr \<times> arena" where
  "new_socks = calloc_with 8 (\<lambda>p h. h\<lparr>fd_arrs := (fd_arrs h)(p \<mapsto> [0, 0])\<rparr>)"

text \<open>
  What happens while \<open>main\<close> is in its loop: \<open>accept\<close> returns a socket or an error, with the message that
  the player sends on it; the pool runs the next fight; a signal arrives. Fights do not overlap, and a
  fight during the wait for a message is a fight before it.
\<close>

datatype arena_event = Join int "byte list option" | Fight | Interrupt

text \<open>The local variables of \<open>main\<close> that change.\<close>

record arena_locals =
  pp_fighters :: ptr
  client_socks :: ptr
  queued :: "ptr list"

text \<open>One round of the loop: what it leaves after \<open>accept\<close>.\<close>

definition match_one :: "ptr \<Rightarrow> ptr \<Rightarrow> ptr \<Rightarrow> int \<Rightarrow> byte list option \<Rightarrow> arena_locals \<Rightarrow> arena \<Rightarrow> (arena_locals \<times> arena) option" where
  "match_one p_tpool p_data p_file client_sock msg v h = do {
     h \<leftarrow> upd_log p_file (\<lambda>l. l\<lparr>log_type := ''Connection''\<rparr>) h;
     if 0 > client_sock then Some (v, h)
     else do {
       h \<leftarrow> upd_log p_file (\<lambda>l. l\<lparr>log_status := ''Success''\<rparr>) h;
       h \<leftarrow> write_log p_file h;
       arr \<leftarrow> fighter_arrs h (pp_fighters v);
       if arr ! 0 = NULL then do {
         (p, h) \<leftarrow> handle_connections client_sock msg h;
         h \<leftarrow> set_slot (pp_fighters v) 0 p h;
         h \<leftarrow> set_sock (client_socks v) 0 client_sock h;
         Some (v, h)
       } else do {
         (go_on, h) \<leftarrow> (if arr ! 1 = NULL then do {
             (p, h) \<leftarrow> handle_connections client_sock msg h;
             h \<leftarrow> set_slot (pp_fighters v) 1 p h;
             if p = NULL then Some (False, h)
             else do { h \<leftarrow> set_sock (client_socks v) 1 client_sock h; Some (True, h) }
           } else Some (True, h));
         if \<not> go_on then Some (v, h)
         else do {
           h \<leftarrow> upd_data p_data (\<lambda>_. \<lparr>pp_fighter = pp_fighters v, client_fds = client_socks v, p_file_struct = p_file\<rparr>) h;
           let (js, h) = add_fight p_tpool p_data (queued v) h;
           let (pf, h) = new_fighters h;
           let (cs, h) = new_socks h;
           Some (\<lparr>pp_fighters = pf, client_socks = cs, queued = js\<rparr>, h)
         }
       }
     }
   }"

fun arena_loop :: "ptr \<Rightarrow> ptr \<Rightarrow> ptr \<Rightarrow> arena_event list \<Rightarrow> arena_locals \<Rightarrow> arena \<Rightarrow> (arena_locals \<times> arena) option" where
  "arena_loop p_tpool p_data p_file [] v h = (if running h then None else Some (v, h))"
| "arena_loop p_tpool p_data p_file (ev # evs) v h =
     (if \<not> running h then Some (v, h)
      else case ev of
        Join client_sock msg \<Rightarrow> do {
          (v, h) \<leftarrow> match_one p_tpool p_data p_file client_sock msg v h;
          arena_loop p_tpool p_data p_file evs v h
        }
      | Fight \<Rightarrow> (case queued v of
          [] \<Rightarrow> arena_loop p_tpool p_data p_file evs v h
        | p # js \<Rightarrow> do {
            h \<leftarrow> run_fight p h;
            arena_loop p_tpool p_data p_file evs (v\<lparr>queued := js\<rparr>) h
          })
      | Interrupt \<Rightarrow> arena_loop p_tpool p_data p_file evs v (arena_sighandler h))"

text \<open>The end of \<open>main\<close>. The fights that still wait are run by \<open>tpool_destroy\<close>, after everything is freed.\<close>

definition arena_shut_down :: "ptr \<Rightarrow> ptr \<Rightarrow> arena_locals \<Rightarrow> arena \<Rightarrow> arena option" where
  "arena_shut_down p_data p_file v h = do {
     let h = h\<lparr>log_open := False\<rparr>;
     arr \<leftarrow> fighter_arrs h (pp_fighters v);
     h \<leftarrow> free_fighter (arr ! 0) h;
     h \<leftarrow> free_fighter (arr ! 1) h;
     h \<leftarrow> free_log p_file h;
     h \<leftarrow> free_fighter_arr (pp_fighters v) h;
     h \<leftarrow> free_fds (client_socks v) h;
     h \<leftarrow> free_data p_data h;
     run_fights (queued v) h
   }"

text \<open>
  \<open>main\<close>, given the contents of the configuration file (\<open>None\<close> when it cannot be opened), the result of
  \<open>set_params\<close> for the port, and of \<open>tpool_create\<close>: its exit status and the final state. The log file is open.
\<close>

definition arena_main :: "byte list option \<Rightarrow> (int \<Rightarrow> int + game_server_t) \<Rightarrow> ptr \<Rightarrow> arena_event list \<Rightarrow> arena \<Rightarrow> (int \<times> arena) option" where
  "arena_main config net p_tpool evs h = do {
     let (pf, h) = new_fighters h;
     let (cs, h) = new_socks h;
     let (p_data, h) = calloc_with 24 (\<lambda>p h. h\<lparr>fight_datas := (fight_datas h)
            (p \<mapsto> \<lparr>pp_fighter = NULL, client_fds = NULL, p_file_struct = NULL\<rparr>)\<rparr>) h;
     file \<leftarrow> config;
     port_num \<leftarrow> config_port file;
     let (p_file, h) = calloc_with 48 (\<lambda>p h. h\<lparr>log_files := (log_files h)(p \<mapsto> \<lparr>log_type = [], log_status = []\<rparr>)\<rparr>) h;
     if p_file = NULL then None
     else case net port_num of
       Inl status \<Rightarrow> Some (status, h)
     | Inr server \<Rightarrow> do {
         (v, h) \<leftarrow> arena_loop p_tpool p_data p_file evs \<lparr>pp_fighters = pf, client_socks = cs, queued = []\<rparr> h;
         h \<leftarrow> arena_shut_down p_data p_file v h;
         Some (0, h)
       }
   }"

end
