(* ===== verification/ArenaClient.thy ===== *)
theory ArenaClient
  imports CText
begin

text \<open>
  The player of the fighting game, Client-Server-Networking/client.c: what is read from the terminal
  becomes a request, and the server's reply a report. The input is the rest of \<open>stdin\<close>; the prompts
  and error messages on the terminal are left out. A loop that asks again without end, as it does
  when the input is over, has no result. \<open>luck_check\<close> is called nowhere and is not modelled.
\<close>

section \<open>Input\<close>

definition name_check :: "byte list \<Rightarrow> bool" where
  "name_check buff \<longleftrightarrow> \<not> 10 \<le> arr_len (take 11 buff)"

definition num_check :: "byte list \<Rightarrow> bool option" where
  "num_check buff = do {
     s \<leftarrow> cstr buff;
     let buff_int = strtol s;
     Some (\<not> (buff_int > 80 \<or> 10 > buff_int))
   }"

text \<open>The two kinds of loops of \<open>input_val\<close>; \<open>g_name_buff\<close> has 100 bytes, the stats have 4.\<close>

partial_function (option) name_loop :: "byte list \<Rightarrow> byte list \<Rightarrow> (byte list \<times> byte list) option" where
  "name_loop buff inp =
     (if name_check buff then Some (buff, inp)
      else let (buff, inp) = fgets 100 buff inp in name_loop buff inp)"

partial_function (option) stat_loop :: "byte list \<Rightarrow> byte list \<Rightarrow> (byte list \<times> byte list) option" where
  "stat_loop buff inp = do {
     ok \<leftarrow> num_check buff;
     if ok then Some (buff, inp)
     else let (buff, inp) = fgets 4 buff inp in stat_loop buff inp
   }"

definition read_stat :: "byte list \<Rightarrow> (byte list \<times> byte list) option" where
  "read_stat inp = do {
     let (buff, inp) = fgets 4 (replicate 4 0) inp;
     (buff, inp) \<leftarrow> stat_loop buff inp;
     Some (buff[2 := 0], inp)
   }"

text \<open>
  \<open>input_val\<close>: the buffer (\<open>None\<close> for \<open>NULL\<close>) up to its terminator, \<open>g_name_buff\<close> and the rest of the
  input. An empty line is a name of length 0; a name of no characters at all makes the code write
  before the array.
\<close>

definition input_val :: "byte list \<Rightarrow> (byte list option \<times> byte list \<times> byte list) option" where
  "input_val inp = do {
     let (g_name_buff, inp) = fgets 100 (replicate 100 0) inp;
     (g_name_buff, inp) \<leftarrow> name_loop g_name_buff inp;
     let n = arr_len (take 10 g_name_buff);
     if n = 0 then None
     else do {
       let name_len = n - 1;
       let g_name_buff = g_name_buff[name_len := 0];
       (atk_buff, inp) \<leftarrow> read_stat inp;
       (dodge_buff, inp) \<leftarrow> read_stat inp;
       atk \<leftarrow> cstr atk_buff;
       dodge \<leftarrow> cstr dodge_buff;
       let luck_int = 100 - strtol atk - strtol dodge;
       if luck_int > 80 \<or> luck_int < 10 then Some (None, g_name_buff, inp)
       else do {
         name \<leftarrow> cstr g_name_buff;
         let luck = take 2 (dec (nat luck_int));
         Some (Some (take (name_len + 10) (dec name_len @ name @ atk @ dodge @ luck)), g_name_buff, inp)
       }
     }
   }"

text \<open>The loop of \<open>main\<close> around it: the request, the player's name and the rest of the input.\<close>

partial_function (option) client_request :: "byte list \<Rightarrow> (byte list \<times> byte list \<times> byte list) option" where
  "client_request inp = do {
     (p_buffer, g_name_buff, inp) \<leftarrow> input_val inp;
     case p_buffer of
       None \<Rightarrow> client_request inp
     | Some msg \<Rightarrow> do { name \<leftarrow> cstr g_name_buff; Some (msg, name, inp) }
   }"

section \<open>The report\<close>

datatype line = Matchup "byte list" "byte list" | Tied "byte list" "byte list" | The_winner "byte list"

text \<open>
  What \<open>main\<close> prints of the reply, for a player \<open>name\<close>. The buffer of 1024 bytes was cleared.
  \<open>sizeof(*winner)\<close> is 1, so only first characters are compared.
\<close>

definition client_report :: "byte list \<Rightarrow> byte list \<Rightarrow> line list option" where
  "client_report name reply = do {
     text \<leftarrow> cstr (take 1024 reply @ replicate (1024 - length reply) 0);
     let (winner, rest) = strtok text;
     let (loser, rest) = strtok rest;
     winner \<leftarrow> winner;
     let b_tie = same_prefix 4 winner [84, 73, 69, 33];
     let winner = (if b_tie then loser else Some winner);
     let loser = (if b_tie then fst (strtok rest) else loser);
     winner \<leftarrow> winner;
     loser \<leftarrow> loser;
     Some ((if same_prefix 1 name winner then [Matchup name loser]
            else if same_prefix 1 name loser then [Matchup name winner] else [])
         @ (if b_tie then
              if same_prefix 1 name winner then [Tied name loser]
              else if same_prefix 1 name loser then [Tied name winner] else []
            else [The_winner winner]))
   }"

text \<open>\<open>main\<close>, given the results of \<open>socket\<close> and \<open>connect\<close>, the input and the reply: the exit status, what is
  sent and what is printed.\<close>

definition client_main :: "int \<Rightarrow> int \<Rightarrow> byte list \<Rightarrow> byte list \<Rightarrow> (int \<times> byte list option \<times> line list) option" where
  "client_main sock_status connect_status inp reply =
     (if 0 > sock_status then Some (-1, None, [])
      else if 0 > connect_status then Some (-1, None, [])
      else do {
        (p_buffer, name, inp) \<leftarrow> client_request inp;
        lines \<leftarrow> client_report name reply;
        Some (0, Some p_buffer, lines)
      })"

section \<open>What the input gives\<close>

definition stat_ok :: "nat \<Rightarrow> bool" where
  "stat_ok n \<longleftrightarrow> 10 \<le> n \<and> n \<le> 80"

definition name_ok :: "byte list \<Rightarrow> bool" where
  "name_ok name \<longleftrightarrow> 0 \<notin> set name \<and> 10 \<notin> set name \<and> length name \<le> 8"

lemma read_stat_dec:
  assumes "stat_ok n"
  shows "read_stat (dec n @ 10 # rest) = Some (dec n @ [0, 0], rest)"
proof -
  have n: "10 \<le> n" "n < 100" using assms by (simp_all add: stat_ok_def)
  have len: "length (dec n) = 2" by (rule dec_chars(1) [OF n])
  have free: "10 \<notin> set (dec n @ [])" "0 \<notin> set (dec n @ [10])" using dec_chars(2,3) [OF n] by simp_all
  have f: "fgets 4 (replicate 4 0) (dec n @ 10 # rest) = ((dec n @ [10]) @ 0 # [], rest)"
    using fgets_line [of "dec n" 4 "replicate 4 0" rest] free(1) len by simp
  have c: "cstr ((dec n @ [10]) @ 0 # []) = Some (dec n @ [10])" by (rule cstr_nul [OF free(2)])
  have ok: "num_check ((dec n @ [10]) @ 0 # []) = Some True"
    using assms c strtol_dec(2) [OF n] by (simp add: num_check_def stat_ok_def)
  have "((dec n @ [10]) @ 0 # [])[2 := 0] = dec n @ [0, 0]" using len by (simp add: list_update_append)
  then show ?thesis using f ok stat_loop.simps [of "(dec n @ [10]) @ 0 # []" rest] by (simp add: read_stat_def)
qed

lemma input_val_eval:
  assumes "fgets 100 (replicate 100 0) inp = (g, i0)" "name_loop g i0 = Some (g1, i1)" "arr_len (take 10 g1) = Suc n"
    and "read_stat i1 = Some (ab, i2)" "read_stat i2 = Some (db, i3)" "cstr ab = Some atk" "cstr db = Some dodge"
    and "100 - strtol atk - strtol dodge = L" "\<not> (L > 80 \<or> L < 10)" "cstr (g1[n := 0]) = Some name"
  shows "input_val inp = Some (Some (take (n + 10) (dec n @ name @ atk @ dodge @ take 2 (dec (nat L)))), g1[n := 0], i3)"
  using assms by (simp add: input_val_def Let_def)

lemma input_val_ok:
  assumes name: "name_ok name" and a: "stat_ok a" and d: "stat_ok d" and l: "stat_ok (100 - a - d)"
  shows "\<exists>g. input_val (name @ 10 # dec a @ 10 # dec d @ 10 # rest)
        = Some (Some (dec (length name) @ name @ dec a @ dec d @ dec (100 - a - d)), g, rest) \<and> cstr g = Some name"
proof -
  let ?in = "dec a @ 10 # dec d @ 10 # rest" and ?g = "name @ 10 # 0 # drop (length name + 2) (replicate 100 0)"
  have n: "0 \<notin> set name" "10 \<notin> set name" "length name \<le> 8" using name by (simp_all add: name_ok_def)
  have f: "fgets 100 (replicate 100 0) (name @ 10 # ?in) = (?g, ?in)" using fgets_line n by simp
  have free: "0 \<notin> set (name @ [10])" using n(1) by simp
  have len: "arr_len (take k ?g) = Suc (length name)" if "length name + 2 \<le> k" for k
    using arr_len_take [OF free, of k "drop (length name + 2) (replicate 100 0)"] that by simp
  have loop: "name_loop ?g ?in = Some (?g, ?in)"
    using len [of 11] n(3) name_loop.simps [of ?g ?in] by (simp add: name_check_def)
  have upd: "?g[length name := 0] = name @ 0 # 0 # drop (length name + 2) (replicate 100 0)" by (simp add: list_update_append)
  have cg: "cstr (name @ 0 # t) = Some name" for t by (rule cstr_nul [OF n(1)])
  have "0 \<notin> set (dec k)" if "stat_ok k" for k
    using that dec_chars(2) [of k] by (simp add: stat_ok_def)
  then have c: "cstr (dec k @ [0, 0]) = Some (dec k)" if "stat_ok k" for k using cstr_nul that by simp
  have v: "strtol (dec k) = int k" "length (dec k) = 2" if "stat_ok k" for k
    using strtol_dec(1) [of k] dec_chars(1) [of k] that by (simp_all add: stat_ok_def)
  have luck: "100 - int a - int d = int (100 - a - d)" using l unfolding stat_ok_def by linarith
  have fits: "take (length name + 10) (dec (length name) @ name @ dec a @ dec d @ take 2 (dec (100 - a - d)))
      = dec (length name) @ name @ dec a @ dec d @ dec (100 - a - d)"
    using n(3) v(2) [OF a] v(2) [OF d] v(2) [OF l] by (simp add: dec_digit)
  have out: "\<not> (int (100 - a - d) > 80 \<or> int (100 - a - d) < 10)" using l by (auto simp: stat_ok_def)
  have L: "100 - strtol (dec a) - strtol (dec d) = int (100 - a - d)" using v(1) [OF a] v(1) [OF d] luck by simp
  have cn: "cstr (?g[length name := 0]) = Some name" unfolding upd by (rule cg)
  have "input_val (name @ 10 # ?in) = Some (Some (dec (length name) @ name @ dec a @ dec d @ dec (100 - a - d)),
      ?g[length name := 0], rest)"
    using input_val_eval [OF f loop _ read_stat_dec [OF a] read_stat_dec [OF d] c [OF a] c [OF d] L out cn]
      len [of 10] n(3) fits by simp
  then have "input_val (name @ 10 # ?in) = Some (Some (dec (length name) @ name @ dec a @ dec d @ dec (100 - a - d)),
      name @ 0 # 0 # drop (length name + 2) (replicate 100 0), rest)" unfolding upd .
  then show ?thesis using cg by blast
qed

end
