(* ===== verification/ArenaFight.thy ===== *)
theory ArenaFight
  imports Arena ArenaClient
begin

text \<open>
  The fight as sums of damage, and the way of a player's stats from the terminal to the server and
  of the result back to the terminal.
\<close>

section \<open>The fight\<close>

text \<open>The damage that \<open>f\<close> has done to \<open>g\<close> after \<open>k\<close> rounds, where its random numbers begin at \<open>i\<close>.\<close>

definition dealt :: "(nat \<Rightarrow> nat) \<Rightarrow> nat \<Rightarrow> fighter_t \<Rightarrow> fighter_t \<Rightarrow> nat \<Rightarrow> int" where
  "dealt rnd i f g k = (\<Sum>j<k. damage (rnd (i + 4 * j) mod 100) (rnd (i + 4 * j + 1) mod 100) f g)"

definition over :: "fighter_t \<times> fighter_t \<Rightarrow> bool" where
  "over s \<longleftrightarrow> \<not> (health (fst s) > 0 \<and> health (snd s) > 0)"

fun rounds :: "(nat \<Rightarrow> nat) \<Rightarrow> nat \<Rightarrow> nat \<Rightarrow> fighter_t \<times> fighter_t \<Rightarrow> fighter_t \<times> fighter_t" where
  "rounds rnd i 0 s = s"
| "rounds rnd i (Suc k) s = rounds rnd (i + 4) k (fight_round rnd i s)"

lemma damage_health [simp]: "damage r r' (f\<lparr>health := x\<rparr>) g = damage r r' f g" "damage r r' f (g\<lparr>health := x\<rparr>) = damage r r' f g"
  by (simp_all add: damage_def)

lemma dealt_health [simp]: "dealt rnd i (f\<lparr>health := x\<rparr>) g k = dealt rnd i f g k" "dealt rnd i f (g\<lparr>health := x\<rparr>) k = dealt rnd i f g k"
  by (simp_all add: dealt_def)

lemma damage_bounds: "0 \<le> damage r r' f g" "damage r r' f g \<le> 510"
proof -
  have "uint (attack f) \<le> 255" using uint_lt2p [of "attack f"] by simp
  then show "0 \<le> damage r r' f g" "damage r r' f g \<le> 510" unfolding damage_def by simp_all
qed

lemma fight_round_damage:
  "fight_round rnd i (f1, f2) =
     (f1\<lparr>health := health f1 - damage (rnd (i + 2) mod 100) (rnd (i + 3) mod 100) f2 f1\<rparr>,
      f2\<lparr>health := health f2 - damage (rnd i mod 100) (rnd (i + 1) mod 100) f1 f2\<rparr>)"
  by (simp add: fight_round_def Let_def)

lemma dealt_Suc: "dealt rnd i f g (Suc k) = damage (rnd i mod 100) (rnd (i + 1) mod 100) f g + dealt rnd (i + 4) f g k"
  unfolding dealt_def sum.lessThan_Suc_shift by (simp add: algebra_simps)

lemma rounds_dealt:
  "rounds rnd i k (f1, f2) =
     (f1\<lparr>health := health f1 - dealt rnd (i + 2) f2 f1 k\<rparr>, f2\<lparr>health := health f2 - dealt rnd i f1 f2 k\<rparr>)"
proof (induction k arbitrary: i f1 f2)
  case 0 then show ?case by (simp add: dealt_def)
next
  case (Suc k)
  have n: "i + 4 + 2 = i + 2 + 4" "i + 2 + 1 = i + 3" by simp_all
  show ?case unfolding rounds.simps fight_round_damage Suc.IH dealt_Suc n damage_health dealt_health
    by (simp add: algebra_simps del: add_2_eq_Suc add_2_eq_Suc')
qed

lemma fight_loop_over: "over (f1, f2) \<Longrightarrow> fight_loop rnd i f1 f2 = Some (f1, f2)"
  using fight_loop.simps [of rnd i f1 f2] by (auto simp: over_def)

lemma fight_loop_step:
  "\<not> over (f1, f2) \<Longrightarrow> fight_round rnd i (f1, f2) = (g1, g2) \<Longrightarrow> fight_loop rnd i f1 f2 = fight_loop rnd (i + 4) g1 g2"
  using fight_loop.simps [of rnd i f1 f2] by (auto simp: over_def)

lemma fight_loop_rounds:
  assumes "over (rounds rnd i k (f1, f2))" "\<forall>j<k. \<not> over (rounds rnd i j (f1, f2))"
  shows "fight_loop rnd i f1 f2 = Some (rounds rnd i k (f1, f2))"
  using assms
proof (induction k arbitrary: i f1 f2)
  case 0 then show ?case by (simp add: fight_loop_over)
next
  case (Suc k)
  obtain g1 g2 where g: "fight_round rnd i (f1, f2) = (g1, g2)" by (cases "fight_round rnd i (f1, f2)")
  have n: "\<not> over (f1, f2)" using Suc.prems(2) [rule_format, of 0] by simp
  have "\<forall>j<k. \<not> over (rounds rnd (i + 4) j (g1, g2))"
  proof (intro allI impI)
    fix j assume "j < k" then show "\<not> over (rounds rnd (i + 4) j (g1, g2))"
      using Suc.prems(2) [rule_format, of "Suc j"] g by simp
  qed
  then have "fight_loop rnd (i + 4) g1 g2 = Some (rounds rnd (i + 4) k (g1, g2))"
    using Suc.IH [of "i + 4" g1 g2] Suc.prems(1) g by simp
  then show ?case using fight_loop_step [OF n g] g by simp
qed

text \<open>When the loop returns, some round was the last one.\<close>

lemma fight_loop_last:
  assumes "fight_loop rnd i f1 f2 = Some s"
  shows "\<exists>k. s = rounds rnd i k (f1, f2) \<and> over s \<and> (\<forall>j<k. \<not> over (rounds rnd i j (f1, f2)))"
proof -
  have "s = s \<longrightarrow> (\<exists>k. s = rounds rnd i k (f1, f2) \<and> over s \<and> (\<forall>j<k. \<not> over (rounds rnd i j (f1, f2))))"
  proof (rule fight_loop.raw_induct [OF _ assms])
    fix loop rnd i f1 f2 s
    assume IH: "\<And>rnd i f1 f2 s. loop rnd i f1 f2 = Some s \<Longrightarrow>
        s = s \<longrightarrow> (\<exists>k. s = rounds rnd i k (f1, f2) \<and> over s \<and> (\<forall>j<k. \<not> over (rounds rnd i j (f1, f2))))"
      and res: "(if health f1 > 0 \<and> health f2 > 0
        then let (f1, f2) = fight_round rnd i (f1, f2) in loop rnd (i + 4) f1 f2 else Some (f1, f2)) = Some s"
    show "s = s \<longrightarrow> (\<exists>k. s = rounds rnd i k (f1, f2) \<and> over s \<and> (\<forall>j<k. \<not> over (rounds rnd i j (f1, f2))))"
    proof (cases "over (f1, f2)")
      case True
      then have "s = (f1, f2)" using res by (auto simp: over_def)
      then show ?thesis using True by (intro impI exI [of _ 0]) simp
    next
      case False
      obtain g1 g2 where g: "fight_round rnd i (f1, f2) = (g1, g2)" by (cases "fight_round rnd i (f1, f2)")
      have "loop rnd (i + 4) g1 g2 = Some s" using res False g by (auto simp: over_def)
      then obtain k where k: "s = rounds rnd (i + 4) k (g1, g2)" "over s"
          "\<And>j. j < k \<Longrightarrow> \<not> over (rounds rnd (i + 4) j (g1, g2))" using IH by blast
      have "\<not> over (rounds rnd i j (f1, f2))" if "j < Suc k" for j
        using that k(3) False g by (cases j) simp_all
      then show ?thesis using k(1,2) g by (intro impI exI [of _ "Suc k"]) simp
    qed
  qed
  then show ?thesis by simp
qed

section \<open>Fights that end\<close>

definition decided :: "(nat \<Rightarrow> nat) \<Rightarrow> fighter_t \<Rightarrow> fighter_t \<Rightarrow> nat \<Rightarrow> bool" where
  "decided rnd f1 f2 k \<longleftrightarrow> 100 \<le> dealt rnd 0 f1 f2 k \<or> 100 \<le> dealt rnd 2 f2 f1 k"

definition at_full :: "fighter_t \<Rightarrow> fighter_t" where
  "at_full f = f\<lparr>health := 100\<rparr>"

lemma rounds_full: "rounds rnd 0 k (at_full f1, at_full f2)
    = (f1\<lparr>health := 100 - dealt rnd 2 f2 f1 k\<rparr>, f2\<lparr>health := 100 - dealt rnd 0 f1 f2 k\<rparr>)"
  unfolding at_full_def rounds_dealt add_0 dealt_health by simp

lemma over_decided: "over (rounds rnd 0 k (at_full f1, at_full f2)) \<longleftrightarrow> decided rnd f1 f2 k"
  unfolding rounds_full by (auto simp: over_def decided_def)

lemma fight_loop_iff:
  "fight_loop rnd 0 (at_full f1) (at_full f2) = Some (g1, g2) \<longleftrightarrow>
     (\<exists>k. decided rnd f1 f2 k \<and> (\<forall>j<k. \<not> decided rnd f1 f2 j)
        \<and> g1 = f1\<lparr>health := 100 - dealt rnd 2 f2 f1 k\<rparr> \<and> g2 = f2\<lparr>health := 100 - dealt rnd 0 f1 f2 k\<rparr>)"
proof -
  note r = rounds_full [of rnd _ f1 f2]
  show ?thesis
  proof
    assume "fight_loop rnd 0 (at_full f1) (at_full f2) = Some (g1, g2)"
    from fight_loop_last [OF this]
    obtain k where k: "(g1, g2) = rounds rnd 0 k (at_full f1, at_full f2)" "over (g1, g2)" "\<forall>j<k. \<not> decided rnd f1 f2 j"
      unfolding over_decided by blast
    have "decided rnd f1 f2 k" using k(2) unfolding k(1) over_decided .
    then show "\<exists>k. decided rnd f1 f2 k \<and> (\<forall>j<k. \<not> decided rnd f1 f2 j)
        \<and> g1 = f1\<lparr>health := 100 - dealt rnd 2 f2 f1 k\<rparr> \<and> g2 = f2\<lparr>health := 100 - dealt rnd 0 f1 f2 k\<rparr>"
      using k(1,3) unfolding r prod.inject by blast
  next
    assume "\<exists>k. decided rnd f1 f2 k \<and> (\<forall>j<k. \<not> decided rnd f1 f2 j)
        \<and> g1 = f1\<lparr>health := 100 - dealt rnd 2 f2 f1 k\<rparr> \<and> g2 = f2\<lparr>health := 100 - dealt rnd 0 f1 f2 k\<rparr>"
    then obtain k where k: "decided rnd f1 f2 k" "\<forall>j<k. \<not> decided rnd f1 f2 j"
        "g1 = f1\<lparr>health := 100 - dealt rnd 2 f2 f1 k\<rparr>" "g2 = f2\<lparr>health := 100 - dealt rnd 0 f1 f2 k\<rparr>" by blast
    show "fight_loop rnd 0 (at_full f1) (at_full f2) = Some (g1, g2)"
      unfolding k(3,4) r [symmetric] using k(1,2) by (intro fight_loop_rounds) (simp_all only: over_decided)
  qed
qed

lemma fight_loop_ends_iff:
  "fight_loop rnd 0 (at_full f1) (at_full f2) \<noteq> None \<longleftrightarrow> (\<exists>k. decided rnd f1 f2 k)"
proof
  assume "\<exists>k. decided rnd f1 f2 k"
  then have "decided rnd f1 f2 (LEAST k. decided rnd f1 f2 k)" "\<forall>j<LEAST k. decided rnd f1 f2 k. \<not> decided rnd f1 f2 j"
    using not_less_Least by (auto intro: LeastI_ex)
  then show "fight_loop rnd 0 (at_full f1) (at_full f2) \<noteq> None" using fight_loop_iff by (metis option.distinct(1))
qed (use fight_loop_iff in auto)

text \<open>No round takes more than 510 points, so a fighter ends above -510.\<close>

lemma dealt_mono_Suc: "dealt rnd i f g (Suc k) \<le> dealt rnd i f g k + 510" "dealt rnd i f g k \<le> dealt rnd i f g (Suc k)"
  using damage_bounds by (simp_all add: dealt_def)

lemma dealt_at_end:
  assumes "\<forall>j<k. \<not> decided rnd f1 f2 j"
  shows "0 \<le> dealt rnd 0 f1 f2 k" "dealt rnd 0 f1 f2 k < 610" "0 \<le> dealt rnd 2 f2 f1 k" "dealt rnd 2 f2 f1 k < 610"
proof -
  show "0 \<le> dealt rnd 0 f1 f2 k" "0 \<le> dealt rnd 2 f2 f1 k" unfolding dealt_def using damage_bounds(1) by (simp_all add: sum_nonneg)
  have "dealt rnd 0 f1 f2 k < 610 \<and> dealt rnd 2 f2 f1 k < 610"
  proof (cases k)
    case 0 then show ?thesis by (simp add: dealt_def)
  next
    case (Suc j)
    then have "dealt rnd 0 f1 f2 j < 100" "dealt rnd 2 f2 f1 j < 100" using assms by (auto simp: decided_def)
    then show ?thesis using dealt_mono_Suc(1) [of rnd 0 f1 f2 j] dealt_mono_Suc(1) [of rnd 2 f2 f1 j] Suc by simp
  qed
  then show "dealt rnd 0 f1 f2 k < 610" "dealt rnd 2 f2 f1 k < 610" by simp_all
qed

lemma damage_hit: "unat (dodge g) < r \<Longrightarrow> 10 \<le> uint (attack f) \<Longrightarrow> 10 \<le> damage r r' f g"
  by (simp add: damage_def)

text \<open>Numbers above the dodge that come again and again bring every fight to its end.\<close>

lemma hits_enough:
  assumes "\<forall>n. \<exists>j\<ge>n. rnd (i + 4 * j) mod 100 > unat (dodge g)" "10 \<le> unat (attack f)"
  shows "\<exists>k. 10 * int m \<le> dealt rnd i f g k"
proof (induction m)
  case 0 then show ?case by (auto simp: dealt_def intro: exI [of _ 0])
next
  case (Suc m)
  then obtain k where k: "10 * int m \<le> dealt rnd i f g k" by blast
  from assms(1) [rule_format, of k] obtain j where j: "k \<le> j" "rnd (i + 4 * j) mod 100 > unat (dodge g)" by blast
  have a: "10 \<le> uint (attack f)" using assms(2) unfolding uint_nat by linarith
  have "dealt rnd i f g k \<le> dealt rnd i f g j" by (rule lift_Suc_mono_le [where f = "dealt rnd i f g", OF _ j(1)]) (rule dealt_mono_Suc(2))
  moreover have "dealt rnd i f g (Suc j) \<ge> dealt rnd i f g j + 10" using damage_hit [OF j(2) a] by (simp only: dealt_def sum.lessThan_Suc add_left_mono)
  ultimately have "10 * int (Suc m) \<le> dealt rnd i f g (Suc j)" using k unfolding of_nat_Suc distrib_left by linarith
  then show ?case by blast
qed

lemma never_hurt:
  assumes "attack f = 0 \<or> 99 \<le> unat (dodge g)"
  shows "dealt rnd i f g k = 0"
proof -
  have "damage (r mod 100) r' f g = 0" for r r'
    using assms mod_less_divisor [of 100 r] unfolding damage_def by auto
  then show ?thesis by (simp add: dealt_def)
qed

end
