(* ===== verification/ArenaText.thy ===== *)
theory ArenaText
  imports ArenaFight
begin

text \<open>
  What a player's message becomes at the server, and what the server's answer becomes at the player.
\<close>

section \<open>From the message to the fighter\<close>

text \<open>The fighter of a name and three stats, as it is before a fight.\<close>

definition new_fighter :: "byte list \<Rightarrow> nat \<Rightarrow> nat \<Rightarrow> nat \<Rightarrow> fighter_t" where
  "new_fighter n a d l =
     \<lparr>name = n @ replicate (10 - length n) 0, attack = of_nat a, dodge = of_nat d, luck = of_nat l, health = 0\<rparr>"

definition player_msg :: "byte list \<Rightarrow> nat \<Rightarrow> nat \<Rightarrow> nat \<Rightarrow> byte list" where
  "player_msg n a d l = dec (length n) @ n @ dec a @ dec d @ dec l"

definition padded :: "byte list \<Rightarrow> byte list" where
  "padded bs = take 1024 bs @ replicate (1024 - length bs) 0"

lemma sint_digit: "n < 10 \<Longrightarrow> sint (digit n) = 48 + int n"
  using uint_digit [of n] by (simp add: sint_uint signed_take_bit_int_eq_self)

lemma copy_name_step: "i < k + 1 \<Longrightarrow> copy_name msg i k dst = do { dst \<leftarrow> strncat dst [msg ! nat i] 1; copy_name msg (i + 1) k dst }"
  by (simp add: copy_name.simps [of msg i])

lemma copy_name_done: "\<not> i < k + 1 \<Longrightarrow> copy_name msg i k dst = Some dst"
  by (simp add: copy_name.simps [of msg i])

lemma copy_name_eq:
  assumes "0 \<notin> set (s @ t)" "length s + length t < n"
  shows "copy_name (d # s @ t @ rest) (int (length s) + 1) (int (length s + length t)) (s @ replicate (n - length s) 0)
    = Some (s @ t @ replicate (n - length s - length t) 0)"
  using assms
proof (induction t arbitrary: s)
  case Nil then show ?case by (simp add: copy_name_done)
next
  case (Cons c t)
  have nth: "(d # s @ (c # t) @ rest) ! nat (int (length s) + 1) = c" by (simp add: nth_append nat_add_distrib)
  obtain k where k: "n - length s = Suc (Suc k)" using Cons.prems(2) by (cases "n - length s"; cases "n - length s - 1") auto
  have r: "s @ replicate (n - length s) 0 = s @ replicate (Suc (Suc k)) 0" by (simp add: k)
  have k1: "n - Suc (length s) = Suc k" using k by simp
  have cat: "strncat (s @ replicate (n - length s) 0) [c] 1 = Some ((s @ [c]) @ replicate (n - length (s @ [c])) 0)"
    unfolding r using strncat_zeros [of s 1 "[c]" "Suc k"] Cons.prems(1) k k1 by simp
  have l: "int (length s) + 1 < int (length s + length (c # t)) + 1" by simp
  have e: "int (length s) + 1 + 1 = int (length (s @ [c])) + 1" "int (length s + length (c # t)) = int (length (s @ [c]) + length t)"
    "d # s @ (c # t) @ rest = d # (s @ [c]) @ t @ rest" by simp_all
  show ?case unfolding copy_name_step [OF l] nth cat bind.bind_lunit unfolding e
    using Cons.IH [of "s @ [c]"] Cons.prems by simp
qed

lemma read_number_dec:
  assumes "stat_ok n" "length s = k"
  shows "read_number (s @ dec n @ rest) (int k) = Some (of_nat n)"
proof -
  have n: "10 \<le> n" "n < 100" using assms(1) by (simp_all add: stat_ok_def)
  have t: "take 2 (dec n @ rest) = dec n" using dec_chars(1) [OF n] by simp
  have "strncat ([] @ replicate (Suc 2) 0) (dec n @ rest) 2 = Some ([] @ take 2 (dec n @ rest) @ replicate (Suc (2 - 2)) 0)"
    by (rule strncat_zeros) (use dec_chars [OF n] t in simp_all)
  then have "strncat [0, 0, 0] (dec n @ rest) 2 = Some (dec n @ [0])" using t by (simp add: numeral_2_eq_2 numeral_3_eq_3)
  moreover have "cstr (dec n @ [0]) = Some (dec n)" using cstr_nul dec_chars(2) [OF n] by simp
  moreover have "ucast (of_int (int n) :: 64 word) = (of_nat n :: byte)"
    using n by (simp add: word_unat_eq_iff unat_of_nat unsigned_ucast_eq take_bit_eq_mod)
  ultimately show ?thesis using assms(2) strtol_dec(1) [OF n] by (simp add: read_number_def strtoul_def)
qed

lemma read_fighter_msg:
  assumes "name_ok n" "stat_ok a" "stat_ok d" "stat_ok l"
  shows "read_fighter (player_msg n a d l @ rest) = Some (new_fighter n a d l)"
proof -
  have n: "0 \<notin> set n" "length n \<le> 8" using assms(1) by (simp_all add: name_ok_def)
  have two: "length (dec k) = 2" if "stat_ok k" for k using dec_chars(1) [of k] that by (simp add: stat_ok_def)
  have m: "player_msg n a d l @ rest = digit (length n) # n @ dec a @ dec d @ dec l @ rest"
    using n(2) by (simp add: player_msg_def dec_digit)
  have len: "sint (digit (length n)) - 48 = int (length n)" using n(2) by (simp add: sint_digit)
  have nm: "copy_name (player_msg n a d l @ rest) 1 (int (length n)) (replicate 10 0) = Some (n @ replicate (10 - length n) 0)"
    using copy_name_eq [of "[]" n 10 "digit (length n)" "dec a @ dec d @ dec l @ rest"] n m by simp
  have a: "read_number (player_msg n a d l @ rest) (int (length n) + 1) = Some (of_nat a)"
    using read_number_dec [OF assms(2), of "digit (length n) # n" _ "dec d @ dec l @ rest"] m by (simp add: add.commute)
  have d: "read_number (player_msg n a d l @ rest) (int (length n) + 1 + 2) = Some (of_nat d)"
    using read_number_dec [OF assms(3), of "digit (length n) # n @ dec a" "length n + 3" "dec l @ rest"] m two [OF assms(2)] by (simp add: add.commute)
  have l: "read_number (player_msg n a d l @ rest) (int (length n) + 1 + 4) = Some (of_nat l)"
    using read_number_dec [OF assms(4), of "digit (length n) # n @ dec a @ dec d" "length n + 5" rest] m two [OF assms(2)] two [OF assms(3)] by (simp add: add.commute)
  have hd: "(player_msg n a d l @ rest) ! 0 = digit (length n)" using m by simp
  show ?thesis unfolding read_fighter_def Let_def hd len nm a d l by (simp add: new_fighter_def)
qed

lemma player_msg_length:
  assumes "name_ok n" "stat_ok a" "stat_ok d" "stat_ok l"
  shows "length (player_msg n a d l) = length n + 7"
  using assms dec_chars(1) by (simp add: player_msg_def name_ok_def stat_ok_def dec_digit)

lemma padded_msg:
  assumes "name_ok n" "stat_ok a" "stat_ok d" "stat_ok l"
  shows "\<exists>rest. padded (player_msg n a d l) = player_msg n a d l @ rest" "padded (player_msg n a d l) ! 0 \<noteq> 0"
proof -
  have l: "length (player_msg n a d l) \<le> 1024" using player_msg_length [OF assms] assms(1) by (simp add: name_ok_def)
  then show "\<exists>rest. padded (player_msg n a d l) = player_msg n a d l @ rest" by (simp add: padded_def)
  have "player_msg n a d l \<noteq> []" "player_msg n a d l ! 0 = digit (length n)"
    using assms(1) by (simp_all add: player_msg_def name_ok_def dec_digit)
  then show "padded (player_msg n a d l) ! 0 \<noteq> 0" using l digit_facts(4) [of "length n"] assms(1)
    by (simp add: padded_def nth_append name_ok_def)
qed

section \<open>From the result to the report\<close>

lemma name_array: "name_ok n \<Longrightarrow> n @ replicate (10 - length n) 0 = n @ 0 # replicate (9 - length n) 0"
  using Suc_diff_le [of "length n" 9] by (simp add: name_ok_def flip: replicate_Suc)

lemma new_fighter_name:
  assumes "name_ok n"
  shows "cstr (name (new_fighter n a d l)) = Some n" "arr_len (name (new_fighter n a d l)) = length n"
  using assms cstr_nul [of n] arr_len_nul [of n] name_array [OF assms] by (simp_all add: new_fighter_def name_ok_def)

definition result_text :: "fighter_t \<Rightarrow> fighter_t \<Rightarrow> byte list \<Rightarrow> byte list \<Rightarrow> byte list" where
  "result_text f1 f2 n1 n2 =
     (if health f1 > health f2 then n1 @ [44] @ n2
      else if health f1 < health f2 then n2 @ [44] @ n1
      else TIE @ [44] @ n1 @ [44] @ n2)"

lemma result_msg_eq:
  assumes "cstr (name f1) = Some n1" "cstr (name f2) = Some n2" "arr_len (name f1) = length n1" "arr_len (name f2) = length n2"
    and "length n1 \<le> 9" "length n2 \<le> 9"
  shows "result_msg f1 f2 = Some (result_text f1 f2 n1 n2 @ [0])"
proof -
  have t: "take k ((take (k - 1) x @ [0]) @ y) = x @ [0]" if "k = length x + 1" for x y :: "byte list" and k
    using that by simp
  consider "health f1 > health f2" | "health f1 < health f2" | "health f1 = health f2" by linarith
  then show ?thesis
  proof cases
    case 3
    then show ?thesis using assms t [of "4 + length n1 + length n2 + 3" "TIE @ [44] @ n1 @ [44] @ n2"]
      by (simp add: result_msg_def result_text_def TIE_def Let_def)
  qed (use assms in \<open>simp_all add: result_msg_def result_text_def Let_def\<close>)
qed

text \<open>A name that \<open>strtok\<close> keeps as it is.\<close>

definition token :: "byte list \<Rightarrow> bool" where
  "token n \<longleftrightarrow> n \<noteq> [] \<and> 0 \<notin> set n \<and> 44 \<notin> set n"

lemma strtok_token: "token n \<Longrightarrow> strtok (n @ 44 # s) = (Some n, s)" "token n \<Longrightarrow> strtok n = (Some n, [])"
proof -
  assume n: "token n"
  then obtain c cs where c: "n = c # cs" "c \<noteq> 44" by (cases n) (auto simp: token_def)
  have "\<forall>c\<in>set n. c \<noteq> 44" using n by (auto simp: token_def)
  moreover from this have "takeWhile (\<lambda>c. c \<noteq> 44) (n @ 44 # s) = n" "dropWhile (\<lambda>c. c \<noteq> 44) (n @ 44 # s) = 44 # s" "dropWhile (\<lambda>c. c \<noteq> 44) n = []"
    by (simp_all add: dropWhile_append2 takeWhile_append2)
  ultimately show "strtok (n @ 44 # s) = (Some n, s)" "strtok n = (Some n, [])"
    using c by (simp_all add: strtok_def dropWhile_eq_Nil_conv [THEN iffD2])
qed

lemma strtok_empty: "strtok [] = (None, [])"
  by (simp add: strtok_def)

lemma same_initial: "m \<noteq> [] \<Longrightarrow> n \<noteq> [] \<Longrightarrow> same_prefix 1 m n \<longleftrightarrow> hd m = hd n"
  by (cases m; cases n) (simp_all add: same_prefix_def)

lemma reply_cstr:
  assumes "0 \<notin> set t" "length t < 1024"
  shows "cstr (take 1024 (t @ [0]) @ replicate (1024 - length (t @ [0])) 0) = Some t"
  using assms cstr_nul [of t] by simp

definition b_tie :: "byte list \<Rightarrow> bool" where
  "b_tie n \<longleftrightarrow> same_prefix 4 n TIE"

lemma b_tie_TIE: "b_tie TIE"
  by (simp add: b_tie_def same_prefix_def)

lemma token_TIE: "token TIE"
  by (simp add: token_def TIE_def)

lemma report_win:
  assumes "token w" "token l" "\<not> b_tie w" "length w + length l < 1000"
  shows "client_report n (w @ [44] @ l @ [0]) = Some
    ((if same_prefix 1 n w then [Matchup n l] else if same_prefix 1 n l then [Matchup n w] else []) @ [The_winner w])"
proof -
  have "cstr (take 1024 ((w @ 44 # l) @ [0]) @ replicate (1024 - length ((w @ 44 # l) @ [0])) 0) = Some (w @ 44 # l)"
    by (rule reply_cstr) (use assms in \<open>auto simp: token_def\<close>)
  then show ?thesis using strtok_token [OF assms(1)] strtok_token [OF assms(2)] assms(3)
    by (simp add: client_report_def b_tie_def TIE_def Let_def del: take_append)
qed

lemma report_tie:
  assumes "token n1" "token n2" "length n1 + length n2 < 1000"
  shows "client_report n (TIE @ [44] @ n1 @ [44] @ n2 @ [0]) = Some
    (if same_prefix 1 n n1 then [Matchup n n2, Tied n n2] else if same_prefix 1 n n2 then [Matchup n n1, Tied n n1] else [])"
proof -
  let ?t = "TIE @ 44 # n1 @ 44 # n2"
  have "cstr (take 1024 (?t @ [0]) @ replicate (1024 - length (?t @ [0])) 0) = Some ?t"
    by (rule reply_cstr) (use assms in \<open>auto simp: token_def TIE_def\<close>)
  then have c: "cstr (take 1024 (TIE @ [44] @ n1 @ [44] @ n2 @ [0])
      @ replicate (1024 - length (TIE @ [44] @ n1 @ [44] @ n2 @ [0])) 0) = Some ?t" by simp
  have b: "same_prefix 4 TIE [84, 73, 69, 33]" by (simp add: same_prefix_def TIE_def)
  show ?thesis unfolding client_report_def c bind.bind_lunit Let_def
    by (simp add: strtok_token [OF assms(1)] strtok_token [OF assms(2)] strtok_token [OF token_TIE] b)
qed

lemma report_lost:
  assumes "cstr (take 1024 reply @ replicate (1024 - length reply) 0) = Some w" "token w"
  shows "client_report n reply = None"
  using assms(1) strtok_token(2) [OF assms(2)] strtok_empty by (simp add: client_report_def Let_def)

lemma report_taken_for_tie:
  assumes "token l" "length l < 1000"
  shows "client_report n (TIE @ [44] @ l @ [0]) = None"
proof -
  let ?t = "TIE @ 44 # l"
  have "cstr (take 1024 (?t @ [0]) @ replicate (1024 - length (?t @ [0])) 0) = Some ?t"
    by (rule reply_cstr) (use assms in \<open>auto simp: token_def TIE_def\<close>)
  then have c: "cstr (take 1024 (TIE @ [44] @ l @ [0]) @ replicate (1024 - length (TIE @ [44] @ l @ [0])) 0) = Some ?t" by simp
  have b: "same_prefix 4 TIE [84, 73, 69, 33]" by (simp add: same_prefix_def TIE_def)
  show ?thesis unfolding client_report_def c bind.bind_lunit Let_def
    by (simp add: strtok_token [OF assms(1)] strtok_token [OF token_TIE] strtok_empty b)
qed

end
