(* ===== verification/ArenaSpec.thy ===== *)
theory ArenaSpec
  imports ArenaText
begin

text \<open>
  The arena without its memory, and the proof that the program of \<open>Arena\<close> does what it says, as long as
  every fight is over before the next two players are there.
\<close>

section \<open>The game\<close>

text \<open>A player is a socket and a fighter.\<close>

type_synonym player = "int \<times> fighter_t"

record game =
  fights_had :: nat
  waiting :: "player option"
  fight_pair :: "(player \<times> player) option"
  is_open :: bool

definition close_status :: "(int \<Rightarrow> bool) \<Rightarrow> int \<Rightarrow> string" where
  "close_status bad fd = (if bad fd then ''Failure'' else ''Success'')"

definition fight_effects :: "(nat \<Rightarrow> nat) \<Rightarrow> (int \<Rightarrow> bool) \<Rightarrow> player \<Rightarrow> player \<Rightarrow> effect list option" where
  "fight_effects rnd bad a b = do {
     (g1, g2) \<leftarrow> fight_loop rnd 0 (at_full (snd a)) (at_full (snd b));
     msg \<leftarrow> result_msg g1 g2;
     Some [Sent (fst a) msg, Sent (fst b) msg,
       Closed (fst a), Logged ''Disconnection'' (close_status bad (fst a)),
       Closed (fst b), Logged ''Disconnection'' (close_status bad (fst b))]
   }"

definition greeting :: "int \<Rightarrow> effect list" where
  "greeting fd = [Logged ''Connection'' ''Success'', Sent fd HELLO]"

text \<open>A player who joins waits for a partner. There is no result when a pair has to wait for another pair's fight.\<close>

definition game_join :: "int \<Rightarrow> byte list option \<Rightarrow> game \<Rightarrow> (game \<times> effect list) option" where
  "game_join fd msg s =
     (if fd < 0 then Some (s, [])
      else case msg of
        None \<Rightarrow> Some (s\<lparr>is_open := False\<rparr>, greeting fd)
      | Some bs \<Rightarrow>
          if padded bs ! 0 = 0 then Some (s, greeting fd @ [Closed fd])
          else do {
            f \<leftarrow> read_fighter (padded bs);
            case waiting s of
              None \<Rightarrow> Some (s\<lparr>waiting := Some (fd, f)\<rparr>, greeting fd)
            | Some a \<Rightarrow> if fight_pair s = None then Some (s\<lparr>waiting := None, fight_pair := Some (a, (fd, f))\<rparr>, greeting fd)
                        else None
          })"

definition game_event :: "(nat \<Rightarrow> nat \<Rightarrow> nat) \<Rightarrow> (int \<Rightarrow> bool) \<Rightarrow> arena_event \<Rightarrow> game \<Rightarrow> (game \<times> effect list) option" where
  "game_event rnd bad ev s = (case ev of
     Join fd msg \<Rightarrow> game_join fd msg s
   | Fight \<Rightarrow> (case fight_pair s of
       None \<Rightarrow> Some (s, [])
     | Some (a, b) \<Rightarrow> do {
         x \<leftarrow> fight_effects (rnd (fights_had s)) bad a b;
         Some (s\<lparr>fights_had := Suc (fights_had s), fight_pair := None\<rparr>, x)
       })
   | Interrupt \<Rightarrow> Some (s\<lparr>is_open := False\<rparr>, []))"

fun game_run :: "(nat \<Rightarrow> nat \<Rightarrow> nat) \<Rightarrow> (int \<Rightarrow> bool) \<Rightarrow> arena_event list \<Rightarrow> game \<Rightarrow> effect list option" where
  "game_run rnd bad [] s = (if is_open s \<or> fight_pair s \<noteq> None then None else Some [])"
| "game_run rnd bad (ev # evs) s =
     (if \<not> is_open s then if fight_pair s = None then Some [] else None
      else do {
        (s, x) \<leftarrow> game_event rnd bad ev s;
        y \<leftarrow> game_run rnd bad evs s;
        Some (x @ y)
      })"

section \<open>The arena's memory\<close>

definition plenty :: "arena \<Rightarrow> bool" where
  "plenty h \<longleftrightarrow> 0 < brk h \<and> (\<forall>n. \<not> oom h n)"

lemma calloc_plenty: "plenty h \<Longrightarrow> calloc sz h = (brk h, h\<lparr>allocs := Suc (allocs h), brk := brk h + sz\<rparr>)"
  by (simp add: plenty_def calloc_def)

lemma plenty_brk: "plenty h \<Longrightarrow> 0 < brk h"
  by (simp add: plenty_def)

definition seat :: "player option \<Rightarrow> ptr list \<Rightarrow> int list \<Rightarrow> (ptr \<rightharpoonup> fighter_t) \<Rightarrow> bool" where
  "seat w arr fds F \<longleftrightarrow> length fds = 2 \<and> (case w of
     None \<Rightarrow> arr = [NULL, NULL] \<and> F = Map.empty
   | Some (fd, f) \<Rightarrow> \<exists>p. p \<noteq> NULL \<and> arr = [p, NULL] \<and> fds ! 0 = fd \<and> F = [p \<mapsto> f])"

definition bout :: "ptr \<Rightarrow> (player \<times> player) option \<Rightarrow> fight_data_t \<Rightarrow> (ptr \<rightharpoonup> ptr list) \<Rightarrow> (ptr \<rightharpoonup> int list)
    \<Rightarrow> (ptr \<rightharpoonup> fighter_t) \<Rightarrow> bool" where
  "bout p_file q d A S G \<longleftrightarrow> (case q of
     None \<Rightarrow> A = Map.empty \<and> S = Map.empty \<and> G = Map.empty
   | Some ((a, f), (b, g)) \<Rightarrow> \<exists>pf cs p1 p2. d = \<lparr>pp_fighter = pf, client_fds = cs, p_file_struct = p_file\<rparr>
       \<and> pf \<noteq> NULL \<and> cs \<noteq> NULL \<and> p1 \<noteq> NULL \<and> p2 \<noteq> NULL \<and> p1 \<noteq> p2
       \<and> A = [pf \<mapsto> [p1, p2]] \<and> S = [cs \<mapsto> [a, b]] \<and> G = [p1 \<mapsto> f, p2 \<mapsto> g])"

definition rep :: "ptr \<Rightarrow> ptr \<Rightarrow> player option \<Rightarrow> (player \<times> player) option \<Rightarrow> arena_locals \<Rightarrow> arena \<Rightarrow> fight_data_t \<Rightarrow> file_t
    \<Rightarrow> ptr list \<Rightarrow> int list \<Rightarrow> (ptr \<rightharpoonup> ptr list) \<Rightarrow> (ptr \<rightharpoonup> int list) \<Rightarrow> (ptr \<rightharpoonup> fighter_t) \<Rightarrow> (ptr \<rightharpoonup> fighter_t) \<Rightarrow> bool" where
  "rep p_data p_file w q v h d l arr fds A S F G \<longleftrightarrow>
     seat w arr fds F \<and> bout p_file q d A S G
     \<and> fighters h = F ++ G \<and> dom F \<inter> dom G = {}
     \<and> pp_fighters v \<noteq> NULL \<and> fighter_arrs h = A(pp_fighters v \<mapsto> arr) \<and> A (pp_fighters v) = None
     \<and> client_socks v \<noteq> NULL \<and> fd_arrs h = S(client_socks v \<mapsto> fds) \<and> S (client_socks v) = None
     \<and> p_data \<noteq> NULL \<and> fight_datas h = [p_data \<mapsto> d] \<and> p_file \<noteq> NULL \<and> log_files h = [p_file \<mapsto> l]
     \<and> queued v = (if q = None then [] else [p_data])"

definition below_brk :: "arena \<Rightarrow> bool" where
  "below_brk h \<longleftrightarrow> (\<forall>p. brk h \<le> p \<longrightarrow> fighters h p = None \<and> fighter_arrs h p = None \<and> fd_arrs h p = None)"

definition game_of :: "arena \<Rightarrow> player option \<Rightarrow> (player \<times> player) option \<Rightarrow> game" where
  "game_of h w q = \<lparr>fights_had = seeds h, waiting = w, fight_pair = q, is_open = running h\<rparr>"

definition arena_inv :: "ptr \<Rightarrow> ptr \<Rightarrow> game \<Rightarrow> arena_locals \<Rightarrow> arena \<Rightarrow> bool" where
  "arena_inv p_data p_file s v h \<longleftrightarrow> plenty h \<and> below_brk h \<and> log_open h \<and> fights_had s = seeds h \<and> is_open s = running h
     \<and> (\<exists>d l arr fds A S F G. rep p_data p_file (waiting s) (fight_pair s) v h d l arr fds A S F G)"

text \<open>What the program does not choose stays.\<close>

definition same_world :: "arena \<Rightarrow> arena \<Rightarrow> bool" where
  "same_world h h' \<longleftrightarrow> rand h' = rand h \<and> close_fails h' = close_fails h"

lemma same_world_refl [simp]: "same_world h h"
  by (simp add: same_world_def)

lemma same_world_trans: "same_world h1 h2 \<Longrightarrow> same_world h2 h3 \<Longrightarrow> same_world h1 h3"
  by (simp add: same_world_def)

section \<open>Pieces of the steps\<close>

lemmas arena_defs = effect_def set_fighter_def set_slot_def set_sock_def upd_data_def upd_log_def
  free_fighter_def free_fighter_arr_def free_fds_def free_data_def free_log_def

lemma close_player_eq:
  assumes "log_files h = [p \<mapsto> l]" "log_open h"
  shows "close_player p fd h = Some (h\<lparr>log_files := [p \<mapsto> \<lparr>log_type = ''Disconnection'', log_status = close_status (close_fails h) fd\<rparr>],
      effects := effects h @ [Closed fd, Logged ''Disconnection'' (close_status (close_fails h) fd)]\<rparr>)"
  using assms by (cases l) (simp add: close_player_def close_def arena_defs write_log_def close_status_def)

lemma decide_winner_eq:
  assumes d: "fight_datas h p_data = Some d" and arr: "fighter_arrs h (pp_fighter d) = Some [p1, p2]" and fds: "fd_arrs h (client_fds d) = Some [a, b]"
    and f: "fighters h p1 = Some f1" "fighters h p2 = Some f2" and ne: "p1 \<noteq> p2"
    and log: "log_files h = [p_file_struct d \<mapsto> l]" "log_open h"
    and fight: "fight_loop (rand h (seeds h)) 0 (at_full f1) (at_full f2) = Some (g1, g2)" "result_msg g1 g2 = Some msg"
  shows "decide_winner p_data h = Some (h\<lparr>seeds := Suc (seeds h), fighters := (fighters h)(p1 \<mapsto> g1, p2 \<mapsto> g2),
      log_files := [p_file_struct d \<mapsto> \<lparr>log_type = ''Disconnection'', log_status = close_status (close_fails h) b\<rparr>],
      effects := effects h @ [Sent a msg, Sent b msg, Closed a, Logged ''Disconnection'' (close_status (close_fails h) a),
        Closed b, Logged ''Disconnection'' (close_status (close_fails h) b)]\<rparr>)"
proof -
  have fight': "fight_loop (rand h (seeds h)) 0 (f1\<lparr>health := 100\<rparr>) (f2\<lparr>health := 100\<rparr>) = Some (g1, g2)"
    using fight(1) by (simp add: at_full_def)
  show ?thesis unfolding decide_winner_def
    using d arr fds f ne log fight' fight(2) by (simp add: Let_def arena_defs close_player_eq)
qed

lemma data_free_eq:
  assumes d: "fight_datas h p_data = Some d" and arr: "fighter_arrs h (pp_fighter d) = Some [p1, p2]" and fds: "fd_arrs h (client_fds d) = Some [a, b]"
    and f: "fighters h p1 = Some f1" "fighters h p2 = Some f2" and ne: "p1 \<noteq> p2" "p1 \<noteq> NULL" "p2 \<noteq> NULL" "pp_fighter d \<noteq> NULL" "client_fds d \<noteq> NULL"
  shows "data_free p_data h = Some (h\<lparr>fighters := (fighters h)(p1 := None, p2 := None),
      fighter_arrs := (fighter_arrs h)(pp_fighter d := None), fd_arrs := (fd_arrs h)(client_fds d := None),
      fight_datas := (fight_datas h)(p_data \<mapsto> d\<lparr>pp_fighter := NULL, client_fds := NULL\<rparr>)\<rparr>)"
  using assms by (simp add: data_free_def arena_defs)

lemma hello_closed:
  assumes "padded bs ! 0 = 0"
  shows "handle_connections fd (Some bs) h = Some (NULL, h\<lparr>effects := effects h @ [Sent fd HELLO, Closed fd]\<rparr>)"
  using assms by (simp add: handle_connections_def padded_def Let_def close_def arena_defs)

lemma hello_signal: "handle_connections fd None h = Some (NULL, h\<lparr>running := False, effects := effects h @ [Sent fd HELLO]\<rparr>)"
  by (simp add: handle_connections_def Let_def arena_sighandler_def arena_defs)

lemma hello_fighter:
  assumes "padded bs ! 0 \<noteq> 0" "read_fighter (padded bs) = Some f" "plenty h"
  shows "\<exists>n k. 0 < k \<and> handle_connections fd (Some bs) h = Some (brk h, h\<lparr>allocs := n, brk := brk h + k,
     fighters := (fighters h)(brk h \<mapsto> f), effects := effects h @ [Sent fd HELLO]\<rparr>)"
proof -
  have o: "\<not> oom h n" "0 < brk h" for n using assms(3) by (simp_all add: plenty_def)
  show ?thesis using assms(1,2) o
    by (simp add: handle_connections_def padded_def Let_def check_packet_def arena_defs calloc_def)
      (rule exI [of _ "Suc (Suc (Suc (Suc (allocs h))))"], rule exI [of _ 29], simp)
qed

end
