(* ===== verification/ArenaSim.thy ===== *)
theory ArenaSim
  imports ArenaSpec
begin

text \<open>Every event of the program does to the arena's memory what it does to the game.\<close>

section \<open>Joining\<close>

definition logged_in :: "ptr \<Rightarrow> arena \<Rightarrow> arena" where
  "logged_in p_file h = h\<lparr>log_files := [p_file \<mapsto> \<lparr>log_type = ''Connection'', log_status = ''Success''\<rparr>],
     effects := effects h @ [Logged ''Connection'' ''Success'']\<rparr>"

lemma match_negative:
  assumes "log_files h = [p_file \<mapsto> l]" "fd < 0"
  shows "match_one p_tpool p_data p_file fd msg v h = Some (v, h\<lparr>log_files := [p_file \<mapsto> l\<lparr>log_type := ''Connection''\<rparr>]\<rparr>)"
  using assms by (simp add: match_one_def arena_defs)

lemma match_first:
  assumes "log_files h = [p_file \<mapsto> l]" "log_open h" "\<not> fd < 0" "fighter_arrs h (pp_fighters v) = Some arr" "arr ! 0 = NULL"
  shows "match_one p_tpool p_data p_file fd msg v h = do {
     (p, h) \<leftarrow> handle_connections fd msg (logged_in p_file h);
     h \<leftarrow> set_slot (pp_fighters v) 0 p h;
     h \<leftarrow> set_sock (client_socks v) 0 fd h;
     Some (v, h)
   }"
  using assms by (cases l) (simp add: match_one_def upd_log_def write_log_def effect_def logged_in_def)

lemma bind_if: "Option.bind (if b then x else y) f = (if b then Option.bind x f else Option.bind y f)"
  by simp

lemma match_second:
  assumes "log_files h = [p_file \<mapsto> l]" "log_open h" "\<not> fd < 0" "fighter_arrs h (pp_fighters v) = Some [p1, NULL]" "p1 \<noteq> NULL"
  shows "match_one p_tpool p_data p_file fd msg v h = do {
     (p, h) \<leftarrow> handle_connections fd msg (logged_in p_file h);
     h \<leftarrow> set_slot (pp_fighters v) 1 p h;
     if p = NULL then Some (v, h)
     else do {
       h \<leftarrow> set_sock (client_socks v) 1 fd h;
       h \<leftarrow> upd_data p_data (\<lambda>_. \<lparr>pp_fighter = pp_fighters v, client_fds = client_socks v, p_file_struct = p_file\<rparr>) h;
       let (js, h) = add_fight p_tpool p_data (queued v) h;
       let (pf, h) = new_fighters h;
       let (cs, h) = new_socks h;
       Some (\<lparr>pp_fighters = pf, client_socks = cs, queued = js\<rparr>, h)
     }
   }"
  using assms by (cases l) (simp add: match_one_def upd_log_def write_log_def effect_def logged_in_def Let_def split_def
      bind_if Option.bind_assoc cong: if_cong)

section \<open>The simulation\<close>

definition simulates :: "ptr \<Rightarrow> ptr \<Rightarrow> ptr \<Rightarrow> arena_event \<Rightarrow> game \<Rightarrow> effect list \<Rightarrow> arena_locals \<Rightarrow> arena \<Rightarrow> bool" where
  "simulates p_tpool p_data p_file ev s' x v h \<longleftrightarrow>
     (\<exists>v' h'. (\<forall>evs. arena_loop p_tpool p_data p_file (ev # evs) v h = arena_loop p_tpool p_data p_file evs v' h')
        \<and> arena_inv p_data p_file s' v' h' \<and> effects h' = effects h @ x \<and> same_world h h')"

lemma simulates_join:
  assumes "match_one p_tpool p_data p_file fd msg v h = Some (v', h')" "running h"
    and "arena_inv p_data p_file s' v' h'" "effects h' = effects h @ x" "same_world h h'"
  shows "simulates p_tpool p_data p_file (Join fd msg) s' x v h"
  unfolding simulates_def using assms by (intro exI [of _ v'] exI [of _ h']) simp

lemma inv_rep:
  assumes "arena_inv p_data p_file s v h"
  obtains d l arr fds A S F G where "rep p_data p_file (waiting s) (fight_pair s) v h d l arr fds A S F G"
  using assms by (auto simp: arena_inv_def)

lemma arena_invI:
  assumes "plenty h" "below_brk h" "log_open h" "fights_had s = seeds h" "is_open s = running h"
    and "rep p_data p_file (waiting s) (fight_pair s) v h d l arr fds A S F G"
  shows "arena_inv p_data p_file s v h"
  using assms unfolding arena_inv_def by blast

lemma inv_facts:
  assumes "arena_inv p_data p_file s v h"
  shows "plenty h" "below_brk h" "log_open h" "fights_had s = seeds h" "is_open s = running h"
  using assms by (simp_all add: arena_inv_def)

lemma sim_negative:
  assumes inv: "arena_inv p_data p_file s v h" and "running h" "fd < 0"
  shows "simulates p_tpool p_data p_file (Join fd msg) s [] v h"
proof -
  obtain d l arr fds A S F G where r: "rep p_data p_file (waiting s) (fight_pair s) v h d l arr fds A S F G"
    using inv by (rule inv_rep)
  then have l: "log_files h = [p_file \<mapsto> l]" by (simp add: rep_def)
  let ?l = "l\<lparr>log_type := ''Connection''\<rparr>"
  have "rep p_data p_file (waiting s) (fight_pair s) v (h\<lparr>log_files := [p_file \<mapsto> ?l]\<rparr>) d ?l arr fds A S F G"
    using r by (simp add: rep_def)
  then have "arena_inv p_data p_file s v (h\<lparr>log_files := [p_file \<mapsto> ?l]\<rparr>)"
    by (rule arena_invI [rotated -1]) (use inv_facts [OF inv] in \<open>simp_all add: plenty_def below_brk_def\<close>)
  then show ?thesis by (intro simulates_join [OF match_negative [OF l assms(3)] assms(2)]) (simp_all add: same_world_def)
qed

text \<open>What all the cases of a socket have in common.\<close>

lemma rep_facts:
  assumes "rep p_data p_file w q v h d l arr fds A S F G"
  shows "log_files h = [p_file \<mapsto> l]" "fighter_arrs h (pp_fighters v) = Some arr" "fd_arrs h (client_socks v) = Some fds"
    "length fds = 2" "fight_datas h p_data = Some d"
  using assms by (simp_all add: rep_def seat_def)

lemma logged_in_facts [simp]:
  "plenty (logged_in p h) = plenty h" "fighter_arrs (logged_in p h) = fighter_arrs h" "fd_arrs (logged_in p h) = fd_arrs h"
  "effects (logged_in p h) = effects h @ [Logged ''Connection'' ''Success'']" "fighters (logged_in p h) = fighters h" "brk (logged_in p h) = brk h"
  by (simp_all add: logged_in_def plenty_def)

lemma bout_no_data: "bout p_file None d A S G \<longleftrightarrow> A = Map.empty \<and> S = Map.empty \<and> G = Map.empty"
  by (simp add: bout_def)

lemma bout_pair:
  "pf \<noteq> NULL \<Longrightarrow> cs \<noteq> NULL \<Longrightarrow> p1 \<noteq> NULL \<Longrightarrow> p2 \<noteq> NULL \<Longrightarrow> p1 \<noteq> p2 \<Longrightarrow>
     bout p_file (Some ((a, f), (b, g))) \<lparr>pp_fighter = pf, client_fds = cs, p_file_struct = p_file\<rparr>
       [pf \<mapsto> [p1, p2]] [cs \<mapsto> [a, b]] [p1 \<mapsto> f, p2 \<mapsto> g]"
  unfolding bout_def by (simp only: option.case prod.case) (intro exI [of _ pf] exI [of _ cs] exI [of _ p1] exI [of _ p2], simp)

lemma seat_none: "seat None arr fds F \<longleftrightarrow> length fds = 2 \<and> arr = [NULL, NULL] \<and> F = Map.empty"
  by (simp add: seat_def)

lemma seat_some: "seat (Some (fd, f)) arr fds F \<longleftrightarrow> length fds = 2 \<and> (\<exists>p. p \<noteq> NULL \<and> arr = [p, NULL] \<and> fds ! 0 = fd \<and> F = [p \<mapsto> f])"
  by (simp add: seat_def)

text \<open>A player who leaves before sending a message, or a signal while the server waits for it.\<close>

lemma sim_gone:
  assumes inv: "arena_inv p_data p_file s v h" and run: "running h" and fd: "\<not> fd < 0"
    and hc: "handle_connections fd msg (logged_in p_file h) = Some (NULL, (logged_in p_file h)\<lparr>running := on, effects := effects h @ x\<rparr>)"
  shows "simulates p_tpool p_data p_file (Join fd msg) (s\<lparr>is_open := on\<rparr>) x v h"
proof -
  obtain d l arr fds A S F G where r: "rep p_data p_file (waiting s) (fight_pair s) v h d l arr fds A S F G"
    using inv by (rule inv_rep)
  note i = inv_facts [OF inv] and f = rep_facts [OF r]
  let ?h = "(logged_in p_file h)\<lparr>running := on, effects := effects h @ x\<rparr>"
  show ?thesis
  proof (cases "waiting s")
    case None
    let ?h' = "?h\<lparr>fighter_arrs := fighter_arrs h, fd_arrs := (fd_arrs h)(client_socks v \<mapsto> fds[0 := fd])\<rparr>"
    have arr: "arr = [NULL, NULL]" using r None by (simp add: rep_def seat_def)
    have m: "match_one p_tpool p_data p_file fd msg v h = Some (v, ?h')"
      using f(2,3) arr match_first [OF f(1) i(3) fd f(2)] by (simp add: hc set_slot_def set_sock_def map_upd_triv)
    have "rep p_data p_file (waiting (s\<lparr>is_open := on\<rparr>)) (fight_pair (s\<lparr>is_open := on\<rparr>)) v ?h' d \<lparr>log_type = ''Connection'', log_status = ''Success''\<rparr> arr (fds[0 := fd]) A S F G"
      using r None by (simp add: rep_def seat_none logged_in_def)
    then have "arena_inv p_data p_file (s\<lparr>is_open := on\<rparr>) v ?h'"
      by (rule arena_invI [rotated -1]) (use i f(3) in \<open>auto simp: plenty_def below_brk_def logged_in_def\<close>)
    then show ?thesis by (intro simulates_join [OF m run]) (simp_all add: same_world_def logged_in_def)
  next
    case (Some w)
    obtain p1 where arr: "arr = [p1, NULL]" "p1 \<noteq> NULL" using r Some by (cases w) (auto simp: rep_def seat_some)
    let ?h' = "?h\<lparr>fighter_arrs := fighter_arrs h\<rparr>"
    have m: "match_one p_tpool p_data p_file fd msg v h = Some (v, ?h')"
      using f(2,3) arr match_second [OF f(1) i(3) fd] by (simp add: hc set_slot_def map_upd_triv)
    have "rep p_data p_file (waiting (s\<lparr>is_open := on\<rparr>)) (fight_pair (s\<lparr>is_open := on\<rparr>)) v ?h' d \<lparr>log_type = ''Connection'', log_status = ''Success''\<rparr> arr fds A S F G"
      using r by (simp add: rep_def logged_in_def)
    then have "arena_inv p_data p_file (s\<lparr>is_open := on\<rparr>) v ?h'"
      by (rule arena_invI [rotated -1]) (use i in \<open>auto simp: plenty_def below_brk_def logged_in_def\<close>)
    then show ?thesis by (intro simulates_join [OF m run]) (simp_all add: same_world_def logged_in_def)
  qed
qed

text \<open>The first player of a pair.\<close>

lemma sim_first:
  assumes inv: "arena_inv p_data p_file s v h" and run: "running h" and fd: "\<not> fd < 0" and w: "waiting s = None"
    and msg: "padded bs ! 0 \<noteq> 0" "read_fighter (padded bs) = Some f"
  shows "simulates p_tpool p_data p_file (Join fd (Some bs)) (s\<lparr>waiting := Some (fd, f)\<rparr>) (greeting fd) v h"
proof -
  obtain d l arr fds A S F G where r: "rep p_data p_file (waiting s) (fight_pair s) v h d l arr fds A S F G"
    using inv by (rule inv_rep)
  note i = inv_facts [OF inv] and rf = rep_facts [OF r]
  let ?b = "brk h" and ?l = "\<lparr>log_type = ''Connection'', log_status = ''Success''\<rparr>"
  have arr: "arr = [NULL, NULL]" "F = Map.empty" using r w by (simp_all add: rep_def seat_def)
  have b: "0 < ?b" by (rule plenty_brk [OF i(1)])
  have new: "fighters h ?b = None" "G ?b = None" using i(2) r arr by (simp_all add: below_brk_def rep_def)
  obtain n k where hc: "0 < k" "handle_connections fd (Some bs) (logged_in p_file h)
      = Some (?b, (logged_in p_file h)\<lparr>allocs := n, brk := ?b + k, fighters := (fighters h)(?b \<mapsto> f), effects := effects h @ greeting fd\<rparr>)"
    using hello_fighter [OF msg, of "logged_in p_file h" fd] i(1) by (auto simp: greeting_def)
  let ?h' = "(logged_in p_file h)\<lparr>allocs := n, brk := ?b + k, fighters := (fighters h)(?b \<mapsto> f), effects := effects h @ greeting fd,
      fighter_arrs := (fighter_arrs h)(pp_fighters v \<mapsto> [?b, NULL]), fd_arrs := (fd_arrs h)(client_socks v \<mapsto> fds[0 := fd])\<rparr>"
  have m: "match_one p_tpool p_data p_file fd (Some bs) v h = Some (v, ?h')"
    using rf(2,3) arr match_first [OF rf(1) i(3) fd rf(2)] by (simp add: hc set_slot_def set_sock_def)
  have "rep p_data p_file (waiting (s\<lparr>waiting := Some (fd, f)\<rparr>)) (fight_pair (s\<lparr>waiting := Some (fd, f)\<rparr>)) v ?h' d ?l [?b, NULL] (fds[0 := fd]) A S [?b \<mapsto> f] G"
    using r arr b new rf(4) by (auto simp: rep_def seat_some logged_in_def map_add_def split: option.splits)
  then have "arena_inv p_data p_file (s\<lparr>waiting := Some (fd, f)\<rparr>) v ?h'"
    by (rule arena_invI [rotated -1]) (use i rf(2,3) hc(1) in \<open>auto simp: plenty_def below_brk_def logged_in_def\<close>)
  then show ?thesis by (intro simulates_join [OF m run]) (simp_all add: same_world_def logged_in_def)
qed

text \<open>The second player: the fight is handed to the pool, and the next pair gets new arrays.\<close>

lemma hand_over:
  assumes "plenty h" "p_tpool \<noteq> NULL"
  shows "(let (js, h) = add_fight p_tpool p_data js h;
       (pf, h) = new_fighters h;
       (cs, h) = new_socks h
     in Some (\<lparr>pp_fighters = pf, client_socks = cs, queued = js\<rparr>, h))
   = Some (\<lparr>pp_fighters = brk h + 56, client_socks = brk h + 72, queued = js @ [p_data]\<rparr>,
       h\<lparr>allocs := allocs h + 4, brk := brk h + 80, fighter_arrs := (fighter_arrs h)(brk h + 56 \<mapsto> [NULL, NULL]),
         fd_arrs := (fd_arrs h)(brk h + 72 \<mapsto> [0, 0])\<rparr>)"
proof -
  have "allocs h + 4 = Suc (Suc (Suc (Suc (allocs h))))" by simp
  then show ?thesis using assms
    by (simp add: plenty_def calloc_def add_fight_def new_fighters_def new_socks_def calloc_with_def)
      (rule arena.equality; simp add: add.commute)
qed

lemma sim_second:
  assumes inv: "arena_inv p_data p_file s v h" and run: "running h" and fd: "\<not> fd < 0" and w: "waiting s = Some (a, g)"
    and q: "fight_pair s = None" and pool: "p_tpool \<noteq> NULL"
    and msg: "padded bs ! 0 \<noteq> 0" "read_fighter (padded bs) = Some f"
  shows "simulates p_tpool p_data p_file (Join fd (Some bs)) (s\<lparr>waiting := None, fight_pair := Some ((a, g), (fd, f))\<rparr>) (greeting fd) v h"
proof -
  obtain d l arr fds A S F G where r: "rep p_data p_file (waiting s) (fight_pair s) v h d l arr fds A S F G"
    using inv by (rule inv_rep)
  note i = inv_facts [OF inv] and rf = rep_facts [OF r]
  let ?b = "brk h" and ?l = "\<lparr>log_type = ''Connection'', log_status = ''Success''\<rparr>"
  obtain p1 where p1: "arr = [p1, NULL]" "p1 \<noteq> NULL" "fds ! 0 = a" "F = [p1 \<mapsto> g]" using r w by (auto simp: rep_def seat_some)
  have e: "A = Map.empty" "S = Map.empty" "G = Map.empty" "queued v = []" using r q by (simp_all add: rep_def bout_def)
  have b: "0 < ?b" by (rule plenty_brk [OF i(1)])
  have "fighters h p1 \<noteq> None" "fighter_arrs h (pp_fighters v) \<noteq> None" "fd_arrs h (client_socks v) \<noteq> None"
    using r p1 e by (simp_all add: rep_def)
  then have lt: "p1 < ?b" "pp_fighters v < ?b" "client_socks v < ?b" using i(2) by (meson below_brk_def not_less)+
  obtain n k where hc: "0 < k" "handle_connections fd (Some bs) (logged_in p_file h)
      = Some (?b, (logged_in p_file h)\<lparr>allocs := n, brk := ?b + k, fighters := (fighters h)(?b \<mapsto> f), effects := effects h @ greeting fd\<rparr>)"
    using hello_fighter [OF msg, of "logged_in p_file h" fd] i(1) by (auto simp: greeting_def)
  let ?d = "\<lparr>pp_fighter = pp_fighters v, client_fds = client_socks v, p_file_struct = p_file\<rparr>"
  let ?h1 = "(logged_in p_file h)\<lparr>allocs := n, brk := ?b + k, fighters := (fighters h)(?b \<mapsto> f), effects := effects h @ greeting fd,
      fighter_arrs := (fighter_arrs h)(pp_fighters v \<mapsto> [p1, ?b]), fd_arrs := (fd_arrs h)(client_socks v \<mapsto> fds[1 := fd]),
      fight_datas := (fight_datas h)(p_data \<mapsto> ?d)\<rparr>"
  let ?h' = "?h1\<lparr>allocs := n + 4, brk := ?b + k + 80, fighter_arrs := (fighter_arrs ?h1)(?b + k + 56 \<mapsto> [NULL, NULL]),
      fd_arrs := (fd_arrs ?h1)(?b + k + 72 \<mapsto> [0, 0])\<rparr>"
    and ?v' = "\<lparr>pp_fighters = ?b + k + 56, client_socks = ?b + k + 72, queued = [p_data]\<rparr>"
    and ?s = "s\<lparr>waiting := None, fight_pair := Some ((a, g), (fd, f))\<rparr>"
  have "plenty ?h1" using i(1) by (simp add: plenty_def logged_in_def)
  note over = hand_over [OF this pool, of p_data "queued v"]
  have m: "match_one p_tpool p_data p_file fd (Some bs) v h = Some (?v', ?h')"
    unfolding match_second [OF rf(1) i(3) fd rf(2) [unfolded p1(1)] p1(2)] hc(2)
    using over e(4) b rf p1(1) by (simp add: set_slot_def set_sock_def upd_data_def logged_in_def)
  have fds: "fds[1 := fd] = [a, fd]" using rf(4) p1(3) by (cases fds; cases "tl fds") auto
  have "rep p_data p_file (waiting ?s) (fight_pair ?s) ?v' ?h' ?d ?l [NULL, NULL] [0, 0]
      [pp_fighters v \<mapsto> [p1, ?b]] [client_socks v \<mapsto> [a, fd]] Map.empty [p1 \<mapsto> g, ?b \<mapsto> f]"
    using r e(1-3) b lt bout_pair [of "pp_fighters v" "client_socks v" p1 ?b p_file a g fd f] p1(2)
    unfolding rep_def p1(4) by (simp add: seat_none logged_in_def fds [simplified])
  then have "arena_inv p_data p_file ?s ?v' ?h'"
    by (rule arena_invI [rotated -1]) (use i lt hc(1) in \<open>simp_all add: plenty_def below_brk_def logged_in_def\<close>)
  then show ?thesis by (intro simulates_join [OF m run]) (simp_all add: same_world_def logged_in_def)
qed

section \<open>Fighting\<close>

lemma sim_fight:
  assumes inv: "arena_inv p_data p_file s v h" and run: "running h" and q: "fight_pair s = Some ((a, f), (b, g))"
    and x: "fight_effects (rand h (fights_had s)) (close_fails h) (a, f) (b, g) = Some x"
  shows "simulates p_tpool p_data p_file Fight (s\<lparr>fights_had := Suc (fights_had s), fight_pair := None\<rparr>) x v h"
proof -
  obtain d l arr fds A S F G where r: "rep p_data p_file (waiting s) (fight_pair s) v h d l arr fds A S F G"
    using inv by (rule inv_rep)
  note i = inv_facts [OF inv] and rf = rep_facts [OF r]
  obtain p1 p2 where G: "p_file_struct d = p_file"
       "pp_fighter d \<noteq> NULL" "client_fds d \<noteq> NULL" "p1 \<noteq> NULL" "p2 \<noteq> NULL" "p1 \<noteq> p2"
       "A = [pp_fighter d \<mapsto> [p1, p2]]" "S = [client_fds d \<mapsto> [a, b]]" "G = [p1 \<mapsto> f, p2 \<mapsto> g]"
    using r q by (auto simp: rep_def bout_def)
  obtain g1 g2 msg where res: "fight_loop (rand h (seeds h)) 0 (at_full f) (at_full g) = Some (g1, g2)" "result_msg g1 g2 = Some msg"
    "x = [Sent a msg, Sent b msg, Closed a, Logged ''Disconnection'' (close_status (close_fails h) a),
       Closed b, Logged ''Disconnection'' (close_status (close_fails h) b)]"
    using x i(4) by (auto simp: fight_effects_def split: bind_splits)
  note pf = G(1)
  have arrs: "fighter_arrs h (pp_fighter d) = Some [p1, p2]" "fd_arrs h (client_fds d) = Some [a, b]"
    "fighters h p1 = Some f" "fighters h p2 = Some g" "F p1 = None" "F p2 = None"
    using r G by (auto simp: rep_def map_add_def)
  let ?h1 = "h\<lparr>seeds := Suc (seeds h), fighters := (fighters h)(p1 \<mapsto> g1, p2 \<mapsto> g2),
      log_files := [p_file_struct d \<mapsto> \<lparr>log_type = ''Disconnection'', log_status = close_status (close_fails h) b\<rparr>], effects := effects h @ x\<rparr>"
  have dw: "decide_winner p_data h = Some ?h1"
    using decide_winner_eq [OF rf(5) arrs(1,2,3,4) G(6) _ i(3) res(1,2)] rf(1) pf res(3) by simp
  let ?h' = "?h1\<lparr>fighters := F, fighter_arrs := [pp_fighters v \<mapsto> arr], fd_arrs := [client_socks v \<mapsto> fds],
      fight_datas := (fight_datas h)(p_data \<mapsto> d\<lparr>pp_fighter := NULL, client_fds := NULL\<rparr>)\<rparr>"
  have maps: "(fighters ?h1)(p1 := None, p2 := None) = F" "(fighter_arrs h)(pp_fighter d := None) = [pp_fighters v \<mapsto> arr]"
    "(fd_arrs h)(client_fds d := None) = [client_socks v \<mapsto> fds]"
    using r G arrs(5,6) by (auto simp: rep_def map_add_def fun_eq_iff split: option.splits)
  have "data_free p_data ?h1 = Some (?h1\<lparr>fighters := (fighters ?h1)(p1 := None, p2 := None),
      fighter_arrs := (fighter_arrs h)(pp_fighter d := None), fd_arrs := (fd_arrs h)(client_fds d := None),
      fight_datas := (fight_datas h)(p_data \<mapsto> d\<lparr>pp_fighter := NULL, client_fds := NULL\<rparr>)\<rparr>)"
    using data_free_eq [of ?h1 p_data d p1 p2 a b g1 g2] rf(5) arrs G(2-6) by simp
  then have rfight: "run_fight p_data h = Some ?h'" unfolding maps using dw by (simp add: run_fight_def)
  have lp: "arena_loop p_tpool p_data p_file (Fight # evs) v h = arena_loop p_tpool p_data p_file evs (v\<lparr>queued := []\<rparr>) ?h'" for evs
    using run rfight r q by (simp add: rep_def)
  let ?s = "s\<lparr>fights_had := Suc (fights_had s), fight_pair := None\<rparr>"
  have "rep p_data p_file (waiting ?s) (fight_pair ?s) (v\<lparr>queued := []\<rparr>) ?h' (d\<lparr>pp_fighter := NULL, client_fds := NULL\<rparr>)
      \<lparr>log_type = ''Disconnection'', log_status = close_status (close_fails h) b\<rparr> arr fds Map.empty Map.empty F Map.empty"
    using r pf by (simp add: rep_def bout_def)
  moreover have sub: "F p = None" "[pp_fighters v \<mapsto> arr] p = None" "[client_socks v \<mapsto> fds] p = None"
    if "fighters h p = None" "fighter_arrs h p = None" "fd_arrs h p = None" for p
    using that by (simp_all flip: maps)
  moreover have "plenty ?h'" "below_brk ?h'" using i(1,2) sub by (simp_all add: plenty_def below_brk_def)
  ultimately have "arena_inv p_data p_file ?s (v\<lparr>queued := []\<rparr>) ?h'"
    by (intro arena_invI) (use i in simp_all)
  then show ?thesis unfolding simulates_def using lp
    by (intro exI [of _ "v\<lparr>queued := []\<rparr>"] exI [of _ ?h']) (simp add: same_world_def)
qed

end
