(* ===== verification/ArenaRuns.thy ===== *)
theory ArenaRuns
  imports ArenaSim
begin

text \<open>Whole runs of the arena: those that refine the game, and those that share the data of two fights.\<close>

section \<open>Runs\<close>

lemma sim_event:
  assumes inv: "arena_inv p_data p_file s v h" and op: "is_open s" and pool: "p_tpool \<noteq> NULL"
    and ev: "game_event (rand h) (close_fails h) ev s = Some (s', x)"
  shows "simulates p_tpool p_data p_file ev s' x v h"
proof -
  have run: "running h" using inv_facts(5) [OF inv] op by simp
  show ?thesis
  proof (cases ev)
    case (Join fd msg)
    show ?thesis
    proof (cases "fd < 0")
      case True then show ?thesis using sim_negative [OF inv run True] ev Join by (simp add: game_event_def game_join_def)
    next
      case fd: False
      show ?thesis
      proof (cases msg)
        case None
        then have "s' = s\<lparr>is_open := False\<rparr>" "x = greeting fd" using ev Join fd by (simp_all add: game_event_def game_join_def)
        then show ?thesis using sim_gone [OF inv run fd, where msg = msg and on = False and x = "greeting fd"] hello_signal [of fd] None Join by (simp add: greeting_def)
      next
        case (Some bs)
        show ?thesis
        proof (cases "padded bs ! 0 = 0")
          case True
          then have "s' = s\<lparr>is_open := True\<rparr>" "x = greeting fd @ [Closed fd]"
            using ev Join fd Some op by (simp_all add: game_event_def game_join_def)
          moreover have "(logged_in p_file h)\<lparr>running := True\<rparr> = logged_in p_file h" using run by (simp add: logged_in_def)
          ultimately show ?thesis
            using sim_gone [OF inv run fd, where msg = msg and on = True and x = "greeting fd @ [Closed fd]"] hello_closed [OF True, of fd] Some Join
            by (simp add: greeting_def)
        next
          case False
          then obtain f where f: "read_fighter (padded bs) = Some f"
            using ev Join fd Some by (auto simp: game_event_def game_join_def split: bind_splits)
          show ?thesis
          proof (cases "waiting s")
            case None then show ?thesis using sim_first [OF inv run fd None False f] ev Join fd Some False f
              by (simp add: game_event_def game_join_def)
          next
            case w: (Some a)
            then have "fight_pair s = None" using ev Join fd Some False f by (auto simp: game_event_def game_join_def split: if_splits)
            then show ?thesis using sim_second [OF inv run fd, of "fst a" "snd a"] ev Join fd Some False f w pool
              by (auto simp: game_event_def game_join_def)
          qed
        qed
      qed
    qed
  next
    case Fight
    show ?thesis
    proof (cases "fight_pair s")
      case None
      obtain d l arr fds A S F G where "rep p_data p_file (waiting s) (fight_pair s) v h d l arr fds A S F G" using inv by (rule inv_rep)
      then have "queued v = []" using None by (simp add: rep_def)
      moreover have "s' = s" "x = []" using ev Fight None by (simp_all add: game_event_def)
      ultimately show ?thesis unfolding simulates_def using inv run Fight by (intro exI [of _ v] exI [of _ h]) simp
    next
      case (Some q)
      obtain a f b g where q: "q = ((a, f), (b, g))" by (cases q) (metis surj_pair)
      show ?thesis using sim_fight [OF inv run Some [unfolded q]] ev Fight Some q by (auto simp: game_event_def split: bind_splits)
    qed
  next
    case Interrupt
    have s': "s' = s\<lparr>is_open := False\<rparr>" "x = []" using ev Interrupt by (simp_all add: game_event_def)
    obtain d l arr fds A S F G where r: "rep p_data p_file (waiting s) (fight_pair s) v h d l arr fds A S F G" using inv by (rule inv_rep)
    then have "rep p_data p_file (waiting s') (fight_pair s') v (arena_sighandler h) d l arr fds A S F G" by (simp add: s' rep_def arena_sighandler_def)
    then have "arena_inv p_data p_file s' v (arena_sighandler h)"
      by (rule arena_invI [rotated -1]) (use inv_facts [OF inv] s' in \<open>simp_all add: plenty_def below_brk_def arena_sighandler_def\<close>)
    then show ?thesis unfolding simulates_def using run Interrupt s'
      by (intro exI [of _ v] exI [of _ "arena_sighandler h"]) (simp add: same_world_def arena_sighandler_def)
  qed
qed

lemma sim_run:
  assumes "arena_inv p_data p_file s v h" "p_tpool \<noteq> NULL" "game_run (rand h) (close_fails h) evs s = Some x"
  shows "\<exists>v' h' s'. arena_loop p_tpool p_data p_file evs v h = Some (v', h') \<and> arena_inv p_data p_file s' v' h'
    \<and> fight_pair s' = None \<and> effects h' = effects h @ x"
  using assms
proof (induction evs arbitrary: s v h x)
  case Nil
  have "fight_pair s = None" "x = []" "\<not> is_open s"
    using Nil.prems(3) unfolding game_run.simps by (metis option.distinct(1) option.inject)+
  then show ?case using Nil.prems(1) inv_facts(5) [OF Nil.prems(1)] by (intro exI [of _ v] exI [of _ h] exI [of _ s]) simp
next
  case (Cons ev evs)
  note run = inv_facts(5) [OF Cons.prems(1)]
  show ?case
  proof (cases "is_open s")
    case False
    then have "fight_pair s = None" "x = []" using Cons.prems(3) by (auto split: if_splits)
    then show ?thesis using Cons.prems(1) run False by (intro exI [of _ v] exI [of _ h] exI [of _ s]) simp
  next
    case True
    then obtain s1 y z where e: "game_event (rand h) (close_fails h) ev s = Some (s1, y)"
      "game_run (rand h) (close_fails h) evs s1 = Some z" "x = y @ z"
      using Cons.prems(3) by (auto split: bind_splits)
    obtain v1 h1 where s1: "arena_loop p_tpool p_data p_file (ev # evs) v h = arena_loop p_tpool p_data p_file evs v1 h1"
      "arena_inv p_data p_file s1 v1 h1" "effects h1 = effects h @ y" "same_world h h1"
      using sim_event [OF Cons.prems(1) True Cons.prems(2) e(1)] unfolding simulates_def by blast
    have "game_run (rand h1) (close_fails h1) evs s1 = Some z" using e(2) s1(4) by (simp add: same_world_def)
    from Cons.IH [OF s1(2) Cons.prems(2) this] show ?thesis unfolding s1(1) using s1(3) e(3) by simp
  qed
qed

definition all_free :: "arena \<Rightarrow> bool" where
  "all_free h \<longleftrightarrow> fighters h = Map.empty \<and> fighter_arrs h = Map.empty \<and> fd_arrs h = Map.empty
     \<and> fight_datas h = Map.empty \<and> log_files h = Map.empty"

lemma shut_down_free:
  assumes inv: "arena_inv p_data p_file s v h" and q: "fight_pair s = None"
  shows "\<exists>h'. arena_shut_down p_data p_file v h = Some h' \<and> effects h' = effects h \<and> all_free h' \<and> \<not> log_open h'"
proof -
  obtain d l arr fds A S F G where r: "rep p_data p_file (waiting s) (fight_pair s) v h d l arr fds A S F G" using inv by (rule inv_rep)
  have e: "A = Map.empty" "S = Map.empty" "G = Map.empty" "queued v = []" using r q by (simp_all add: rep_def bout_def)
  show ?thesis
  proof (cases "waiting s")
    case None
    then have "arr = [NULL, NULL]" "F = Map.empty" using r by (simp_all add: rep_def seat_none)
    then show ?thesis using r e by (simp add: arena_shut_down_def rep_def arena_defs all_free_def)
  next
    case (Some w)
    then obtain p where "arr = [p, NULL]" "p \<noteq> NULL" "F = [p \<mapsto> snd w]" using r by (cases w) (auto simp: rep_def seat_some)
    then show ?thesis using r e by (simp add: arena_shut_down_def rep_def arena_defs all_free_def)
  qed
qed

text \<open>A fight that still waits is run with freed data.\<close>

lemma shut_down_undefined:
  assumes inv: "arena_inv p_data p_file s v h" and q: "fight_pair s \<noteq> None"
  shows "arena_shut_down p_data p_file v h = None"
proof -
  obtain d l arr fds A S F G where r: "rep p_data p_file (waiting s) (fight_pair s) v h d l arr fds A S F G" using inv by (rule inv_rep)
  have v: "queued v = [p_data]" "p_data \<noteq> NULL" using r q by (simp_all add: rep_def)
  have u: "run_fights (queued v) h' = None" if "free_data p_data h1 = Some h'" for h1 h'
    using that v by (auto simp: free_data_def release_def run_fight_def decide_winner_def split: option.splits)
  show ?thesis using u by (auto simp: arena_shut_down_def Let_def split: bind_splits)
qed

section \<open>Start\<close>

definition arena_start :: "arena \<Rightarrow> bool" where
  "arena_start h \<longleftrightarrow> plenty h \<and> all_free h \<and> log_open h \<and> running h"

definition new_game :: "arena \<Rightarrow> game" where
  "new_game h = \<lparr>fights_had = seeds h, waiting = None, fight_pair = None, is_open = True\<rparr>"

lemma main_start:
  assumes "arena_start h" "config_port file = Some prt" "net prt = Inr server"
  shows "\<exists>p_data p_file v h1. arena_main (Some file) net p_tpool evs h = do {
         (v, h) \<leftarrow> arena_loop p_tpool p_data p_file evs v h1;
         h \<leftarrow> arena_shut_down p_data p_file v h;
         Some (0, h)
       } \<and> arena_inv p_data p_file (new_game h) v h1 \<and> effects h1 = effects h \<and> same_world h h1"
proof -
  have o: "\<not> oom h n" "0 < brk h" for n using assms(1) by (simp_all add: arena_start_def plenty_def)
  let ?b = "brk h" and ?l = "\<lparr>log_type = [], log_status = []\<rparr>" and ?d = "\<lparr>pp_fighter = NULL, client_fds = NULL, p_file_struct = NULL\<rparr>"
  let ?v = "\<lparr>pp_fighters = ?b, client_socks = ?b + 16, queued = []\<rparr>"
  let ?h = "h\<lparr>fighter_arrs := [?b \<mapsto> [NULL, NULL]], fd_arrs := [?b + 16 \<mapsto> [0, 0]], fight_datas := [?b + 24 \<mapsto> ?d],
     allocs := Suc (Suc (Suc (Suc (allocs h)))), brk := ?b + 96, log_files := [?b + 48 \<mapsto> ?l]\<rparr>"
  have m: "arena_main (Some file) net p_tpool evs h = do {
         (v, h) \<leftarrow> arena_loop p_tpool (?b + 24) (?b + 48) evs ?v ?h;
         h \<leftarrow> arena_shut_down (?b + 24) (?b + 48) v h;
         Some (0, h)
       }"
    using assms o by (simp add: arena_main_def new_fighters_def new_socks_def calloc_with_def calloc_def arena_start_def all_free_def add.commute)
  have "rep (?b + 24) (?b + 48) (waiting (new_game h)) (fight_pair (new_game h)) ?v ?h ?d ?l [NULL, NULL] [0, 0] Map.empty Map.empty Map.empty Map.empty"
    using o assms(1) by (simp add: rep_def seat_none bout_def new_game_def arena_start_def all_free_def)
  then have "arena_inv (?b + 24) (?b + 48) (new_game h) ?v ?h"
    by (rule arena_invI [rotated -1]) (use assms(1) o in \<open>simp_all add: plenty_def below_brk_def new_game_def arena_start_def all_free_def\<close>)
  then show ?thesis using m by (intro exI [of _ "?b + 24"] exI [of _ "?b + 48"] exI [of _ ?v] exI [of _ ?h]) (simp add: same_world_def)
qed

lemma main_plays:
  assumes "arena_start h" "config_port file = Some prt" "net prt = Inr server" "p_tpool \<noteq> NULL"
    and "game_run (rand h) (close_fails h) evs (new_game h) = Some x"
  shows "\<exists>h'. arena_main (Some file) net p_tpool evs h = Some (0, h') \<and> effects h' = effects h @ x \<and> all_free h' \<and> \<not> log_open h'"
proof -
  obtain p_data p_file v h1 where m: "arena_main (Some file) net p_tpool evs h = do {
         (v, h) \<leftarrow> arena_loop p_tpool p_data p_file evs v h1;
         h \<leftarrow> arena_shut_down p_data p_file v h;
         Some (0, h)
       }" "arena_inv p_data p_file (new_game h) v h1" "effects h1 = effects h" "same_world h h1"
    using main_start [where net = net, OF assms(1,2,3)] by blast
  have "game_run (rand h1) (close_fails h1) evs (new_game h) = Some x" using assms(5) m(4) by (simp add: same_world_def)
  from sim_run [OF m(2) assms(4) this] obtain v' h' s' where l: "arena_loop p_tpool p_data p_file evs v h1 = Some (v', h')"
    "arena_inv p_data p_file s' v' h'" "fight_pair s' = None" "effects h' = effects h1 @ x" by blast
  from shut_down_free [OF l(2,3)] show ?thesis using m(1,3) l(1,4) by auto
qed

section \<open>Two fights that share their data\<close>

lemma join_overwrites:
  assumes inv: "arena_inv p_data p_file s v h" and run: "running h" and fd: "\<not> fd < 0" and w: "waiting s = Some (c, g)"
    and q: "fight_pair s \<noteq> None" and pool: "p_tpool \<noteq> NULL"
    and msg: "padded bs ! 0 \<noteq> 0" "read_fighter (padded bs) = Some f"
  shows "\<exists>v' h' d p1 l'. match_one p_tpool p_data p_file fd (Some bs) v h = Some (v', h') \<and> queued v' = [p_data, p_data]
    \<and> same_world h h' \<and> seeds h' = seeds h \<and> effects h' = effects h @ greeting fd \<and> running h' \<and> log_open h'
    \<and> fight_datas h' p_data = Some d \<and> log_files h' = [p_file_struct d \<mapsto> l'] \<and> fighter_arrs h' NULL = None
    \<and> fighter_arrs h' (pp_fighter d) = Some [p1, brk h] \<and> fd_arrs h' (client_fds d) = Some [c, fd]
    \<and> fighters h' p1 = Some g \<and> fighters h' (brk h) = Some f \<and> p1 \<noteq> brk h \<and> p1 \<noteq> NULL \<and> brk h \<noteq> NULL
    \<and> pp_fighter d \<noteq> NULL \<and> client_fds d \<noteq> NULL"
proof -
  obtain d l arr fds A S F G where r: "rep p_data p_file (waiting s) (fight_pair s) v h d l arr fds A S F G"
    using inv by (rule inv_rep)
  note i = inv_facts [OF inv] and rf = rep_facts [OF r]
  let ?b = "brk h" and ?l = "\<lparr>log_type = ''Connection'', log_status = ''Success''\<rparr>"
  obtain p1 where p1: "arr = [p1, NULL]" "p1 \<noteq> NULL" "fds ! 0 = c" "F = [p1 \<mapsto> g]" using r w by (auto simp: rep_def seat_some)
  have dis: "dom F \<inter> dom G = {}" and fig: "fighters h = F ++ G" using r by (simp_all add: rep_def)
  have g1: "fighters h p1 = Some g" using dis fig p1(4) by (auto simp: map_add_def split: option.splits)
  have b: "0 < ?b" by (rule plenty_brk [OF i(1)])
  have "fighters h p1 \<noteq> None" "fighter_arrs h (pp_fighters v) \<noteq> None" "fd_arrs h (client_socks v) \<noteq> None" using g1 rf by simp_all
  then have lt: "p1 < ?b" "pp_fighters v < ?b" "client_socks v < ?b" using i(2) by (meson below_brk_def not_less)+
  have nz: "pp_fighters v \<noteq> NULL" "client_socks v \<noteq> NULL" "queued v = [p_data]" using r q by (simp_all add: rep_def)
  have null: "fighter_arrs h NULL = None"
    using r q unfolding rep_def bout_def by (cases "fight_pair s") auto
  obtain n k where hc: "0 < k" "handle_connections fd (Some bs) (logged_in p_file h)
      = Some (?b, (logged_in p_file h)\<lparr>allocs := n, brk := ?b + k, fighters := (fighters h)(?b \<mapsto> f), effects := effects h @ greeting fd\<rparr>)"
    using hello_fighter [OF msg, of "logged_in p_file h" fd] i(1) by (auto simp: greeting_def)
  let ?d = "\<lparr>pp_fighter = pp_fighters v, client_fds = client_socks v, p_file_struct = p_file\<rparr>"
  let ?h1 = "(logged_in p_file h)\<lparr>allocs := n, brk := ?b + k, fighters := (fighters h)(?b \<mapsto> f), effects := effects h @ greeting fd,
      fighter_arrs := (fighter_arrs h)(pp_fighters v \<mapsto> [p1, ?b]), fd_arrs := (fd_arrs h)(client_socks v \<mapsto> fds[1 := fd]),
      fight_datas := (fight_datas h)(p_data \<mapsto> ?d)\<rparr>"
  let ?h' = "?h1\<lparr>allocs := n + 4, brk := ?b + k + 80, fighter_arrs := (fighter_arrs ?h1)(?b + k + 56 \<mapsto> [NULL, NULL]),
      fd_arrs := (fd_arrs ?h1)(?b + k + 72 \<mapsto> [0, 0])\<rparr>"
    and ?v' = "\<lparr>pp_fighters = ?b + k + 56, client_socks = ?b + k + 72, queued = [p_data, p_data]\<rparr>"
  have "plenty ?h1" using i(1) by (simp add: plenty_def logged_in_def)
  note over = hand_over [OF this pool, of p_data "queued v"]
  have m: "match_one p_tpool p_data p_file fd (Some bs) v h = Some (?v', ?h')"
    unfolding match_second [OF rf(1) i(3) fd rf(2) [unfolded p1(1)] p1(2)] hc(2)
    using over b rf p1(1) nz(3) by (simp add: set_slot_def set_sock_def upd_data_def logged_in_def)
  have fds: "fds[1 := fd] = [c, fd]" using rf(4) p1(3) by (cases fds; cases "tl fds") auto
  show ?thesis
    by (intro exI [of _ ?v'] exI [of _ ?h'] exI [of _ ?d] exI [of _ p1] exI [of _ ?l])
      (use m run i(3) g1 lt nz b fds null p1(2) in \<open>simp add: same_world_def logged_in_def\<close>)
qed

text \<open>The first of the two fights is the one of the second pair, and the second has no data left.\<close>

lemma shared_fights:
  assumes "fight_datas h p_data = Some d" "fighter_arrs h (pp_fighter d) = Some [p1, p2]" "fd_arrs h (client_fds d) = Some [a, b]"
    and "fighters h p1 = Some f" "fighters h p2 = Some g" "p1 \<noteq> p2" "p1 \<noteq> NULL" "p2 \<noteq> NULL" "pp_fighter d \<noteq> NULL" "client_fds d \<noteq> NULL"
    and "log_files h = [p_file_struct d \<mapsto> l]" "log_open h" "fighter_arrs h NULL = None"
    and "fight_effects (rand h (seeds h)) (close_fails h) (a, f) (b, g) = Some x"
  shows "\<exists>h'. run_fight p_data h = Some h' \<and> effects h' = effects h @ x \<and> run_fight p_data h' = None \<and> running h' = running h"
proof -
  obtain g1 g2 msg where res: "fight_loop (rand h (seeds h)) 0 (at_full f) (at_full g) = Some (g1, g2)" "result_msg g1 g2 = Some msg"
    "x = [Sent a msg, Sent b msg, Closed a, Logged ''Disconnection'' (close_status (close_fails h) a),
       Closed b, Logged ''Disconnection'' (close_status (close_fails h) b)]"
    using assms(14) by (auto simp: fight_effects_def split: bind_splits)
  let ?h1 = "h\<lparr>seeds := Suc (seeds h), fighters := (fighters h)(p1 \<mapsto> g1, p2 \<mapsto> g2),
      log_files := [p_file_struct d \<mapsto> \<lparr>log_type = ''Disconnection'', log_status = close_status (close_fails h) b\<rparr>], effects := effects h @ x\<rparr>"
  have dw: "decide_winner p_data h = Some ?h1" using decide_winner_eq [OF assms(1-6,11,12) res(1,2)] res(3) by simp
  have df: "data_free p_data ?h1 = Some (?h1\<lparr>fighters := (fighters ?h1)(p1 := None, p2 := None),
      fighter_arrs := (fighter_arrs ?h1)(pp_fighter d := None), fd_arrs := (fd_arrs ?h1)(client_fds d := None),
      fight_datas := (fight_datas ?h1)(p_data \<mapsto> d\<lparr>pp_fighter := NULL, client_fds := NULL\<rparr>)\<rparr>)"
    by (rule data_free_eq) (use assms in simp_all)
  show ?thesis unfolding run_fight_def dw bind.bind_lunit df using assms(13) by (simp add: decide_winner_def)
qed

lemma loop_join:
  assumes "running h" "match_one p_tpool p_data p_file fd msg v h = Some (v', h')"
  shows "arena_loop p_tpool p_data p_file (Join fd msg # evs) v h = arena_loop p_tpool p_data p_file evs v' h'"
  using assms by simp

lemma loop_first:
  assumes "arena_inv p_data p_file s v h" "is_open s" "\<not> fd < 0" "waiting s = None" "padded bs ! 0 \<noteq> 0" "read_fighter (padded bs) = Some f"
  shows "\<exists>v' h'. (\<forall>evs. arena_loop p_tpool p_data p_file (Join fd (Some bs) # evs) v h = arena_loop p_tpool p_data p_file evs v' h')
    \<and> arena_inv p_data p_file (s\<lparr>waiting := Some (fd, f)\<rparr>) v' h'"
  using sim_first [OF assms(1) _ assms(3-6)] inv_facts(5) [OF assms(1)] assms(2) unfolding simulates_def by blast

lemma loop_second:
  assumes "arena_inv p_data p_file s v h" "is_open s" "\<not> fd < 0" "waiting s = Some (a, g)" "fight_pair s = None" "p_tpool \<noteq> NULL"
    "padded bs ! 0 \<noteq> 0" "read_fighter (padded bs) = Some f"
  shows "\<exists>v' h'. (\<forall>evs. arena_loop p_tpool p_data p_file (Join fd (Some bs) # evs) v h = arena_loop p_tpool p_data p_file evs v' h')
    \<and> arena_inv p_data p_file (s\<lparr>waiting := None, fight_pair := Some ((a, g), (fd, f))\<rparr>) v' h'"
  using sim_second [OF assms(1) _ assms(3-8)] inv_facts(5) [OF assms(1)] assms(2) unfolding simulates_def by blast

text \<open>After two players have joined a new game, their fight waits.\<close>

lemma loop_pair:
  assumes inv: "arena_inv p_data p_file (new_game h0) v h" and pool: "p_tpool \<noteq> NULL"
    and a: "\<not> a < 0" "padded ba ! 0 \<noteq> 0" "read_fighter (padded ba) = Some f"
    and b: "\<not> b < 0" "padded bb ! 0 \<noteq> 0" "read_fighter (padded bb) = Some g"
  shows "\<exists>v' h' s. (\<forall>evs. arena_loop p_tpool p_data p_file (Join a (Some ba) # Join b (Some bb) # evs) v h
        = arena_loop p_tpool p_data p_file evs v' h')
    \<and> arena_inv p_data p_file s v' h' \<and> is_open s \<and> waiting s = None \<and> fight_pair s \<noteq> None"
proof -
  let ?s1 = "new_game h0\<lparr>waiting := Some (a, f)\<rparr>"
  have w: "is_open (new_game h0)" "waiting (new_game h0) = None" "fight_pair (new_game h0) = None" by (simp_all add: new_game_def)
  from loop_first [OF inv w(1) a(1) w(2) a(2,3), of p_tpool]
  obtain v1 h1 where 1: "\<And>evs. arena_loop p_tpool p_data p_file (Join a (Some ba) # evs) v h = arena_loop p_tpool p_data p_file evs v1 h1"
    "arena_inv p_data p_file ?s1 v1 h1" by blast
  have w1: "is_open ?s1" "waiting ?s1 = Some (a, f)" "fight_pair ?s1 = None" using w by simp_all
  from loop_second [OF 1(2) w1(1) b(1) w1(2,3) pool b(2,3)]
  obtain v2 h2 where 2: "\<And>evs. arena_loop p_tpool p_data p_file (Join b (Some bb) # evs) v1 h1 = arena_loop p_tpool p_data p_file evs v2 h2"
    "arena_inv p_data p_file (?s1\<lparr>waiting := None, fight_pair := Some ((a, f), (b, g))\<rparr>) v2 h2" by blast
  show ?thesis unfolding 1(1) 2(1) using 2(2) w
    by (intro exI [of _ v2] exI [of _ h2] exI [of _ "?s1\<lparr>waiting := None, fight_pair := Some ((a, f), (b, g))\<rparr>"]) simp
qed

lemma loop_interrupted:
  assumes inv: "arena_inv p_data p_file s v h" and op: "is_open s" and q: "fight_pair s \<noteq> None"
  shows "do { (v, h) \<leftarrow> arena_loop p_tpool p_data p_file [Interrupt] v h; arena_shut_down p_data p_file v h } = None"
proof -
  obtain d l arr fds A S F G where r: "rep p_data p_file (waiting s) (fight_pair s) v h d l arr fds A S F G" using inv by (rule inv_rep)
  let ?s = "s\<lparr>is_open := False\<rparr>"
  have "rep p_data p_file (waiting ?s) (fight_pair ?s) v (arena_sighandler h) d l arr fds A S F G" using r by (simp add: rep_def arena_sighandler_def)
  then have "arena_inv p_data p_file ?s v (arena_sighandler h)"
    by (rule arena_invI [rotated -1]) (use inv_facts [OF inv] in \<open>simp_all add: plenty_def below_brk_def arena_sighandler_def\<close>)
  from shut_down_undefined [OF this] show ?thesis using inv_facts(5) [OF inv] op q by (simp add: arena_sighandler_def)
qed

lemma loop_shared:
  assumes inv: "arena_inv p_data p_file s v h" and op: "is_open s" and fd: "\<not> fd < 0" and w: "waiting s = Some (c, g)"
    and q: "fight_pair s \<noteq> None" and pool: "p_tpool \<noteq> NULL"
    and msg: "padded bs ! 0 \<noteq> 0" "read_fighter (padded bs) = Some f"
  shows "arena_loop p_tpool p_data p_file (Join fd (Some bs) # Fight # Fight # evs) v h = None"
proof -
  have run: "running h" using inv_facts(5) [OF inv] op by simp
  obtain v' h' d p1 l' where m: "match_one p_tpool p_data p_file fd (Some bs) v h = Some (v', h')" "queued v' = [p_data, p_data]"
    "running h'" "fight_datas h' p_data = Some d" "log_open h'" "log_files h' = [p_file_struct d \<mapsto> l']" "fighter_arrs h' NULL = None"
    "fighter_arrs h' (pp_fighter d) = Some [p1, brk h]" "fd_arrs h' (client_fds d) = Some [c, fd]"
    "fighters h' p1 = Some g" "fighters h' (brk h) = Some f" "p1 \<noteq> brk h" "p1 \<noteq> NULL" "brk h \<noteq> NULL"
    "pp_fighter d \<noteq> NULL" "client_fds d \<noteq> NULL"
    using join_overwrites [OF inv run fd w q pool msg] by blast
  have "arena_loop p_tpool p_data p_file (Fight # Fight # evs) v' h' = None"
  proof (cases "fight_effects (rand h' (seeds h')) (close_fails h') (c, g) (fd, f)")
    case (Some x)
    from shared_fights [OF m(4,8,9,10,11,12,13,14,15,16,6,5,7) Some]
    show ?thesis using m(2,3) by auto
  next
    case None
    have "(f\<lparr>health := 100\<rparr>) = at_full f" for f by (simp add: at_full_def)
    then have "run_fight p_data h' = None" using None m(4-16)
      by (auto simp: run_fight_def decide_winner_def fight_effects_def set_fighter_def Let_def split: bind_splits)
    then show ?thesis using m(2,3) by simp
  qed
  then show ?thesis unfolding loop_join [OF run m(1)] .
qed

end
