(* ===== verification/ArenaProps.thy ===== *)
theory ArenaProps
  imports ArenaRuns
begin

text \<open>The properties of the fighting game.\<close>

section \<open>The player and the server\<close>

lemma client_request_ok:
  assumes "name_ok n" "stat_ok a" "stat_ok d" "stat_ok (100 - a - d)"
  shows "client_request (n @ 10 # dec a @ 10 # dec d @ 10 # rest) = Some (player_msg n a d (100 - a - d), n, rest)"
  using input_val_ok [OF assms, of rest] client_request.simps [of "n @ 10 # dec a @ 10 # dec d @ 10 # rest"]
  by (auto simp: player_msg_def)

text \<open>C33: what a player types arrives. A name of at most eight characters and stats between 10 and 80
  that leave as much for the luck are sent as a message from which the server makes exactly this
  fighter.
\<close>

theorem player_message_roundtrip:
  assumes "name_ok n" "stat_ok a" "stat_ok d" "stat_ok (100 - a - d)" "plenty h"
  shows "\<exists>msg p h'. client_request (n @ 10 # dec a @ 10 # dec d @ 10 # rest) = Some (msg, n, rest)
    \<and> handle_connections fd (Some msg) h = Some (p, h') \<and> fighters h' p = Some (new_fighter n a d (100 - a - d))"
proof -
  let ?m = "player_msg n a d (100 - a - d)"
  obtain r where "padded ?m = ?m @ r" "padded ?m ! 0 \<noteq> 0" using padded_msg [OF assms(1-4)] by blast
  then have "read_fighter (padded ?m) = Some (new_fighter n a d (100 - a - d))" "padded ?m ! 0 \<noteq> 0"
    using read_fighter_msg [OF assms(1-4)] by simp_all
  from hello_fighter [OF this(2,1) assms(5), of fd] show ?thesis using client_request_ok [OF assms(1-4)] by auto
qed

definition arena0 :: "nat \<Rightarrow> arena" where
  "arena0 n = \<lparr>brk = 8, allocs = 0, oom = \<lambda>_. False, fighters = Map.empty, fighter_arrs = Map.empty, fd_arrs = Map.empty,
     fight_datas = Map.empty, log_files = Map.empty, log_open = True, running = True, effects = [], close_fails = \<lambda>_. False,
     seeds = 0, rand = \<lambda>_ _. n\<rparr>"

lemma arena0_ok: "plenty (arena0 n)" "arena_start (arena0 n)"
  by (simp_all add: arena0_def plenty_def arena_start_def all_free_def)

theorem player_message_roundtrip_witness:
  "\<exists>msg p h'. client_request ([65, 66] @ 10 # dec 60 @ 10 # dec 25 @ 10 # []) = Some (msg, [65, 66], [])
    \<and> handle_connections 4 (Some msg) (arena0 0) = Some (p, h') \<and> fighters h' p = Some (new_fighter [65, 66] 60 25 (100 - 60 - 25))"
  by (rule player_message_roundtrip) (simp_all add: name_ok_def stat_ok_def arena0_ok)

text \<open>C35: the report of a fight. When the names of the two players begin with different characters, have no
  comma and do not begin like the word for a tie, each player is shown the pair and the result of the
  fight: a tie for equal health, and otherwise the player who has more.
\<close>

theorem report_correct:
  assumes names: "name_ok n1" "name_ok n2" "token n1" "token n2" "hd n1 \<noteq> hd n2" "\<not> b_tie n1" "\<not> b_tie n2"
    and f: "f1 = (new_fighter n1 a1 d1 l1)\<lparr>health := x\<rparr>" "f2 = (new_fighter n2 a2 d2 l2)\<lparr>health := y\<rparr>"
  shows "\<exists>msg. result_msg f1 f2 = Some msg
    \<and> client_report n1 msg = Some [Matchup n1 n2, if x = y then Tied n1 n2 else The_winner (if x > y then n1 else n2)]
    \<and> client_report n2 msg = Some [Matchup n2 n1, if x = y then Tied n2 n1 else The_winner (if x > y then n1 else n2)]"
proof -
  have len: "length n1 \<le> 8" "length n2 \<le> 8" using names(1,2) by (simp_all add: name_ok_def)
  have ne: "n1 \<noteq> []" "n2 \<noteq> []" using names(3,4) by (simp_all add: token_def)
  have c: "cstr (name f1) = Some n1" "cstr (name f2) = Some n2" "arr_len (name f1) = length n1" "arr_len (name f2) = length n2"
    using new_fighter_name [OF names(1)] new_fighter_name [OF names(2)] f by simp_all
  have msg: "result_msg f1 f2 = Some (result_text f1 f2 n1 n2 @ [0])" by (rule result_msg_eq [OF c]) (use len in simp_all)
  note p = same_initial [OF ne(1) ne(1)] same_initial [OF ne(1) ne(2)] same_initial [OF ne(2) ne(1)] same_initial [OF ne(2) ne(2)]
  consider "x > y" | "x < y" | "x = y" by linarith
  then show ?thesis
  proof cases
    case 1
    then show ?thesis using msg f report_win [OF names(3,4,6)] len p names(5) by (simp add: result_text_def)
  next
    case 2
    then show ?thesis using msg f report_win [OF names(4,3,7)] len p names(5) by (simp add: result_text_def)
  next
    case 3
    then show ?thesis using msg f report_tie [OF names(3,4)] len p names(5) by (simp add: result_text_def)
  qed
qed

theorem report_correct_witness:
  "\<exists>msg. result_msg ((new_fighter [65] 60 20 20)\<lparr>health := 40\<rparr>) ((new_fighter [66] 60 20 20)\<lparr>health := -20\<rparr>) = Some msg
    \<and> client_report [65] msg = Some [Matchup [65] [66], if (40::int) = -20 then Tied [65] [66] else The_winner (if (40::int) > -20 then [65] else [66])]
    \<and> client_report [66] msg = Some [Matchup [66] [65], if (40::int) = -20 then Tied [66] [65] else The_winner (if (40::int) > -20 then [65] else [66])]"
  by (rule report_correct) (simp_all add: name_ok_def token_def b_tie_def same_prefix_def TIE_def)

text \<open>C36: reports that go wrong. The client compares first characters only: when both names begin with the
  same one, the loser is shown a fight against itself. When the loser has no name, or the winner is
  called like the word for a tie, the client uses a null pointer.
\<close>

theorem report_errors:
  assumes names: "name_ok n1" "name_ok n2" "token n1" "\<not> b_tie n1"
    and f: "f1 = (new_fighter n1 a1 d1 l1)\<lparr>health := x\<rparr>" "f2 = (new_fighter n2 a2 d2 l2)\<lparr>health := y\<rparr>" "x > y"
    and t: "ft = (new_fighter TIE a1 d1 l1)\<lparr>health := x\<rparr>"
  shows "(\<exists>msg. result_msg f1 f2 = Some msg
    \<and> (token n2 \<and> hd n1 = hd n2 \<longrightarrow> client_report n2 msg = Some [Matchup n2 n2, The_winner n1])
    \<and> (n2 = [] \<longrightarrow> client_report n msg = None))
    \<and> (\<exists>msg. result_msg ft f2 = Some msg \<and> (token n2 \<longrightarrow> client_report n msg = None))"
proof -
  have tie: "name_ok TIE" by (simp add: name_ok_def TIE_def)
  have len: "length n1 \<le> 8" "length n2 \<le> 8" "length TIE \<le> 8" using names(1,2) tie by (simp_all add: name_ok_def)
  have c: "cstr (name f1) = Some n1" "cstr (name f2) = Some n2" "arr_len (name f1) = length n1" "arr_len (name f2) = length n2"
    "cstr (name ft) = Some TIE" "arr_len (name ft) = length TIE"
    using new_fighter_name [OF names(1)] new_fighter_name [OF names(2)] new_fighter_name [OF tie] f t by simp_all
  have msg: "result_msg f1 f2 = Some (n1 @ [44] @ n2 @ [0])" "result_msg ft f2 = Some (TIE @ [44] @ n2 @ [0])"
    using result_msg_eq [OF c(1,2,3,4)] result_msg_eq [OF c(5,2,6,4)] len f t by (simp_all add: result_text_def)
  have same: "client_report n2 (n1 @ [44] @ n2 @ [0]) = Some [Matchup n2 n2, The_winner n1]" if "token n2" "hd n1 = hd n2"
    using report_win [OF names(3) that(1) names(4)] len same_initial [of n2 n1] names(3) that by (simp add: token_def)
  have empty: "client_report n (n1 @ [44] @ [] @ [0]) = None"
  proof -
    have "cstr (take 1024 ((n1 @ [44]) @ [0]) @ replicate (1024 - length ((n1 @ [44]) @ [0])) 0) = Some (n1 @ [44])"
      by (rule reply_cstr) (use names(3) len in \<open>auto simp: token_def\<close>)
    then show ?thesis using strtok_token(1) [OF names(3), of "[]"] names(4) strtok_empty
      by (simp add: client_report_def b_tie_def TIE_def Let_def del: take_append)
  qed
  show ?thesis using msg same empty report_taken_for_tie [of n2 n] len by simp
qed

theorem report_errors_witness:
  "(\<exists>msg. result_msg ((new_fighter [65] 60 20 20)\<lparr>health := 40\<rparr>) ((new_fighter [65, 66] 60 20 20)\<lparr>health := -20\<rparr>) = Some msg
    \<and> client_report [65, 66] msg = Some [Matchup [65, 66] [65, 66], The_winner [65]])
   \<and> (\<exists>msg. result_msg ((new_fighter TIE 60 20 20)\<lparr>health := 40\<rparr>) ((new_fighter [65, 66] 60 20 20)\<lparr>health := -20\<rparr>) = Some msg
    \<and> client_report [65] msg = None)"
  using report_errors [where ?n1.0 = "[65]" and ?n2.0 = "[65, 66]" and ?a1.0 = 60 and ?d1.0 = 20 and ?l1.0 = 20 and x = 40
    and ?a2.0 = 60 and ?d2.0 = 20 and ?l2.0 = 20 and y = "-20" and n = "[65]", OF _ _ _ _ refl refl _ refl]
  by (auto simp: name_ok_def token_def b_tie_def same_prefix_def TIE_def)

section \<open>Fights\<close>

text \<open>C31: the outcome of a fight. The loop returns exactly when some round brings a fighter's losses to 100 points,
  and then it has stopped at the first such round, with all the damage of both taken off. No
  health leaves the range of -509 to 100.
\<close>

theorem fight_outcome:
  "fight_loop rnd 0 (at_full f1) (at_full f2) = Some (g1, g2) \<longleftrightarrow>
     (\<exists>k. (100 \<le> dealt rnd 0 f1 f2 k \<or> 100 \<le> dealt rnd 2 f2 f1 k)
        \<and> (\<forall>j<k. dealt rnd 0 f1 f2 j < 100 \<and> dealt rnd 2 f2 f1 j < 100)
        \<and> g1 = f1\<lparr>health := 100 - dealt rnd 2 f2 f1 k\<rparr> \<and> g2 = f2\<lparr>health := 100 - dealt rnd 0 f1 f2 k\<rparr>
        \<and> -510 < health g1 \<and> health g1 \<le> 100 \<and> -510 < health g2 \<and> health g2 \<le> 100)"
proof -
  have n: "\<not> decided rnd f1 f2 j \<longleftrightarrow> dealt rnd 0 f1 f2 j < 100 \<and> dealt rnd 2 f2 f1 j < 100" for j by (auto simp: decided_def)
  have b: "-510 < 100 - dealt rnd 2 f2 f1 k \<and> 100 - dealt rnd 2 f2 f1 k \<le> 100 \<and> -510 < 100 - dealt rnd 0 f1 f2 k \<and> 100 - dealt rnd 0 f1 f2 k \<le> 100"
    if "\<forall>j<k. \<not> decided rnd f1 f2 j" for k using dealt_at_end [OF that] by linarith
  have "(decided rnd f1 f2 k \<and> (\<forall>j<k. \<not> decided rnd f1 f2 j) \<and> g1 = f1\<lparr>health := 100 - dealt rnd 2 f2 f1 k\<rparr> \<and> g2 = f2\<lparr>health := 100 - dealt rnd 0 f1 f2 k\<rparr>)
    \<longleftrightarrow> (decided rnd f1 f2 k \<and> (\<forall>j<k. \<not> decided rnd f1 f2 j) \<and> g1 = f1\<lparr>health := 100 - dealt rnd 2 f2 f1 k\<rparr> \<and> g2 = f2\<lparr>health := 100 - dealt rnd 0 f1 f2 k\<rparr>
      \<and> -510 < health g1 \<and> health g1 \<le> 100 \<and> -510 < health g2 \<and> health g2 \<le> 100)" for k
  proof (cases "\<forall>j<k. \<not> decided rnd f1 f2 j")
    case True
    then show ?thesis using b [OF True] by (simp cong: conj_cong)
  qed blast
  then show ?thesis unfolding fight_loop_iff n [symmetric] decided_def [symmetric] by (intro iff_exI)
qed

lemma fighter_parts [simp]:
  "attack (new_fighter n a d l) = of_nat a" "dodge (new_fighter n a d l) = of_nat d" "luck (new_fighter n a d l) = of_nat l"
  by (simp_all add: new_fighter_def)

theorem fight_outcome_witness:
  "fight_loop (\<lambda>_. 99) 0 (at_full (new_fighter [65] 80 10 10)) (at_full (new_fighter [66] 50 25 25))
     = Some ((new_fighter [65] 80 10 10)\<lparr>health := 0\<rparr>, (new_fighter [66] 50 25 25)\<lparr>health := -60\<rparr>)"
proof -
  have "dealt (\<lambda>_. 99) 0 (new_fighter [65] 80 10 10) (new_fighter [66] 50 25 25) k = 80 * int k" for k
    by (induction k) (simp_all add: dealt_def damage_def)
  moreover have "dealt (\<lambda>_. 99) 2 (new_fighter [66] 50 25 25) (new_fighter [65] 80 10 10) k = 50 * int k" for k
    by (induction k) (simp_all add: dealt_def damage_def)
  ultimately show ?thesis by (intro fight_outcome [THEN iffD2] exI [of _ 2]) (auto simp: less_2_cases_iff)
qed

text \<open>C32: fights end when the dice are fair, and only then. If an attack of at least 10 comes again and
  again with a number above the other's dodge, the loop returns. Between two fighters who cannot hurt each
  other, without an attack or with a dodge of 99 or more, it does not.
\<close>

theorem fight_ends:
  assumes "\<forall>n. \<exists>j\<ge>n. rnd (4 * j) mod 100 > unat (dodge f2)" "10 \<le> unat (attack f1)"
    and "attack e1 = 0 \<or> 99 \<le> unat (dodge e2)" "attack e2 = 0 \<or> 99 \<le> unat (dodge e1)"
  shows "fight_loop rnd 0 (at_full f1) (at_full f2) \<noteq> None \<and> fight_loop rnd' 0 (at_full e1) (at_full e2) = None"
proof
  obtain k where "10 * int 10 \<le> dealt rnd 0 f1 f2 k" using hits_enough [where i = 0 and rnd = rnd and g = f2 and f = f1 and m = 10] assms(1,2) by auto
  then have "decided rnd f1 f2 k" by (simp add: decided_def)
  then show "fight_loop rnd 0 (at_full f1) (at_full f2) \<noteq> None" unfolding fight_loop_ends_iff by blast
  have "\<not> decided rnd' e1 e2 k" for k by (simp add: decided_def never_hurt [OF assms(3)] never_hurt [OF assms(4)])
  then show "fight_loop rnd' 0 (at_full e1) (at_full e2) = None" using fight_loop_ends_iff by blast
qed

theorem fight_ends_witness:
  "fight_loop (\<lambda>_. 99) 0 (at_full (new_fighter [65] 80 10 10)) (at_full (new_fighter [66] 50 25 25)) \<noteq> None
   \<and> fight_loop (\<lambda>_. 99) 0 (at_full (new_fighter [65] 0 99 10)) (at_full (new_fighter [66] 50 25 25)) = None"
  using fight_ends [where rnd = "\<lambda>_. 99" and rnd' = "\<lambda>_. 99" and ?f1.0 = "new_fighter [65] 80 10 10" and ?f2.0 = "new_fighter [66] 50 25 25"
      and ?e1.0 = "new_fighter [65] 0 99 10" and ?e2.0 = "new_fighter [66] 50 25 25"]
  by auto

section \<open>The arena\<close>

definition player_ok :: "byte list \<Rightarrow> nat \<Rightarrow> nat \<Rightarrow> nat \<Rightarrow> bool" where
  "player_ok n a d l \<longleftrightarrow> name_ok n \<and> stat_ok a \<and> stat_ok d \<and> stat_ok l"

lemma player_ok_msg:
  assumes "player_ok n a d l"
  shows "padded (player_msg n a d l) ! 0 \<noteq> 0" "read_fighter (padded (player_msg n a d l)) = Some (new_fighter n a d l)"
  using assms padded_msg [of n a d l] read_fighter_msg [of n a d l] unfolding player_ok_def by auto

lemma port_4433: "config_port [52, 52, 51, 51, 44] = Some 4433"
  by (simp add: config_port_def strtok_def strtol_def is_space_def digits_def is_digit_def)

definition server0 :: game_server_t where
  "server0 = \<lparr>domain = 2, protocol = 0, service = 1, interface = 0, port = 4433, backlog = 5,
     addr = \<lparr>sin_family = 2, sin_port = htons 4433, sin_addr = 0\<rparr>, socket = 3\<rparr>"

text \<open>C3: the arena plays the game. Whatever joins, fights and signals come, as long as no pair has to wait for
  another pair's fight and every fight ends: the messages, closed sockets and log lines are those of
  the game without memory, the players are paired in the order they come, and at the end
  nothing is left allocated and the log is closed.
\<close>

theorem arena_plays_game:
  assumes "arena_start h" "config_port file = Some prt" "net prt = Inr server" "p_tpool \<noteq> NULL"
    and "game_run (rand h) (close_fails h) evs (new_game h) = Some x"
  shows "\<exists>h'. arena_main (Some file) net p_tpool evs h = Some (0, h') \<and> effects h' = effects h @ x
    \<and> fighters h' = Map.empty \<and> fighter_arrs h' = Map.empty \<and> fd_arrs h' = Map.empty \<and> fight_datas h' = Map.empty
    \<and> log_files h' = Map.empty \<and> \<not> log_open h'"
  using main_plays [where net = net, OF assms] by (auto simp: all_free_def)

lemma fight_80_50: "fight_effects (\<lambda>_. 99) (\<lambda>_. False) (4, new_fighter [65] 80 10 10) (5, new_fighter [66] 50 25 25)
   = Some [Sent 4 [65, 44, 66, 0], Sent 5 [65, 44, 66, 0], Closed 4, Logged ''Disconnection'' ''Success'',
       Closed 5, Logged ''Disconnection'' ''Success'']"
proof -
  let ?f = "(new_fighter [65] 80 10 10)\<lparr>health := 0\<rparr>" and ?g = "(new_fighter [66] 50 25 25)\<lparr>health := -60\<rparr>"
  have d: "dealt (\<lambda>_. 99) 0 (new_fighter [65] 80 10 10) (new_fighter [66] 50 25 25) k = 80 * int k"
    "dealt (\<lambda>_. 99) 2 (new_fighter [66] 50 25 25) (new_fighter [65] 80 10 10) k = 50 * int k" for k
    by (induction k) (simp_all add: dealt_def damage_def)
  have l: "fight_loop (\<lambda>_. 99) 0 (at_full (new_fighter [65] 80 10 10)) (at_full (new_fighter [66] 50 25 25)) = Some (?f, ?g)"
    unfolding fight_loop_iff by (rule exI [of _ 2]) (auto simp: decided_def d less_2_cases_iff)
  have n: "name_ok [65]" "name_ok [66]" by (simp_all add: name_ok_def)
  have "result_msg ?f ?g = Some ([65, 44, 66] @ [0])"
    using result_msg_eq [of ?f "[65]" ?g "[66]"] new_fighter_name [OF n(1)] new_fighter_name [OF n(2)] by (simp add: result_text_def)
  then show ?thesis using l by (simp add: fight_effects_def close_status_def)
qed

theorem arena_plays_game_witness:
  "\<exists>h'. arena_main (Some [52, 52, 51, 51, 44]) (\<lambda>_. Inr server0) 1
      [Join (-1) None, Join 4 (Some (player_msg [65] 80 10 10)), Join 6 (Some []), Join 5 (Some (player_msg [66] 50 25 25)), Fight, Interrupt]
      (arena0 99) = Some (0, h')
    \<and> effects h' = effects (arena0 99) @ (greeting 4 @ greeting 6 @ [Closed 6] @ greeting 5
       @ [Sent 4 [65, 44, 66, 0], Sent 5 [65, 44, 66, 0], Closed 4, Logged ''Disconnection'' ''Success'',
          Closed 5, Logged ''Disconnection'' ''Success''])
    \<and> fighters h' = Map.empty \<and> fighter_arrs h' = Map.empty \<and> fd_arrs h' = Map.empty \<and> fight_datas h' = Map.empty
    \<and> log_files h' = Map.empty \<and> \<not> log_open h'"
proof (rule arena_plays_game [OF arena0_ok(2) port_4433])
  have "player_ok [65] 80 10 10" "player_ok [66] 50 25 25" by (simp_all add: player_ok_def name_ok_def stat_ok_def)
  note p = player_ok_msg [OF this(1)] player_ok_msg [OF this(2)]
  have e: "padded [] ! 0 = 0" by (simp add: padded_def)
  have r: "rand (arena0 99) 0 = (\<lambda>_. 99)" "close_fails (arena0 99) = (\<lambda>_. False)" "seeds (arena0 99) = 0" by (simp_all add: arena0_def)
  show "game_run (rand (arena0 99)) (close_fails (arena0 99))
     [Join (-1) None, Join 4 (Some (player_msg [65] 80 10 10)), Join 6 (Some []), Join 5 (Some (player_msg [66] 50 25 25)), Fight, Interrupt]
     (new_game (arena0 99)) = Some (greeting 4 @ greeting 6 @ [Closed 6] @ greeting 5
       @ [Sent 4 [65, 44, 66, 0], Sent 5 [65, 44, 66, 0], Closed 4, Logged ''Disconnection'' ''Success'',
          Closed 5, Logged ''Disconnection'' ''Success''])"
    using p e r fight_80_50 by (simp add: game_event_def game_join_def new_game_def)
qed simp_all

text \<open>C34: all fights share one object for their data. A fight that waits when the next pair is complete loses its
  players: the pool runs the second pair's fight in its place, and what it runs next has only null pointers
  left, so the program's behaviour is undefined. A fight that waits when the server is stopped is run with
  data that has been freed.
\<close>

theorem shared_fight_data:
  assumes "arena_start h" "config_port file = Some prt" "net prt = Inr server" "p_tpool \<noteq> NULL"
    and "player_ok n1 a1 d1 l1" "player_ok n2 a2 d2 l2" "player_ok n3 a3 d3 l3" "player_ok n4 a4 d4 l4"
    and "0 \<le> s1" "0 \<le> s2" "0 \<le> s3" "0 \<le> s4"
  shows "arena_main (Some file) net p_tpool (Join s1 (Some (player_msg n1 a1 d1 l1)) # Join s2 (Some (player_msg n2 a2 d2 l2))
      # Join s3 (Some (player_msg n3 a3 d3 l3)) # Join s4 (Some (player_msg n4 a4 d4 l4)) # Fight # Fight # evs) h = None
    \<and> arena_main (Some file) net p_tpool [Join s1 (Some (player_msg n1 a1 d1 l1)), Join s2 (Some (player_msg n2 a2 d2 l2)), Interrupt] h = None"
proof -
  note p = player_ok_msg [OF assms(5)] player_ok_msg [OF assms(6)] player_ok_msg [OF assms(7)] player_ok_msg [OF assms(8)]
  have fd: "\<not> s1 < 0" "\<not> s2 < 0" "\<not> s3 < 0" "\<not> s4 < 0" using assms(9-12) by simp_all
  let ?j1 = "Join s1 (Some (player_msg n1 a1 d1 l1))" and ?j2 = "Join s2 (Some (player_msg n2 a2 d2 l2))"
    and ?j3 = "Join s3 (Some (player_msg n3 a3 d3 l3))" and ?j4 = "Join s4 (Some (player_msg n4 a4 d4 l4))"
  have main: "arena_main (Some file) net p_tpool (?j1 # ?j2 # evs) h = None"
    if bad: "\<And>p_data p_file s v h. \<lbrakk>arena_inv p_data p_file s v h; is_open s; waiting s = None; fight_pair s \<noteq> None\<rbrakk>
       \<Longrightarrow> do { (v, h) \<leftarrow> arena_loop p_tpool p_data p_file evs v h; arena_shut_down p_data p_file v h } = None" for evs
  proof -
    obtain p_data p_file v h1 where m: "arena_main (Some file) net p_tpool (?j1 # ?j2 # evs) h = do {
         (v, h) \<leftarrow> arena_loop p_tpool p_data p_file (?j1 # ?j2 # evs) v h1;
         h \<leftarrow> arena_shut_down p_data p_file v h;
         Some (0, h)
       }" "arena_inv p_data p_file (new_game h) v h1"
      using main_start [where net = net, OF assms(1,2,3)] by blast
    from loop_pair [OF m(2) assms(4) fd(1) p(1,2) fd(2) p(3,4)] obtain v' h' s where l:
      "arena_loop p_tpool p_data p_file (?j1 # ?j2 # evs) v h1 = arena_loop p_tpool p_data p_file evs v' h'"
      "arena_inv p_data p_file s v' h'" "is_open s" "waiting s = None" "fight_pair s \<noteq> None" by blast
    from bad [OF l(2-5)] show ?thesis unfolding m(1) l(1) by (auto split: bind_splits)
  qed
  have "arena_loop p_tpool p_data p_file (?j3 # ?j4 # Fight # Fight # evs) v h = None"
    if i: "arena_inv p_data p_file s v h" "is_open s" "waiting s = None" "fight_pair s \<noteq> None" for p_data p_file s v h
  proof -
    from loop_first [OF i(1,2) fd(3) i(3) p(5,6), of p_tpool] obtain v' h' where l:
      "arena_loop p_tpool p_data p_file (?j3 # ?j4 # Fight # Fight # evs) v h = arena_loop p_tpool p_data p_file (?j4 # Fight # Fight # evs) v' h'"
      "arena_inv p_data p_file (s\<lparr>waiting := Some (s3, new_fighter n3 a3 d3 l3)\<rparr>) v' h'" by blast
    show ?thesis unfolding l(1) by (rule loop_shared [OF l(2) _ fd(4) _ _ assms(4) p(7,8)]) (use i in simp_all)
  qed
  then have "arena_main (Some file) net p_tpool (?j1 # ?j2 # ?j3 # ?j4 # Fight # Fight # evs) h = None"
    by (intro main) (simp del: arena_loop.simps)
  moreover have "arena_main (Some file) net p_tpool [?j1, ?j2, Interrupt] h = None"
    by (intro main loop_interrupted)
  ultimately show ?thesis by blast
qed

theorem shared_fight_data_witness:
  "arena_main (Some [52, 52, 51, 51, 44]) (\<lambda>_. Inr server0) 1
     [Join 4 (Some (player_msg [65] 80 10 10)), Join 5 (Some (player_msg [66] 50 25 25)), Interrupt] (arena0 99) = None"
  by (rule shared_fight_data [where ?n3.0 = "[67]" and ?a3.0 = 20 and ?d3.0 = 20 and ?l3.0 = 60 and ?n4.0 = "[68]" and ?a4.0 = 20
      and ?d4.0 = 20 and ?l4.0 = 60 and ?s3.0 = 6 and ?s4.0 = 7, OF arena0_ok(2) port_4433, THEN conjunct2])
    (simp_all add: player_ok_def name_ok_def stat_ok_def)

end
