(* ===== verification/Bracket.thy ===== *)
theory Bracket
  imports CQueueSpec
begin

text \<open>
  The tournament of Client-Server-Networking/bracket.c (and its copy Basics/bracket.c), on the queue
  of module_1/src/queue.c. A fighter is an \<open>int\<close> in memory: \<open>vals\<close> holds the readable ones, \<open>owned\<close> the
  addresses that \<open>calloc\<close> returned, which are those \<open>free\<close> accepts; the fighters of \<open>main\<close> are local
  variables, readable but not owned. Output is left out.
\<close>

record cells =
  vals :: "ptr \<rightharpoonup> int"
  owned :: "ptr set"

type_synonym bheap = "cells m1_heap"

abbreviation cells :: "bheap \<Rightarrow> cells" where "cells \<equiv> queue_heap.more"

text \<open>The address of \<open>free\<close>.\<close>

definition FREE_INT :: fptr where "FREE_INT = 1"

definition read_int :: "ptr \<Rightarrow> bheap \<Rightarrow> int option" where
  "read_int p h = vals (cells h) p"

definition free_cell :: "ptr \<Rightarrow> cells \<Rightarrow> cells option" where
  "free_cell p z = (if p = NULL then Some z
     else if p \<in> owned z then Some (z\<lparr>vals := (vals z)(p := None), owned := owned z - {p}\<rparr>) else None)"

definition free_int :: "ptr \<Rightarrow> bheap \<Rightarrow> bheap option" where
  "free_int p h = map_option (qwith_more h) (free_cell p (cells h))"

definition write_int :: "ptr \<Rightarrow> int \<Rightarrow> bheap \<Rightarrow> bheap option" where
  "write_int p v h = (if vals (cells h) p = None then None
     else Some (qwith_more h ((cells h)\<lparr>vals := (vals (cells h))(p \<mapsto> v)\<rparr>)))"

definition calloc_int :: "bheap \<Rightarrow> ptr \<times> bheap" where
  "calloc_int h = (let (p, h) = calloc 4 h in
     if p = NULL then (NULL, h)
     else (p, qwith_more h ((cells h)\<lparr>vals := (vals (cells h))(p \<mapsto> 0), owned := insert p (owned (cells h))\<rparr>)))"

definition call_free_int :: "(\<lparr>position :: 32 word\<rparr>, cells) qfree_call" where
  "call_free_int f d h = (if f = FREE_INT then free_int d h else None)"

section \<open>Operations\<close>

definition enter_arena :: "int \<Rightarrow> int \<Rightarrow> int" where
  "enter_arena f1 f2 = (if f1 \<ge> f2 then f1 else f2)"

text \<open>\<open>print_queue\<close> reads every fighter of the queue; the numbers it prints are its result.\<close>

fun print_loop :: "nat \<Rightarrow> ptr \<Rightarrow> bheap \<Rightarrow> int list option" where
  "print_loop 0 temp h = Some []"
| "print_loop (Suc n) temp h = do {
     node \<leftarrow> qnodes h temp;
     v \<leftarrow> read_int (q_data node) h;
     vs \<leftarrow> print_loop n (q_next node) h;
     Some (v # vs)
   }"

definition print_queue :: "ptr \<Rightarrow> bheap \<Rightarrow> int list option" where
  "print_queue p_queue h =
     (if p_queue = NULL then Some []
      else do { q \<leftarrow> queues h p_queue; print_loop (unat (q_size q)) (q_head q) h })"

text \<open>The loop over \<open>j\<close> of \<open>perfect_bracket\<close>, for its remaining \<open>n\<close> rounds, and that over \<open>i\<close>.\<close>

fun bracket_fights :: "ptr \<Rightarrow> nat \<Rightarrow> bheap \<Rightarrow> bheap option" where
  "bracket_fights p_queue 0 h = Some h"
| "bracket_fights p_queue (Suc n) h = do {
     (f1, h) \<leftarrow> m1_queue_dequeue p_queue h;
     (f2, h) \<leftarrow> m1_queue_dequeue p_queue h;
     let (winner, h) = calloc_int h;
     v1 \<leftarrow> read_int f1 h;
     v2 \<leftarrow> read_int f2 h;
     h \<leftarrow> write_int winner (enter_arena v1 v2) h;
     h \<leftarrow> free_int f1 h;
     h \<leftarrow> free_int f2 h;
     (_, h) \<leftarrow> m1_queue_enqueue p_queue winner FREE_INT h;
     bracket_fights p_queue n h
   }"

fun bracket_rounds :: "ptr \<Rightarrow> nat \<Rightarrow> bheap \<Rightarrow> bheap option" where
  "bracket_rounds p_queue 0 h = Some h"
| "bracket_rounds p_queue (Suc i) h = do {
     q \<leftarrow> queues h p_queue;
     h \<leftarrow> bracket_fights p_queue (nat (sint (q_size q)) div 2) h;
     _ \<leftarrow> print_queue p_queue h;
     bracket_rounds p_queue i h
   }"

definition perfect_bracket :: "ptr \<Rightarrow> bheap \<Rightarrow> (int \<times> bheap) option" where
  "perfect_bracket p_queue h = do {
     q \<leftarrow> queues h p_queue;
     let rounds = sint (q_size q div 4 + 1);
     h \<leftarrow> bracket_rounds p_queue (nat rounds) h;
     p \<leftarrow> m1_queue_peek p_queue h;
     ret \<leftarrow> read_int p h;
     (_, _, h) \<leftarrow> m1_queue_destroy call_free_int p_queue h;
     Some (ret, h)
   }"

text \<open>The statement \<open>f = *(int *)queue_dequeue(q)\<close>, which drops the address it read.\<close>

definition take_fighter :: "ptr \<Rightarrow> bheap \<Rightarrow> (int \<times> bheap) option" where
  "take_fighter q h = do {
     (p, h) \<leftarrow> m1_queue_dequeue q h;
     v \<leftarrow> read_int p h;
     Some (v, h)
   }"

definition send_on :: "ptr \<Rightarrow> int \<Rightarrow> bheap \<Rightarrow> bheap option" where
  "send_on q v h = do {
     let (p, h) = calloc_int h;
     h \<leftarrow> write_int p v h;
     (_, h) \<leftarrow> m1_queue_enqueue q p FREE_INT h;
     Some h
   }"

text \<open>A fighter without a first fight is copied: \<open>bye = calloc(1, sizeof(int)); *bye = *(int *)queue_dequeue(q)\<close>.\<close>

definition take_bye :: "ptr \<Rightarrow> bheap \<Rightarrow> (ptr \<times> bheap) option" where
  "take_bye q h = do {
     let (bye, h) = calloc_int h;
     (v, h) \<leftarrow> take_fighter q h;
     h \<leftarrow> write_int bye v h;
     Some (bye, h)
   }"

text \<open>The loops over \<open>iter\<close> of \<open>set_bracket\<close>, for their remaining \<open>n\<close> rounds.\<close>

fun pair_loop :: "ptr \<Rightarrow> ptr \<Rightarrow> nat \<Rightarrow> bheap \<Rightarrow> bheap option" where
  "pair_loop p_fight_queue winner_queue 0 h = Some h"
| "pair_loop p_fight_queue winner_queue (Suc n) h = do {
     (f1, h) \<leftarrow> take_fighter p_fight_queue h;
     (f2, h) \<leftarrow> take_fighter p_fight_queue h;
     h \<leftarrow> send_on winner_queue (enter_arena f1 f2) h;
     pair_loop p_fight_queue winner_queue n h
   }"

definition all_pairs :: "ptr \<Rightarrow> ptr \<Rightarrow> bheap \<Rightarrow> bheap option" where
  "all_pairs p_fight_queue winner_queue h = do {
     q \<leftarrow> queues h p_fight_queue;
     pair_loop p_fight_queue winner_queue (unat (q_size q div 2)) h
   }"

definition set_bracket :: "ptr \<Rightarrow> bheap \<Rightarrow> (int \<times> bheap) option" where
  "set_bracket p_fight_queue h = do {
     q \<leftarrow> queues h p_fight_queue;
     if q_size q = 1 then do {
       p \<leftarrow> m1_queue_peek p_fight_queue h;
       v \<leftarrow> read_int p h;
       Some (v, h)
     } else if q_size q = 2 then do {
       (f1, h) \<leftarrow> take_fighter p_fight_queue h;
       (f2, h) \<leftarrow> take_fighter p_fight_queue h;
       Some (enter_arena f1 f2, h)
     } else if q_size q mod 4 = 0 then perfect_bracket p_fight_queue h
     else do {
       (winner_queue, h) \<leftarrow> m1_queue_create h;
       h \<leftarrow> (if q_size q mod 4 = 3 then do {
           (frst_rd_bye, h) \<leftarrow> take_bye p_fight_queue h;
           (_, h) \<leftarrow> m1_queue_enqueue winner_queue frst_rd_bye FREE_INT h;
           all_pairs p_fight_queue winner_queue h
         } else if q_size q mod 4 = 2 then do {
           (frb1, h) \<leftarrow> take_bye p_fight_queue h;
           (frb2, h) \<leftarrow> take_bye p_fight_queue h;
           (_, h) \<leftarrow> m1_queue_enqueue winner_queue frb1 FREE_INT h;
           (_, h) \<leftarrow> m1_queue_enqueue winner_queue frb2 FREE_INT h;
           h \<leftarrow> all_pairs p_fight_queue winner_queue h;
           _ \<leftarrow> print_queue winner_queue h;
           Some h
         } else do {
           (f1, h) \<leftarrow> take_fighter p_fight_queue h;
           (f2, h) \<leftarrow> take_fighter p_fight_queue h;
           h \<leftarrow> send_on p_fight_queue (enter_arena f1 f2) h;
           all_pairs p_fight_queue winner_queue h
         });
       (_, _, h) \<leftarrow> m1_queue_destroy call_free_int p_fight_queue h;
       perfect_bracket winner_queue h
     }
   }"

text \<open>\<open>main\<close>, whose fighters are local variables at the addresses \<open>locals\<close>: 1, 3, 15, 7, 5 and 21, and two that it does not use.\<close>

definition main_fighters :: "int list" where
  "main_fighters = [1, 3, 15, 7, 5, 21, 6, 20]"

fun enter_all :: "ptr \<Rightarrow> ptr list \<Rightarrow> bheap \<Rightarrow> bheap option" where
  "enter_all p_queue [] h = Some h"
| "enter_all p_queue (a # as) h = do { (_, h) \<leftarrow> m1_queue_enqueue p_queue a NULL h; enter_all p_queue as h }"

definition bracket_main :: "ptr list \<Rightarrow> bheap \<Rightarrow> (int \<times> bheap) option" where
  "bracket_main locals h = do {
     let h = qwith_more h ((cells h)\<lparr>vals := vals (cells h) ++ map_of (zip locals main_fighters)\<rparr>);
     (p_queue, h) \<leftarrow> m1_queue_create h;
     h \<leftarrow> enter_all p_queue (take 6 locals) h;
     _ \<leftarrow> print_queue p_queue h;
     set_bracket p_queue h
   }"

end
