(* ===== verification/BracketQueues.thy ===== *)
theory BracketQueues
  imports Bracket
begin

text \<open>
  Several queues on one heap: \<open>holds h Q\<close> says that they share no node and that each represents
  the sequence \<open>Q\<close> gives it. An operation on one of them leaves the others as they are.
\<close>

section \<open>Enqueuing beside other queues\<close>

lemma enqueue_at:
  assumes ok: "qheap_ok h" and at: "queue_at h p ps" and d: "d \<noteq> NULL" and len: "Suc (length ps) < 2 ^ 32" and mem: "can_alloc h"
  shows "\<exists>h'. m1_queue_enqueue p d f h = Some (True, h') \<and> qheap_ok h' \<and> queue_at h' p (ps @ [brk h])
    \<and> items (qview (qnodes h')) (ps @ [brk h]) = items (qview (qnodes h)) ps @ [(d, f)] \<and> qframe h h' p (set ps) \<and> brk h < brk h'"
proof -
  obtain q where q: "queues h p = Some q" by (rule queue_atE [OF at]) auto
  let ?n = "\<lparr>q_data = d, q_next = NULL, q_free = f, position = q_size q\<rparr>"
  let ?h1 = "h\<lparr>allocs := Suc (allocs h), brk := brk h + 32, qnodes := (qnodes h)(brk h \<mapsto> ?n)\<rparr>"
  have nx: "q_next ?n = NULL" "(0::nat) < 32" by simp_all
  note f = fresh_qnode [OF ok at nx]
  have b: "qnodes ?h1 (brk h) = Some ?n" by simp
  from queue_link_at [OF f(1,2) b nx(1) f(3) len] f(4) obtain h' where h': "queue_link p (brk h) ?h1 = Some h'" "qheap_ok h'"
    "queue_at h' p (ps @ [brk h])" "items (qview (qnodes h')) (ps @ [brk h]) = items (qview (qnodes h)) ps @ [(d, f)]" "qframe ?h1 h' p (set ps)"
    by auto
  have "m1_queue_enqueue p d f h = Some (True, h')"
    using h'(1) mem d q queue_at_nonnull [OF ok at] calloc_qnode_ok [OF mem ok] ok
    by (simp add: m1_queue_enqueue_def heap_defs qheap_ok_def)
  moreover have "qframe h h' p (set ps)" "brk h < brk h'" using h'(5) by (auto simp: qframe_def)
  ultimately show ?thesis using h'(2-4) by blast
qed

section \<open>Several queues\<close>

type_synonym contents = "ptr \<rightharpoonup> (ptr \<times> fptr) list"

definition holds_at :: "'z m1_heap \<Rightarrow> contents \<Rightarrow> (ptr \<Rightarrow> ptr list) \<Rightarrow> bool" where
  "holds_at h Q N \<longleftrightarrow> qheap_ok h
     \<and> (\<forall>p xs. Q p = Some xs \<longrightarrow> queue_at h p (N p) \<and> xs = items (qview (qnodes h)) (N p) \<and> (\<forall>x \<in> set xs. fst x \<noteq> NULL))
     \<and> (\<forall>p q. Q p \<noteq> None \<and> Q q \<noteq> None \<and> p \<noteq> q \<longrightarrow> set (N p) \<inter> set (N q) = {})"

definition holds :: "'z m1_heap \<Rightarrow> contents \<Rightarrow> bool" where
  "holds h Q \<longleftrightarrow> (\<exists>N. holds_at h Q N)"

lemma holds_single: "holds h [p \<mapsto> xs] \<longleftrightarrow> qrep h p xs"
proof
  assume "qrep h p xs"
  then obtain ps where "qheap_ok h" "queue_at h p ps" "xs = items (qview (qnodes h)) ps" "\<forall>x \<in> set xs. fst x \<noteq> NULL"
    by (auto simp: qrep_def)
  then show "holds h [p \<mapsto> xs]" unfolding holds_def holds_at_def by (intro exI [of _ "\<lambda>_. ps"]) auto
next
  assume "holds h [p \<mapsto> xs]"
  then obtain N where "holds_at h [p \<mapsto> xs] N" by (auto simp: holds_def)
  then have "qheap_ok h" "queue_at h p (N p)" "xs = items (qview (qnodes h)) (N p)" "\<forall>x \<in> set xs. fst x \<noteq> NULL"
    using fun_upd_same [of Map.empty p "Some xs"] unfolding holds_at_def by blast+
  then show "qrep h p xs" unfolding qrep_def by blast
qed

lemma holds_ok: "holds h Q \<Longrightarrow> qheap_ok h"
  by (auto simp: holds_def holds_at_def)

lemma holds_rep: "holds h Q \<Longrightarrow> Q p = Some xs \<Longrightarrow> qrep h p xs"
  by (auto simp: holds_def holds_at_def qrep_def)

text \<open>One queue changes, within its own nodes and new ones, and the others stay.\<close>

lemma holds_change:
  assumes h: "holds_at h Q N" and p: "Q p = Some xs" and fr: "qframe h h' p (set (N p))" and ok: "qheap_ok h'"
    and at: "queue_at h' p ps" "ys = items (qview (qnodes h')) ps" "\<forall>x \<in> set ys. fst x \<noteq> NULL" and new: "set ps \<subseteq> set (N p) \<union> {brk h..}"
  shows "holds h' (Q(p \<mapsto> ys))"
proof -
  have qat: "queue_at h q (N q)" "zs = items (qview (qnodes h)) (N q)" "\<forall>x \<in> set zs. fst x \<noteq> NULL" if "Q q = Some zs" for q zs
    using h that unfolding holds_at_def by blast+
  have dis: "set (N q) \<inter> set (N p) = {}" if "Q q \<noteq> None" "q \<noteq> p" for q
    using h p that unfolding holds_at_def by blast
  have okh: "qheap_ok h" using h by (simp add: holds_at_def)
  have below: "a < brk h" if "Q q = Some zs" "a \<in> set (N q)" for q zs a
    by (rule queue_at_below [OF okh qat(1) [OF that(1)] that(2)])
  have keep: "queue_at h' q (N q) \<and> zs = items (qview (qnodes h')) (N q)" if "Q q = Some zs" "q \<noteq> p" for q zs
    using queue_at_frame [OF fr okh qat(1) [OF that(1)] that(2) dis] qat(2) [OF that(1)] that by auto
  have "holds_at h' (Q(p \<mapsto> ys)) (N(p := ps))" unfolding holds_at_def
  proof (intro conjI allI impI)
    fix q zs assume q: "(Q(p \<mapsto> ys)) q = Some zs"
    show "queue_at h' q ((N(p := ps)) q)" "zs = items (qview (qnodes h')) ((N(p := ps)) q)" "\<forall>x \<in> set zs. fst x \<noteq> NULL"
      using q at keep qat(3) by (cases "q = p"; auto)+
  next
    fix q r assume qr: "(Q(p \<mapsto> ys)) q \<noteq> None \<and> (Q(p \<mapsto> ys)) r \<noteq> None \<and> q \<noteq> r"
    have side: "set ps \<inter> set (N s) = {}" if "Q s \<noteq> None" "s \<noteq> p" for s
      using dis [OF that] below [of s] that(1) new by fastforce
    have both: "set (N q) \<inter> set (N r) = {}" if "q \<noteq> p" "r \<noteq> p" using h qr that unfolding holds_at_def by simp
    show "set ((N(p := ps)) q) \<inter> set ((N(p := ps)) r) = {}"
      using side [of q] side [of r] both qr by (cases "q = p"; cases "r = p") auto
  qed (rule ok)
  then show ?thesis unfolding holds_def by blast
qed

definition plenty_of :: "'z m1_heap \<Rightarrow> bool" where
  "plenty_of h \<longleftrightarrow> (\<forall>n. \<not> oom h n)"

text \<open>What stays during an operation on a queue.\<close>

definition same_rest :: "'z m1_heap \<Rightarrow> 'z m1_heap \<Rightarrow> bool" where
  "same_rest h h' \<longleftrightarrow> queue_heap.more h' = queue_heap.more h \<and> brk h \<le> brk h' \<and> oom h' = oom h"

lemma qframe_rest: "qframe h h' p A \<Longrightarrow> same_rest h h'"
  by (simp add: qframe_def same_rest_def)

lemma same_rest_plenty: "same_rest h h' \<Longrightarrow> plenty_of h' = plenty_of h"
  by (simp add: same_rest_def plenty_of_def)

lemma holds_dequeue:
  assumes "holds h Q" "Q p = Some (x # xs)"
  shows "\<exists>h'. m1_queue_dequeue p h = Some (fst x, h') \<and> holds h' (Q(p \<mapsto> xs)) \<and> same_rest h h'"
proof -
  obtain N where N: "holds_at h Q N" using assms(1) by (auto simp: holds_def)
  then have p: "qheap_ok h" "queue_at h p (N p)" "x # xs = items (qview (qnodes h)) (N p)" "\<forall>y \<in> set (x # xs). fst y \<noteq> NULL"
    using assms(2) unfolding holds_at_def by blast+
  obtain a as where a: "N p = a # as" "x = node_item (qview (qnodes h)) a" "xs = items (qview (qnodes h)) as"
    using p(3) by (cases "N p") auto
  from dequeue_at [OF p(1) p(2) [unfolded a(1)]] obtain h' where h': "queue_dequeue p h = Some (fst x, h')" "qheap_ok h'"
    "queue_at h' p as" "items (qview (qnodes h')) as = xs" "qframe h h' p {a}" using a by auto
  have "qframe h h' p (set (N p))" using h'(5) a(1) by (auto simp: qframe_def)
  from holds_change [OF N assms(2) this h'(2,3) h'(4) [symmetric]] have "holds h' (Q(p \<mapsto> xs))" using p(4) a(1) by auto
  then show ?thesis using h'(1) qframe_rest [OF h'(5)] by (simp add: m1_queue_dequeue_def)
qed

lemma holds_enqueue:
  assumes "holds h Q" "Q p = Some xs" "d \<noteq> NULL" "Suc (length xs) < 2 ^ 32" "plenty_of h"
  shows "\<exists>h'. m1_queue_enqueue p d f h = Some (True, h') \<and> holds h' (Q(p \<mapsto> xs @ [(d, f)])) \<and> same_rest h h'"
proof -
  obtain N where N: "holds_at h Q N" using assms(1) by (auto simp: holds_def)
  then have p: "qheap_ok h" "queue_at h p (N p)" "xs = items (qview (qnodes h)) (N p)" "\<forall>y \<in> set xs. fst y \<noteq> NULL"
    using assms(2) unfolding holds_at_def by blast+
  have len: "Suc (length (N p)) < 2 ^ 32" and mem: "can_alloc h" using assms(4,5) p(3) by (simp_all add: plenty_of_def)
  from enqueue_at [OF p(1,2) assms(3) len mem, of f] obtain h' where h': "m1_queue_enqueue p d f h = Some (True, h')" "qheap_ok h'"
    "queue_at h' p (N p @ [brk h])" "items (qview (qnodes h')) (N p @ [brk h]) = xs @ [(d, f)]" "qframe h h' p (set (N p))" using p(3) by auto
  from holds_change [OF N assms(2) h'(5,2,3) h'(4) [symmetric]] have "holds h' (Q(p \<mapsto> xs @ [(d, f)]))" using p(4) assms(3) by auto
  then show ?thesis using h'(1) qframe_rest [OF h'(5)] by blast
qed

lemma holds_create:
  assumes "holds h Q" "plenty_of h"
  shows "\<exists>p h'. m1_queue_create h = Some (p, h') \<and> p \<noteq> NULL \<and> Q p = None \<and> holds h' (Q(p \<mapsto> [])) \<and> same_rest h h'"
proof -
  obtain N where N: "holds_at h Q N" using assms(1) by (auto simp: holds_def)
  have ok: "qheap_ok h" "0 < brk h" using N by (simp_all add: holds_at_def qheap_ok_def)
  let ?h = "h\<lparr>allocs := Suc (allocs h), brk := brk h + 24, queues := (queues h)(brk h \<mapsto> \<lparr>q_head = NULL, q_tail = NULL, q_size = 0\<rparr>)\<rparr>"
  have c: "m1_queue_create h = Some (brk h, ?h)"
    using assms(2) ok(2) by (simp add: m1_queue_create_def queue_create_def calloc_queue_def calloc_def heap_defs plenty_of_def)
  have at: "queue_at h q (N q)" if "Q q = Some xs" for q xs using N that unfolding holds_at_def by blast
  have new: "q \<noteq> brk h" if "Q q = Some xs" for q xs
    using at [OF that] ok(1) by (auto simp: queue_at_def qheap_ok_def)
  have "qheap_ok ?h" by (rule qheap_ok_grow [OF ok(1)]) (auto split: if_splits)
  moreover have "queue_at ?h q (N q)" if "Q q = Some xs" for q xs using at [OF that] new [OF that] by (simp add: queue_at_def)
  moreover have "queue_at ?h (brk h) []" by (simp add: queue_at_def)
  ultimately have "holds_at ?h (Q(brk h \<mapsto> [])) (N(brk h := []))" using N unfolding holds_at_def by (auto split: if_splits)
  then have "holds ?h (Q(brk h \<mapsto> []))" unfolding holds_def by blast
  moreover have "Q (brk h) = None" using new by (cases "Q (brk h)") auto
  ultimately show ?thesis using c ok(2) by (intro exI [of _ "brk h"] exI [of _ ?h]) (simp add: same_rest_def)
qed

lemma holds_destroy_empty:
  assumes "holds h Q" "Q p = Some []"
  shows "\<exists>h'. m1_queue_destroy call_free p h = Some (True, NULL, h') \<and> holds h' (Q(p := None)) \<and> same_rest h h'"
proof -
  obtain N where N: "holds_at h Q N" using assms(1) by (auto simp: holds_def)
  have p: "qheap_ok h" "queue_at h p []" using N assms(2) unfolding holds_at_def by fastforce+
  let ?h = "h\<lparr>queues := (queues h)(p := None)\<rparr>"
  obtain q where q: "queues h p = Some q" using p(2) by (auto simp: queue_at_def)
  have d: "m1_queue_destroy call_free p h = Some (True, NULL, ?h)"
    using q queue_at_nonnull [OF p] queue_is_empty_at [OF p]
    by (simp add: m1_queue_destroy_def queue_destroy_def queue_destroy_items_def heap_defs)
  have "holds_at ?h (Q(p := None)) N" using N unfolding holds_at_def by (auto simp: qheap_ok_def queue_at_def split: if_splits)
  then show ?thesis using d by (intro exI [of _ ?h]) (auto simp: holds_def same_rest_def)
qed

text \<open>A change of the client's part of the heap, or memory allocated for it.\<close>

lemma holds_more: "holds (qwith_more h z) Q = holds h Q"
  unfolding holds_def holds_at_def qheap_ok_def queue_at_def by simp

lemma holds_calloc: "holds h Q \<Longrightarrow> holds (h\<lparr>allocs := n, brk := brk h + k\<rparr>) Q"
proof -
  assume h: "holds h Q"
  have "qheap_ok (h\<lparr>allocs := n, brk := brk h + k\<rparr>)" using holds_ok [OF h] unfolding qheap_ok_def by fastforce
  then show ?thesis using h unfolding holds_def holds_at_def queue_at_def by simp
qed

end
