(* ===== verification/BracketSpec.thy ===== *)
theory BracketSpec
  imports BracketQueues
begin

text \<open>
  The tournament on lists of numbers, and the proof that the program plays it.
\<close>

section \<open>The tournament on lists\<close>

fun fights :: "nat \<Rightarrow> int list \<Rightarrow> int list" where
  "fights (Suc n) (a # b # vs) = fights n (vs @ [max a b])"
| "fights _ vs = vs"

fun play :: "nat \<Rightarrow> int list \<Rightarrow> int list" where
  "play 0 vs = vs"
| "play (Suc i) vs = play i (fights (length vs div 2) vs)"

lemma fights_length: "n < length vs \<Longrightarrow> length (fights n vs) = length vs - n"
  by (induction n vs rule: fights.induct) auto

lemma fights_max: "Max (set (fights n vs)) = Max (set vs)"
proof (induction n vs rule: fights.induct)
  case (1 n a b vs)
  have "Max (set (vs @ [max a b])) = Max (set (a # b # vs))"
    by (cases "vs = []") (auto simp: Max_insert2 max.assoc Max_Un max.commute)
  then show ?case using 1 by simp
qed simp_all

lemma fights_nonempty: "vs \<noteq> [] \<Longrightarrow> fights n vs \<noteq> []"
  by (induction n vs rule: fights.induct) auto

lemma play_max: "Max (set (play i vs)) = Max (set vs)"
  by (induction i arbitrary: vs) (simp_all add: fights_max)

lemma half_less: "vs \<noteq> [] \<Longrightarrow> length vs div 2 < length vs"
  by (cases vs) simp_all

lemma play_nonempty: "vs \<noteq> [] \<Longrightarrow> play i vs \<noteq> []"
  by (induction i arbitrary: vs) (simp_all add: fights_nonempty)

text \<open>So many rounds are enough to leave one fighter.\<close>

lemma play_length: "vs \<noteq> [] \<Longrightarrow> length vs \<le> 2 ^ i \<Longrightarrow> length (play i vs) = 1"
proof (induction i arbitrary: vs)
  case 0 then show ?case by (cases vs) auto
next
  case (Suc i)
  have "length (fights (length vs div 2) vs) = length vs - length vs div 2" using fights_length half_less Suc.prems(1) by blast
  then have "length (fights (length vs div 2) vs) \<le> 2 ^ i" using Suc.prems(2) by simp
  then show ?case using Suc.IH [of "fights (length vs div 2) vs"] fights_nonempty [OF Suc.prems(1)] by simp
qed

lemma play_champion: "vs \<noteq> [] \<Longrightarrow> length vs \<le> 2 ^ i \<Longrightarrow> play i vs = [Max (set vs)]"
  using play_length [of vs i] play_max [of i vs] by (cases "play i vs") auto

text \<open>The number of rounds in \<open>perfect_bracket\<close> is enough for all but seven sizes.\<close>

lemma rounds_enough_large: "4 \<le> k \<Longrightarrow> 4 * k + 3 \<le> 2 ^ (k + 1)"
proof (induction k rule: nat_induct_at_least)
  case (Suc k) then show ?case by simp
qed simp

lemma rounds_enough:
  assumes "n \<notin> {3, 5, 6, 7, 9, 10, 11}"
  shows "n \<le> 2 ^ (n div 4 + 1)"
proof (cases "16 \<le> n")
  case True
  then have "4 * (n div 4) + 3 \<le> 2 ^ (n div 4 + 1)" by (intro rounds_enough_large) simp
  then show ?thesis by linarith
next
  case False
  then have "n \<in> set [0..<16]" by simp
  then show ?thesis using assms by (auto simp: upt_rec)
qed

section \<open>Fighters in memory\<close>

definition vals_are :: "bheap \<Rightarrow> (ptr \<times> fptr) list \<Rightarrow> int list \<Rightarrow> bool" where
  "vals_are h xs vs \<longleftrightarrow> list_all2 (\<lambda>x v. vals (cells h) (fst x) = Some v) xs vs"

definition cells_ok :: "bheap \<Rightarrow> bool" where
  "cells_ok h \<longleftrightarrow> plenty_of h \<and> 0 < brk h \<and> (\<forall>a. a \<in> dom (vals (cells h)) \<union> owned (cells h) \<longrightarrow> 0 < a \<and> a < brk h)"

lemma vals_are_simps [simp]:
  "vals_are h [] vs \<longleftrightarrow> vs = []"
  "vals_are h (x # xs) vs \<longleftrightarrow> (\<exists>v ws. vs = v # ws \<and> vals (cells h) (fst x) = Some v \<and> vals_are h xs ws)"
  by (auto simp: vals_are_def list_all2_Cons1)

lemma vals_are_length: "vals_are h xs vs \<Longrightarrow> length xs = length vs"
  by (auto simp: vals_are_def dest: list_all2_lengthD)

lemma vals_are_snoc: "vals_are h xs vs \<Longrightarrow> vals (cells h) d = Some v \<Longrightarrow> vals_are h (xs @ [(d, f)]) (vs @ [v])"
  by (simp add: vals_are_def list_all2_appendI)

lemma vals_are_cong:
  assumes "vals_are h xs vs" "\<And>a. a \<in> fst ` set xs \<Longrightarrow> vals (cells h') a = vals (cells h) a"
  shows "vals_are h' xs vs"
  using assms unfolding vals_are_def by (auto simp: list_all2_conv_all_nth)

lemma same_rest_cells:
  assumes "same_rest h h'"
  shows "cells h' = cells h" "cells_ok h \<Longrightarrow> cells_ok h'" "vals_are h' xs vs = vals_are h xs vs"
  using assms unfolding same_rest_def cells_ok_def plenty_of_def vals_are_def by (auto intro: less_le_trans)

text \<open>\<open>print_queue\<close> finds every fighter.\<close>

lemma print_loop_path:
  assumes "path (qview (qnodes h)) a ps NULL" "vals_are h (items (qview (qnodes h)) ps) vs"
  shows "print_loop (length ps) a h = Some vs"
  using assms
proof (induction ps arbitrary: a vs)
  case Nil then show ?case by simp
next
  case (Cons b ps)
  then obtain n where n: "qnodes h b = Some n" "a = b" "path (qview (qnodes h)) (q_next n) ps NULL" by (auto elim: qview_SomeE)
  then obtain v ws where "vs = v # ws" "vals (cells h) (q_data n) = Some v" "vals_are h (items (qview (qnodes h)) ps) ws"
    using Cons.prems(2) by auto
  then show ?case using n Cons.IH [OF n(3)] by (simp add: read_int_def)
qed

lemma print_queue_vals:
  assumes "qrep h p xs" "vals_are h xs vs"
  shows "print_queue p h = Some vs"
proof -
  obtain ps where ps: "qheap_ok h" "queue_at h p ps" "xs = items (qview (qnodes h)) ps" using assms(1) by (auto simp: qrep_def)
  obtain q where q: "queues h p = Some q" "q_size q = of_nat (length ps)" "length ps < 2 ^ 32" "distinct ps"
      "ps \<noteq> [] \<Longrightarrow> q_tail q = last ps \<and> path (qview (qnodes h)) (q_head q) ps NULL"
    by (rule queue_atE [OF ps(2)]) auto
  have p: "p \<noteq> NULL" by (rule queue_at_nonnull [OF ps(1,2)])
  have n: "unat (q_size q) = length ps" using q(2,3) unat_of_nat_32 by simp
  show ?thesis
  proof (cases "ps = []")
    case True then show ?thesis using p q(1) n ps(3) assms(2) by (simp add: print_queue_def)
  next
    case False then show ?thesis using p q(1) q(5) n print_loop_path [of h "q_head q" ps vs] assms(2) ps(3) by (simp add: print_queue_def)
  qed
qed

lemma calloc_int_ok:
  assumes ok: "cells_ok h" and Q: "holds h Q"
  shows "\<exists>h'. calloc_int h = (brk h, h') \<and> holds h' Q \<and> cells_ok h' \<and> brk h \<notin> dom (vals (cells h)) \<union> owned (cells h) \<and> brk h \<noteq> NULL
    \<and> vals (cells h') = (vals (cells h))(brk h \<mapsto> 0) \<and> owned (cells h') = insert (brk h) (owned (cells h))"
proof -
  let ?z = "(cells h)\<lparr>vals := (vals (cells h))(brk h \<mapsto> 0), owned := insert (brk h) (owned (cells h))\<rparr>"
  let ?h = "qwith_more (h\<lparr>allocs := Suc (allocs h), brk := brk h + 4\<rparr>) ?z"
  have "holds ?h Q" unfolding holds_more by (rule holds_calloc [OF Q])
  moreover have "cells_ok ?h" using ok by (fastforce simp: cells_ok_def plenty_of_def)
  moreover have "brk h \<notin> dom (vals (cells h)) \<union> owned (cells h)" "brk h \<noteq> NULL" using ok unfolding cells_ok_def by auto
  moreover have "calloc_int h = (brk h, ?h)" using ok by (simp add: calloc_int_def calloc_def cells_ok_def plenty_of_def)
  ultimately show ?thesis by (intro exI [of _ ?h]) simp
qed

lemma write_int_ok:
  assumes ok: "cells_ok h" and Q: "holds h Q" and a: "vals (cells h) a = Some u"
  shows "\<exists>h'. write_int a v h = Some h' \<and> holds h' Q \<and> cells_ok h' \<and> vals (cells h') = (vals (cells h))(a \<mapsto> v) \<and> owned (cells h') = owned (cells h)"
proof -
  let ?h = "qwith_more h ((cells h)\<lparr>vals := (vals (cells h))(a \<mapsto> v)\<rparr>)"
  have "holds ?h Q" unfolding holds_more by (rule Q)
  moreover have "cells_ok ?h" using ok a by (fastforce simp: cells_ok_def plenty_of_def)
  ultimately show ?thesis using a by (intro exI [of _ ?h]) (simp add: write_int_def)
qed

text \<open>Both together: an \<open>int\<close> in new memory.\<close>

lemma new_int_ok:
  assumes ok: "cells_ok h" and Q: "holds h Q"
  shows "\<exists>h1 h'. calloc_int h = (brk h, h1) \<and> (\<forall>a. a \<noteq> brk h \<longrightarrow> vals (cells h1) a = vals (cells h) a) \<and> write_int (brk h) v h1 = Some h' \<and> holds h' Q \<and> cells_ok h'
    \<and> brk h \<notin> dom (vals (cells h)) \<union> owned (cells h) \<and> brk h \<noteq> NULL
    \<and> vals (cells h') = (vals (cells h))(brk h \<mapsto> v) \<and> owned (cells h') = insert (brk h) (owned (cells h))"
proof -
  obtain h1 where h1: "calloc_int h = (brk h, h1)" "holds h1 Q" "cells_ok h1" "brk h \<notin> dom (vals (cells h)) \<union> owned (cells h)" "brk h \<noteq> NULL"
    "vals (cells h1) = (vals (cells h))(brk h \<mapsto> 0)" "owned (cells h1) = insert (brk h) (owned (cells h))"
    using calloc_int_ok [OF assms] by blast
  obtain h' where "write_int (brk h) v h1 = Some h'" "holds h' Q" "cells_ok h'" "vals (cells h') = (vals (cells h1))(brk h \<mapsto> v)"
    "owned (cells h') = owned (cells h1)" using write_int_ok [OF h1(3,2), of "brk h" 0 v] h1(6) by auto
  then show ?thesis using h1 by (intro exI [of _ h1] exI [of _ h']) simp
qed

lemma free_int_owned:
  assumes "a \<in> owned (cells h)" "cells_ok h"
  shows "free_int a h = Some (qwith_more h ((cells h)\<lparr>vals := (vals (cells h))(a := None), owned := owned (cells h) - {a}\<rparr>))"
  using assms unfolding cells_ok_def by (auto simp: free_int_def free_cell_def)

section \<open>The bracket of winners\<close>

text \<open>Fighters that may be freed: different addresses that \<open>calloc\<close> returned.\<close>

definition team :: "bheap \<Rightarrow> ptr \<Rightarrow> (ptr \<times> fptr) list \<Rightarrow> int list \<Rightarrow> bool" where
  "team h p xs vs \<longleftrightarrow> holds h [p \<mapsto> xs] \<and> cells_ok h \<and> vals_are h xs vs \<and> distinct (map fst xs)
     \<and> fst ` set xs \<subseteq> owned (cells h) \<and> snd ` set xs \<subseteq> {NULL, FREE_INT}"

lemma sint_small: "unat w < 2 ^ 31 \<Longrightarrow> sint (w :: 32 word) = int (unat w)"
proof -
  assume "unat w < 2 ^ 31"
  then have "int (unat w) < int (2 ^ 31)" by (simp only: of_nat_less_iff)
  then have "int (unat w) < 2 ^ 31" by (simp only: of_nat_power of_nat_numeral)
  moreover have "signed_take_bit (LENGTH(32) - 1) k = k" if "0 \<le> k" "k < 2 ^ 31" for k :: int
    using that by (intro signed_take_bit_int_eq_self) simp_all
  ultimately show ?thesis unfolding sint_uint uint_nat by simp
qed

lemma team_size:
  assumes "team h p xs vs" "length vs < 2 ^ 31"
  shows "\<exists>q. queues h p = Some q \<and> sint (q_size q) = int (length vs) \<and> unat (q_size q) = length vs"
proof -
  have l: "length xs = length vs" using assms(1) by (auto simp: team_def dest: vals_are_length)
  obtain q where q: "queues h p = Some q" "q_size q = of_nat (length vs)"
    using qrep_facts(4) [of h p xs] assms(1) l by (auto simp: team_def holds_single)
  have "unat (of_nat (length vs) :: 32 word) = length vs" using assms(2) by (intro unat_of_nat_32) simp
  then show ?thesis using q assms(2) sint_small [of "q_size q"] by simp
qed

lemma team_fight:
  assumes t: "team h p (x # y # xs) (a # b # vs)" and len: "Suc (length xs) < 2 ^ 32"
  shows "\<exists>h' w. bracket_fights p (Suc n) h = bracket_fights p n h' \<and> team h' p (xs @ [(w, FREE_INT)]) (vs @ [max a b])"
proof -
  have Q: "holds h [p \<mapsto> x # y # xs]" and ok: "cells_ok h" and ab: "vals (cells h) (fst x) = Some a" "vals (cells h) (fst y) = Some b"
    and vs: "vals_are h xs vs" and dis: "distinct (map fst (x # y # xs))" and own: "fst ` set (x # y # xs) \<subseteq> owned (cells h)"
    and fr: "snd ` set xs \<subseteq> {NULL, FREE_INT}" using t by (auto simp: team_def)
  obtain h1 where h1: "m1_queue_dequeue p h = Some (fst x, h1)" "holds h1 [p \<mapsto> y # xs]" "same_rest h h1"
    using holds_dequeue [OF Q, of p x "y # xs"] by auto
  obtain h2 where h2: "m1_queue_dequeue p h1 = Some (fst y, h2)" "holds h2 [p \<mapsto> xs]" "same_rest h1 h2"
    using holds_dequeue [OF h1(2), of p y xs] by auto
  note c = same_rest_cells(1) [OF h1(3)] same_rest_cells(1) [OF h2(3)]
  have ok2: "cells_ok h2" by (rule same_rest_cells(2) [OF h2(3) same_rest_cells(2) [OF h1(3) ok]])
  let ?w = "brk h2" and ?v = "max a b"
  obtain k h3 where k: "calloc_int h2 = (?w, k)" "\<And>a. a \<noteq> ?w \<Longrightarrow> vals (cells k) a = vals (cells h) a"
    and h3: "write_int ?w ?v k = Some h3" "holds h3 [p \<mapsto> xs]" "cells_ok h3" "?w \<notin> dom (vals (cells h)) \<union> owned (cells h)" "?w \<noteq> NULL"
    "vals (cells h3) = (vals (cells h))(?w \<mapsto> ?v)" "owned (cells h3) = insert ?w (owned (cells h))"
    using new_int_ok [OF ok2 h2(2), of ?v] c by auto
  have xy: "fst x \<in> owned (cells h)" "fst y \<in> owned (cells h)" "fst x \<noteq> fst y" "fst x \<notin> fst ` set xs" "fst y \<notin> fst ` set xs"
    "distinct (map fst xs)" "fst ` set xs \<subseteq> owned (cells h)" using dis own by auto
  let ?z4 = "(cells h3)\<lparr>vals := (vals (cells h3))(fst x := None), owned := owned (cells h3) - {fst x}\<rparr>"
  let ?h4 = "qwith_more h3 ?z4"
  have ok4: "cells_ok ?h4" using h3(3) unfolding cells_ok_def by (auto simp: plenty_of_def split: if_splits)
  have f4: "free_int (fst x) h3 = Some ?h4" by (rule free_int_owned [OF _ h3(3)]) (use xy h3(7) in simp)
  let ?z5 = "(cells ?h4)\<lparr>vals := (vals (cells ?h4))(fst y := None), owned := owned (cells ?h4) - {fst y}\<rparr>"
  let ?h5 = "qwith_more ?h4 ?z5"
  have f5: "free_int (fst y) ?h4 = Some ?h5" by (rule free_int_owned [OF _ ok4]) (use xy h3(7) in simp)
  have ok5: "cells_ok ?h5" using ok4 unfolding cells_ok_def by (auto simp: plenty_of_def split: if_splits)
  have Q5: "holds ?h5 [p \<mapsto> xs]" using h3(2) by (simp add: holds_more)
  have "plenty_of ?h5" using ok5 by (simp add: cells_ok_def)
  from holds_enqueue [OF Q5 _ h3(5) _ this, of p xs FREE_INT] len obtain h6 where h6: "m1_queue_enqueue p ?w FREE_INT ?h5 = Some (True, h6)"
    "holds h6 [p \<mapsto> xs @ [(?w, FREE_INT)]]" "same_rest ?h5 h6" by auto
  have cells6: "vals (cells h6) = (vals (cells h))(?w \<mapsto> ?v, fst x := None, fst y := None)" "owned (cells h6) = insert ?w (owned (cells h)) - {fst x} - {fst y}"
    using same_rest_cells(1) [OF h6(3)] h3(6,7) by simp_all
  have "?w \<noteq> fst x" "?w \<noteq> fst y" using h3(4) xy by auto
  have "vals (cells h6) c = vals (cells h) c" if "c \<in> fst ` set xs" for c
  proof -
    have "c \<noteq> fst x" "c \<noteq> fst y" "c \<noteq> ?w" using that xy(4,5,7) h3(4) by blast+
    then show ?thesis using cells6(1) by simp
  qed
  then have "vals_are h6 xs vs" by (rule vals_are_cong [OF vs])
  then have "vals_are h6 (xs @ [(?w, FREE_INT)]) (vs @ [?v])"
    by (rule vals_are_snoc) (use cells6(1) \<open>?w \<noteq> fst x\<close> \<open>?w \<noteq> fst y\<close> in simp)
  moreover have "distinct (map fst (xs @ [(?w, FREE_INT)]))" using xy h3(4) by auto
  moreover have "fst ` set (xs @ [(?w, FREE_INT)]) \<subseteq> owned (cells h6)"
    unfolding cells6(2) using xy(4,5,7) \<open>?w \<noteq> fst x\<close> \<open>?w \<noteq> fst y\<close> by (simp add: subset_Diff_insert subset_insertI2)
  ultimately have "team h6 p (xs @ [(?w, FREE_INT)]) (vs @ [?v])"
    using h6(2) same_rest_cells(2) [OF h6(3) ok5] fr by (simp add: team_def)
  moreover have "enter_arena a b = ?v" by (simp add: enter_arena_def max_def)
  then have "bracket_fights p (Suc n) h = bracket_fights p n h6"
    using h1(1) h2(1) k(1) k(2) [OF \<open>?w \<noteq> fst x\<close> [symmetric]] k(2) [OF \<open>?w \<noteq> fst y\<close> [symmetric]] h3(1) f4 f5 h6(1) ab by (simp add: read_int_def)
  ultimately show ?thesis by blast
qed

lemma team_fights:
  assumes "team h p xs vs" "n < length vs" "length vs < 2 ^ 31"
  shows "\<exists>h' ys. bracket_fights p n h = Some h' \<and> team h' p ys (fights n vs)"
  using assms
proof (induction n vs arbitrary: h xs rule: fights.induct)
  case (1 n a b vs)
  then obtain x y ys where xs: "xs = x # y # ys" by (auto simp: team_def vals_are_def list_all2_Cons2)
  have l: "length ys = length vs" using 1(2) xs by (auto simp: team_def dest: vals_are_length)
  obtain h1 w where h1: "bracket_fights p (Suc n) h = bracket_fights p n h1" "team h1 p (ys @ [(w, FREE_INT)]) (vs @ [max a b])"
    using team_fight [OF 1(2) [unfolded xs], of n] l 1(4) by auto
  from 1(1) [OF h1(2)] 1(3,4) show ?case unfolding h1(1) by simp
qed (auto simp: team_def)

lemma team_play:
  assumes "team h p xs vs" "vs \<noteq> []" "length vs < 2 ^ 31"
  shows "\<exists>h' ys. bracket_rounds p i h = Some h' \<and> team h' p ys (play i vs)"
  using assms
proof (induction i arbitrary: h xs vs)
  case 0 then show ?case by auto
next
  case (Suc i)
  obtain q where q: "queues h p = Some q" "sint (q_size q) = int (length vs)" using team_size [OF Suc.prems(1,3)] by auto
  obtain h1 ys where h1: "bracket_fights p (length vs div 2) h = Some h1" "team h1 p ys (fights (length vs div 2) vs)"
    using team_fights [OF Suc.prems(1) half_less [OF Suc.prems(2)] Suc.prems(3)] by blast
  have pr: "print_queue p h1 = Some (fights (length vs div 2) vs)"
    using h1(2) by (intro print_queue_vals) (auto simp: team_def holds_single)
  have "length (fights (length vs div 2) vs) < 2 ^ 31" using fights_length [OF half_less [OF Suc.prems(2)]] Suc.prems(3) by simp
  from Suc.IH [OF h1(2) fights_nonempty [OF Suc.prems(2)] this]
  show ?case using q h1(1) pr by simp
qed

text \<open>\<open>perfect_bracket\<close> returns the first fighter that is left after its rounds.\<close>

interpretation ints: qfree_contract call_free_int "\<lambda>f d z. if f = FREE_INT then free_cell d z else None"
  by unfold_locales (simp add: call_free_int_def free_int_def)

lemma free_team:
  assumes "distinct (map fst xs)" "fst ` set xs \<subseteq> owned z" "snd ` set xs \<subseteq> {NULL, FREE_INT}"
  shows "\<exists>z'. qfree_all (\<lambda>f d z. if f = FREE_INT then free_cell d z else None) xs z = Some z'"
  using assms
proof (induction xs arbitrary: z)
  case (Cons x xs)
  have x: "fst x \<in> owned z" "snd x = NULL \<or> snd x = FREE_INT" "fst x \<notin> fst ` set xs" using Cons.prems by auto
  have sub: "fst ` set xs \<subseteq> owned z - {fst x}" using Cons.prems(2) x(3) by (simp add: subset_Diff_insert)
  show ?case
  proof (cases "snd x = NULL \<or> fst x = NULL")
    case True
    have "\<exists>z'. qfree_all (\<lambda>f d z. if f = FREE_INT then free_cell d z else None) xs z = Some z'"
      using Cons.prems by (intro Cons.IH) auto
    then show ?thesis using True x(2) by (auto simp: free_cell_def)
  next
    case False
    have "\<exists>z'. qfree_all (\<lambda>f d z. if f = FREE_INT then free_cell d z else None) xs (z\<lparr>vals := (vals z)(fst x := None), owned := owned z - {fst x}\<rparr>) = Some z'"
      using Cons.prems sub by (intro Cons.IH) auto
    then show ?thesis using False x by (auto simp: free_cell_def)
  qed
qed simp

lemma perfect_bracket_eval:
  assumes t: "team h p xs vs" and ne: "vs \<noteq> []" and len: "length vs < 2 ^ 31"
  shows "\<exists>h'. perfect_bracket p h = Some (hd (play (length vs div 4 + 1) vs), h') \<and> queues h' p = None"
proof -
  obtain q where q: "queues h p = Some q" "unat (q_size q) = length vs" using team_size [OF t len] by auto
  have d: "unat (q_size q div 4) = length vs div 4" using q(2) by (simp add: unat_div)
  have "unat (q_size q div 4 + 1) = length vs div 4 + 1" using unat_add_1_32 [of "q_size q div 4"] d len by simp
  then have s: "sint (q_size q div 4 + 1) = int (length vs div 4 + 1)"
    using len sint_small [of "q_size q div 4 + 1"] by simp
  obtain h1 ys where h1: "bracket_rounds p (length vs div 4 + 1) h = Some h1" "team h1 p ys (play (length vs div 4 + 1) vs)"
    using team_play [OF t ne len] by blast
  obtain v ws where vw: "play (length vs div 4 + 1) vs = v # ws" using play_nonempty [OF ne] by (metis list.exhaust)
  then obtain y zs where ys: "ys = y # zs" "vals (cells h1) (fst y) = Some v" using h1(2) by (cases ys) (auto simp: team_def)
  have r: "qrep h1 p ys" using h1(2) by (simp add: team_def holds_single)
  have pk: "m1_queue_peek p h1 = Some (fst y)" using queue_peek_spec [OF r] ys(1) by (simp add: m1_queue_peek_def)
  obtain z where z: "qfree_all (\<lambda>f d z. if f = FREE_INT then free_cell d z else None) ys (cells h1) = Some z"
    using free_team [of ys "cells h1"] h1(2) by (auto simp: team_def)
  obtain h2 where "queue_destroy call_free_int p h1 = Some (True, NULL, h2)" "queues h2 p = None"
    using ints.queue_destroy_spec [OF r] z by auto
  then show ?thesis using q(1) s h1(1) pk ys(2) vw nat_int [of "length vs div 4 + 1"]
    by (simp add: perfect_bracket_def m1_queue_destroy_def read_int_def del: nat_int of_nat_add of_nat_Suc)
qed

end
