(* ===== verification/BracketRuns.thy ===== *)
theory BracketRuns
  imports BracketSpec
begin

text \<open>\<open>set_bracket\<close>: the fighters of the first round become a queue of winners for \<open>perfect_bracket\<close>.\<close>

section \<open>The first round on lists\<close>

fun winners :: "int list \<Rightarrow> int list" where
  "winners (a # b # vs) = max a b # winners vs"
| "winners _ = []"

definition seeded :: "int list \<Rightarrow> int list" where
  "seeded vs =
     (if length vs mod 4 = 3 then hd vs # winners (tl vs)
      else if length vs mod 4 = 2 then take 2 vs @ winners (drop 2 vs)
      else winners (drop 2 vs @ [max (vs ! 0) (vs ! 1)]))"

lemma winners_length: "length (winners vs) = length vs div 2"
  by (induction vs rule: winners.induct) auto

lemma winners_max: "vs \<noteq> [] \<Longrightarrow> even (length vs) \<Longrightarrow> Max (set (winners vs)) = Max (set vs)"
proof (induction vs rule: winners.induct)
  case (1 a b vs)
  show ?case
  proof (cases "vs = []")
    case False
    then have "winners vs \<noteq> []" using 1(3) winners_length [of vs] by (cases vs) auto
    then show ?thesis using 1 False by (simp add: max.assoc)
  qed simp
qed simp_all

lemma seeded_facts:
  assumes n: "3 \<le> length vs" "length vs mod 4 \<noteq> 0"
  shows "Max (set (seeded vs)) = Max (set vs)" "seeded vs \<noteq> []" "length (seeded vs) < length vs"
    "length (seeded vs) = (if length vs mod 4 = 3 then (length vs + 1) div 2 else if length vs mod 4 = 2 then length vs div 2 + 1 else (length vs - 1) div 2)"
proof -
  obtain a b c ws where vs: "vs = a # b # c # ws" using n(1) by (cases vs; cases "tl vs"; cases "tl (tl vs)") auto
  have len: "length (seeded vs) = (if length vs mod 4 = 3 then (length vs + 1) div 2 else if length vs mod 4 = 2 then length vs div 2 + 1 else (length vs - 1) div 2)"
    using vs by (simp add: seeded_def winners_length)
  then show "length (seeded vs) = (if length vs mod 4 = 3 then (length vs + 1) div 2 else if length vs mod 4 = 2 then length vs div 2 + 1 else (length vs - 1) div 2)" .
  show "length (seeded vs) < length vs" unfolding len using n by auto
  show "seeded vs \<noteq> []" using len n by (cases "seeded vs") (auto split: if_splits)
  have m: "length vs mod 4 = 1 \<or> length vs mod 4 = 2 \<or> length vs mod 4 = 3" using n(2) by presburger
  have ne: "winners xs \<noteq> []" if "xs \<noteq> []" "even (length xs)" for xs using that winners_length [of xs] by (cases xs) auto
  let ?l = "length vs"
  consider "?l mod 4 = 3" "even (length (b # c # ws))" | "?l mod 4 = 2" "even (length (c # ws))" | "?l mod 4 = 1" "even (length (c # ws @ [max a b]))"
  proof -
    have l: "length vs = length ws + 3" using vs by simp
    show thesis
    proof (cases "even (length ws)")
      case True
      then have "length vs mod 4 = 3 \<or> length vs mod 4 = 1" using m l by presburger
      then show thesis using that(1,3) True by auto
    next
      case False
      then have "length vs mod 4 = 2" using m l by presburger
      then show thesis using that(2) False by auto
    qed
  qed
  then show "Max (set (seeded vs)) = Max (set vs)"
  proof cases
    case 1
    then show ?thesis using winners_max [of "b # c # ws"] ne [of "b # c # ws"] vs by (simp add: seeded_def)
  next
    case 2
    show ?thesis
    proof (cases "ws = []")
      case True then show ?thesis using 2 vs by simp
    next
      case False
      then show ?thesis using 2 winners_max [of "c # ws"] ne [of "c # ws"] vs by (simp add: seeded_def)
    qed
  next
    case 3
    have "seeded vs = winners (c # ws @ [max a b])" using 3(1) vs by (simp add: seeded_def)
    then have "Max (set (seeded vs)) = Max (set (c # ws @ [max a b]))" using winners_max [OF _ 3(2)] by simp
    also have "set (c # ws @ [max a b]) = insert (max a b) (set (c # ws))" by auto
    also have "Max \<dots> = Max (set vs)" using vs by (simp add: max.assoc)
    finally show ?thesis .
  qed
qed

section \<open>Taking and sending on\<close>

lemma take_fighter_ok:
  assumes "holds h Q" "Q p = Some (x # xs)" "vals (cells h) (fst x) = Some v"
  shows "\<exists>h'. take_fighter p h = Some (v, h') \<and> holds h' (Q(p \<mapsto> xs)) \<and> same_rest h h'"
proof -
  obtain h' where "m1_queue_dequeue p h = Some (fst x, h')" "holds h' (Q(p \<mapsto> xs))" "same_rest h h'"
    using holds_dequeue [OF assms(1,2)] by blast
  then show ?thesis using same_rest_cells(1) assms(3) by (intro exI [of _ h']) (simp add: take_fighter_def read_int_def)
qed

text \<open>A fighter that is in memory, and may be freed when \<open>own\<close> is true.\<close>

definition added :: "ptr \<Rightarrow> int \<Rightarrow> bheap \<Rightarrow> bheap \<Rightarrow> bool" where
  "added w v h h' \<longleftrightarrow> cells_ok h' \<and> w \<notin> dom (vals (cells h)) \<union> owned (cells h) \<and> w \<noteq> NULL
     \<and> vals (cells h') = (vals (cells h))(w \<mapsto> v) \<and> owned (cells h') = insert w (owned (cells h))"

lemma send_on_ok:
  assumes "holds h Q" "Q q = Some ys" "cells_ok h" "Suc (length ys) < 2 ^ 32"
  shows "\<exists>w h'. send_on q v h = Some h' \<and> holds h' (Q(q \<mapsto> ys @ [(w, FREE_INT)])) \<and> added w v h h'"
proof -
  obtain k h1 where k: "calloc_int h = (brk h, k)" and h1: "write_int (brk h) v k = Some h1" "holds h1 Q" "cells_ok h1" "brk h \<notin> dom (vals (cells h)) \<union> owned (cells h)" "brk h \<noteq> NULL"
    "vals (cells h1) = (vals (cells h))(brk h \<mapsto> v)" "owned (cells h1) = insert (brk h) (owned (cells h))"
    using new_int_ok [OF assms(3,1)] by blast
  have "plenty_of h1" using h1(3) by (simp add: cells_ok_def)
  from holds_enqueue [OF h1(2) assms(2) h1(5) assms(4) this] obtain h2 where h2: "m1_queue_enqueue q (brk h) FREE_INT h1 = Some (True, h2)"
    "holds h2 (Q(q \<mapsto> ys @ [(brk h, FREE_INT)]))" "same_rest h1 h2" by blast
  show ?thesis using k h1 h2(1,2) same_rest_cells(1,2) [OF h2(3)]
    by (intro exI [of _ "brk h"] exI [of _ h2]) (simp add: send_on_def added_def)
qed

lemma added_vals:
  assumes "added w v h h'" "vals_are h xs vs"
  shows "vals_are h' xs vs" "vals_are h' (xs @ [(w, f)]) (vs @ [v])"
proof -
  have in_dom: "a \<in> dom (vals (cells h))" if "a \<in> fst ` set xs" for a
    using assms(2) that unfolding vals_are_def by (force simp: list_all2_conv_all_nth in_set_conv_nth)
  show v: "vals_are h' xs vs"
  proof (rule vals_are_cong [OF assms(2)])
    fix a assume "a \<in> fst ` set xs"
    then have "a \<noteq> w" using in_dom assms(1) by (auto simp: added_def)
    then show "vals (cells h') a = vals (cells h) a" using assms(1) by (simp add: added_def)
  qed
  show "vals_are h' (xs @ [(w, f)]) (vs @ [v])" by (rule vals_are_snoc [OF v]) (use assms(1) in \<open>simp add: added_def\<close>)
qed

text \<open>Owned fighters with different addresses.\<close>

definition own :: "bheap \<Rightarrow> (ptr \<times> fptr) list \<Rightarrow> bool" where
  "own h ys \<longleftrightarrow> distinct (map fst ys) \<and> fst ` set ys \<subseteq> owned (cells h) \<and> snd ` set ys \<subseteq> {NULL, FREE_INT}"

lemma added_own: "added w v h h' \<Longrightarrow> own h ys \<Longrightarrow> own h' ys \<and> own h' (ys @ [(w, FREE_INT)])"
  unfolding added_def own_def by auto

lemma same_rest_own: "same_rest h h' \<Longrightarrow> own h' ys = own h ys"
  using same_rest_cells(1) by (simp add: own_def)

definition duel :: "bheap \<Rightarrow> ptr \<Rightarrow> (ptr \<times> fptr) list \<Rightarrow> int list \<Rightarrow> ptr \<Rightarrow> (ptr \<times> fptr) list \<Rightarrow> int list \<Rightarrow> bool" where
  "duel h p xs vs q ys ws \<longleftrightarrow> holds h [p \<mapsto> xs, q \<mapsto> ys] \<and> p \<noteq> q \<and> cells_ok h \<and> vals_are h xs vs \<and> vals_are h ys ws \<and> own h ys"

lemma vals_are_Nil2 [simp]: "vals_are h xs [] \<longleftrightarrow> xs = []"
  by (auto simp: vals_are_def)

lemma duel_take:
  assumes "duel h p xs (v # vs) q ys ws"
  shows "\<exists>h' x xs'. xs = x # xs' \<and> take_fighter p h = Some (v, h') \<and> duel h' p xs' vs q ys ws \<and> same_rest h h'"
proof -
  obtain x xs' where xs: "xs = x # xs'" "vals (cells h) (fst x) = Some v" "vals_are h xs' vs"
    using assms by (auto simp: duel_def vals_are_def list_all2_Cons2)
  have Q: "holds h [p \<mapsto> x # xs', q \<mapsto> ys]" "p \<noteq> q" using assms xs(1) by (simp_all add: duel_def)
  obtain h' where h': "take_fighter p h = Some (v, h')" "holds h' ([p \<mapsto> x # xs', q \<mapsto> ys](p \<mapsto> xs'))" "same_rest h h'"
    using take_fighter_ok [OF Q(1) _ xs(2), of p xs'] Q(2) by auto
  have "[p \<mapsto> x # xs', q \<mapsto> ys](p \<mapsto> xs') = [p \<mapsto> xs', q \<mapsto> ys]" using Q(2) by auto
  then show ?thesis using h' xs assms same_rest_cells(2,3) [OF h'(3)] same_rest_own [OF h'(3)] by (auto simp: duel_def)
qed

lemma duel_send:
  assumes "duel h p xs vs q ys ws" "Suc (length ws) < 2 ^ 32"
  shows "\<exists>h' ys'. send_on q v h = Some h' \<and> duel h' p xs vs q ys' (ws @ [v])"
proof -
  have l: "length ys = length ws" using assms(1) by (auto simp: duel_def dest: vals_are_length)
  have Q: "holds h [p \<mapsto> xs, q \<mapsto> ys]" "p \<noteq> q" "cells_ok h" using assms(1) by (simp_all add: duel_def)
  obtain w h' where h': "send_on q v h = Some h'" "holds h' ([p \<mapsto> xs, q \<mapsto> ys](q \<mapsto> ys @ [(w, FREE_INT)]))" "added w v h h'"
    using send_on_ok [OF Q(1) _ Q(3), of q ys v] l assms(2) by auto
  have d: "vals_are h xs vs" "vals_are h ys ws" "own h ys" using assms(1) by (simp_all add: duel_def)
  have "duel h' p xs vs q (ys @ [(w, FREE_INT)]) (ws @ [v])"
    using h'(2) Q(2) added_vals(1) [OF h'(3) d(1)] added_vals(2) [OF h'(3) d(2)] added_own [OF h'(3) d(3)] h'(3)
    by (simp add: duel_def added_def)
  then show ?thesis using h'(1) by blast
qed

lemma enter_arena_max: "enter_arena a b = max a b"
  by (simp add: enter_arena_def max_def)

lemma duel_pairs:
  assumes "duel h p xs vs q ys ws" "length vs = 2 * n" "length ws + n < 2 ^ 32"
  shows "\<exists>h' ys'. pair_loop p q n h = Some h' \<and> duel h' p [] [] q ys' (ws @ winners vs)"
  using assms
proof (induction n arbitrary: h xs vs ys ws)
  case 0 then show ?case by (auto simp: duel_def)
next
  case (Suc n)
  obtain a b vs' where vs: "vs = a # b # vs'" "length vs' = 2 * n" using Suc.prems(2) by (cases vs; cases "tl vs") auto
  obtain h1 xs1 where h1: "take_fighter p h = Some (a, h1)" "duel h1 p xs1 (b # vs') q ys ws" using duel_take Suc.prems(1) vs(1) by blast
  obtain h2 xs2 where h2: "take_fighter p h1 = Some (b, h2)" "duel h2 p xs2 vs' q ys ws" using duel_take [OF h1(2)] by blast
  obtain h3 ys3 where h3: "send_on q (max a b) h2 = Some h3" "duel h3 p xs2 vs' q ys3 (ws @ [max a b])"
    using duel_send [OF h2(2), of "max a b"] Suc.prems(3) by auto
  have "length (ws @ [max a b]) + n < 2 ^ 32" using Suc.prems(3) by simp
  from Suc.IH [OF h3(2) vs(2) this] show ?case using h1(1) h2(1) h3(1) vs(1) by (simp add: enter_arena_max)
qed

lemma holds_size:
  assumes "holds h Q" "Q p = Some xs"
  shows "\<exists>q. queues h p = Some q \<and> q_size q = of_nat (length xs)"
  using qrep_facts(4) [OF holds_rep [OF assms]] .

lemma duel_all_pairs:
  assumes "duel h p xs vs q ys ws" "even (length vs)" "length ws + length vs < 2 ^ 31"
  shows "\<exists>h' ys'. all_pairs p q h = Some h' \<and> duel h' p [] [] q ys' (ws @ winners vs)"
proof -
  have Q: "holds h [p \<mapsto> xs, q \<mapsto> ys]" "p \<noteq> q" "length xs = length vs" using assms(1) by (auto simp: duel_def dest: vals_are_length)
  obtain r where r: "queues h p = Some r" "q_size r = of_nat (length vs)" using holds_size [OF Q(1), of p xs] Q(2,3) by auto
  have "unat (q_size r) = length vs" unfolding r(2) using assms(3) by (intro unat_of_nat_32) simp
  then have "unat (q_size r div 2) = length vs div 2" by (simp add: unat_div)
  then show ?thesis using duel_pairs [OF assms(1), of "length vs div 2"] assms(2,3) r(1) by (simp add: all_pairs_def)
qed

lemma duel_finish:
  assumes "duel h p [] [] q ys ws" "ws \<noteq> []" "length ws < 2 ^ 31"
  shows "\<exists>h'. do { (_, _, h) \<leftarrow> m1_queue_destroy call_free_int p h; perfect_bracket q h }
    = Some (hd (play (length ws div 4 + 1) ws), h')"
proof -
  have Q: "holds h [p \<mapsto> [], q \<mapsto> ys]" "p \<noteq> q" "cells_ok h" using assms(1) by (simp_all add: duel_def)
  obtain h1 where h1: "m1_queue_destroy call_free_int p h = Some (True, NULL, h1)" "holds h1 ([p \<mapsto> [], q \<mapsto> ys](p := None))" "same_rest h h1"
    using holds_destroy_empty [OF Q(1), of p call_free_int] Q(2) by auto
  have e: "[p \<mapsto> [], q \<mapsto> ys](p := None) = [q \<mapsto> ys]" using Q(2) by auto
  have "team h1 q ys ws"
    using h1(2) assms(1) same_rest_cells(2,3) [OF h1(3)] same_rest_own [OF h1(3), of ys] unfolding e team_def duel_def own_def by auto
  from perfect_bracket_eval [OF this assms(2,3)] show ?thesis using h1(1) by auto
qed

section \<open>The whole tournament\<close>

lemma duel_start:
  assumes "holds h [p \<mapsto> xs]" "cells_ok h" "vals_are h xs vs"
  shows "\<exists>q h'. m1_queue_create h = Some (q, h') \<and> duel h' p xs vs q [] []"
proof -
  have "plenty_of h" using assms(2) by (simp add: cells_ok_def)
  from holds_create [OF assms(1) this] obtain q h' where h': "m1_queue_create h = Some (q, h')" "[p \<mapsto> xs] q = None"
    "holds h' [p \<mapsto> xs, q \<mapsto> []]" "same_rest h h'" by blast
  have "p \<noteq> q" using h'(2) by auto
  then show ?thesis using h' assms(2,3) same_rest_cells(2,3) [OF h'(4)] by (auto simp: duel_def own_def)
qed

text \<open>The three kinds of first rounds.\<close>

lemma duel_bye:
  assumes "duel h p xs (v # vs) q ys ws"
  shows "\<exists>w h' xs'. take_bye p h = Some (w, h') \<and> duel h' p xs' vs q ys ws \<and> added w v h h'"
proof -
  have Q: "holds h [p \<mapsto> xs, q \<mapsto> ys]" "cells_ok h" and d: "vals_are h xs (v # vs)" "vals_are h ys ws" "own h ys" "p \<noteq> q"
    using assms by (simp_all add: duel_def)
  obtain h1 where h1: "calloc_int h = (brk h, h1)" "holds h1 [p \<mapsto> xs, q \<mapsto> ys]" "added (brk h) 0 h h1"
    using calloc_int_ok [OF Q(2,1)] unfolding added_def by blast
  have "duel h1 p xs (v # vs) q ys ws"
    using h1(2) added_vals(1) [OF h1(3) d(1)] added_vals(1) [OF h1(3) d(2)] added_own [OF h1(3) d(3)] d(4) h1(3) unfolding duel_def added_def by blast
  from duel_take [OF this] obtain h2 x xs' where h2: "xs = x # xs'" "take_fighter p h1 = Some (v, h2)" "duel h2 p xs' vs q ys ws" "same_rest h1 h2"
    by blast
  have c: "cells h2 = cells h1" by (rule same_rest_cells(1) [OF h2(4)])
  have Q2: "cells_ok h2" "holds h2 [p \<mapsto> xs', q \<mapsto> ys]" using h2(3) by (simp_all add: duel_def)
  have "vals (cells h2) (brk h) = Some 0" using h1(3) by (simp add: c added_def)
  from write_int_ok [OF Q2 this, of v] obtain h3 where h3: "write_int (brk h) v h2 = Some h3" "holds h3 [p \<mapsto> xs', q \<mapsto> ys]" "cells_ok h3"
    "vals (cells h3) = (vals (cells h2))(brk h \<mapsto> v)" "owned (cells h3) = owned (cells h2)" by blast
  have a: "added (brk h) v h h3" using h3 h1(3) unfolding added_def c by simp
  have "vals_are h xs' vs" using d(1) h2(1) by auto
  then have "duel h3 p xs' vs q ys ws"
    using h3(2,3) added_vals(1) [OF a] d(2) added_own [OF a d(3)] d(4) by (simp add: duel_def)
  then show ?thesis using h1(1) h2(2) h3(1) a by (auto simp: take_bye_def)
qed

lemma duel_enqueue:
  assumes "duel h p xs vs q ys ws" "Suc (length ws) < 2 ^ 32"
    and w: "vals (cells h) w = Some v" "w \<in> owned (cells h)" "w \<notin> fst ` set ys" "w \<noteq> NULL"
  shows "\<exists>h'. m1_queue_enqueue q w FREE_INT h = Some (True, h') \<and> duel h' p xs vs q (ys @ [(w, FREE_INT)]) (ws @ [v]) \<and> same_rest h h'"
proof -
  have Q: "holds h [p \<mapsto> xs, q \<mapsto> ys]" "p \<noteq> q" "cells_ok h" "length ys = length ws" using assms(1) by (auto simp: duel_def dest: vals_are_length)
  have "plenty_of h" using Q(3) by (simp add: cells_ok_def)
  from holds_enqueue [OF Q(1) _ w(4) _ this, of q ys FREE_INT] Q(2,4) assms(2) obtain h' where h': "m1_queue_enqueue q w FREE_INT h = Some (True, h')"
    "holds h' ([p \<mapsto> xs, q \<mapsto> ys](q \<mapsto> ys @ [(w, FREE_INT)]))" "same_rest h h'" by auto
  have d: "vals_are h xs vs" "vals_are h ys ws" "own h ys" using assms(1) by (simp_all add: duel_def)
  have "own h (ys @ [(w, FREE_INT)])" using d(3) w by (auto simp: own_def)
  then show ?thesis using h' Q(2,3) same_rest_cells(2,3) [OF h'(3)] same_rest_own [OF h'(3)] d vals_are_snoc [OF d(2) w(1)] by (simp add: duel_def)
qed

lemma first_round_3:
  assumes d: "duel h p xs (a # vs) q [] []" and e: "even (length vs)" "length vs < 2 ^ 30"
  shows "\<exists>h' ys. do { (b, h) \<leftarrow> take_bye p h; (_, h) \<leftarrow> m1_queue_enqueue q b FREE_INT h; all_pairs p q h } = Some h'
    \<and> duel h' p [] [] q ys (a # winners vs)"
proof -
  obtain w h1 xs1 where h1: "take_bye p h = Some (w, h1)" "duel h1 p xs1 vs q [] []" "added w a h h1" using duel_bye [OF d] by blast
  have "vals (cells h1) w = Some a" "w \<in> owned (cells h1)" "w \<noteq> NULL" using h1(3) by (simp_all add: added_def)
  with duel_enqueue [OF h1(2)] obtain h2 where h2: "m1_queue_enqueue q w FREE_INT h1 = Some (True, h2)" "duel h2 p xs1 vs q [(w, FREE_INT)] [a]"
    by fastforce
  from duel_all_pairs [OF h2(2) e(1)] e(2) show ?thesis using h1(1) h2(1) by auto
qed

lemma first_round_2:
  assumes d: "duel h p xs (a # b # vs) q [] []" and e: "even (length vs)" "length vs < 2 ^ 30"
  shows "\<exists>h' ys. do {
       (frb1, h) \<leftarrow> take_bye p h;
       (frb2, h) \<leftarrow> take_bye p h;
       (_, h) \<leftarrow> m1_queue_enqueue q frb1 FREE_INT h;
       (_, h) \<leftarrow> m1_queue_enqueue q frb2 FREE_INT h;
       h \<leftarrow> all_pairs p q h;
       _ \<leftarrow> print_queue q h;
       Some h
     } = Some h' \<and> duel h' p [] [] q ys (a # b # winners vs)"
proof -
  obtain w1 h1 xs1 where h1: "take_bye p h = Some (w1, h1)" "duel h1 p xs1 (b # vs) q [] []" "added w1 a h h1" using duel_bye [OF d] by blast
  obtain w2 h4 xs2 where h4: "take_bye p h1 = Some (w2, h4)" "duel h4 p xs2 vs q [] []" "added w2 b h1 h4" using duel_bye [OF h1(2)] by blast
  have w: "vals (cells h4) w1 = Some a" "w1 \<in> owned (cells h4)" "w1 \<noteq> NULL" "vals (cells h4) w2 = Some b" "w2 \<in> owned (cells h4)" "w2 \<noteq> NULL" "w1 \<noteq> w2"
    using h1(3) h4(3) by (auto simp: added_def)
  obtain h5 where h5: "m1_queue_enqueue q w1 FREE_INT h4 = Some (True, h5)" "duel h5 p xs2 vs q [(w1, FREE_INT)] [a]" "same_rest h4 h5"
    using duel_enqueue [OF h4(2) _ w(1,2) _ w(3)] by auto
  obtain h6 where h6: "m1_queue_enqueue q w2 FREE_INT h5 = Some (True, h6)" "duel h6 p xs2 vs q [(w1, FREE_INT), (w2, FREE_INT)] [a, b]"
    using duel_enqueue [OF h5(2), of w2 b] w same_rest_cells(1) [OF h5(3)] by auto
  obtain h7 ys where h7: "all_pairs p q h6 = Some h7" "duel h7 p [] [] q ys ([a, b] @ winners vs)"
    using duel_all_pairs [OF h6(2) e(1)] e(2) by auto
  have "print_queue q h7 = Some ([a, b] @ winners vs)"
    using h7(2) by (intro print_queue_vals [of _ _ ys]) (auto simp: duel_def intro: holds_rep)
  then show ?thesis using h1(1) h4(1) h5(1) h6(1) h7(1)
    by (intro exI [of _ h7] exI [of _ ys]) (use h7(2) in simp)
qed

lemma first_round_1:
  assumes d: "duel h p xs (a # b # vs) q [] []" and e: "odd (length vs)" "length vs < 2 ^ 30"
  shows "\<exists>h' ys. do {
       (f1, h) \<leftarrow> take_fighter p h;
       (f2, h) \<leftarrow> take_fighter p h;
       h \<leftarrow> send_on p (enter_arena f1 f2) h;
       all_pairs p q h
     } = Some h' \<and> duel h' p [] [] q ys (winners (vs @ [max a b]))"
proof -
  obtain h1 xs1 where h1: "take_fighter p h = Some (a, h1)" "duel h1 p xs1 (b # vs) q [] []" using duel_take [OF d] by blast
  obtain h2 xs2 where h2: "take_fighter p h1 = Some (b, h2)" "duel h2 p xs2 vs q [] []" using duel_take [OF h1(2)] by blast
  have Q: "holds h2 [p \<mapsto> xs2, q \<mapsto> []]" "p \<noteq> q" "cells_ok h2" "length xs2 = length vs" "vals_are h2 xs2 vs"
    using h2(2) by (auto simp: duel_def dest: vals_are_length)
  from send_on_ok [OF Q(1) _ Q(3), of p xs2 "max a b"] Q(2,4) e(2) obtain w h3 where h3: "send_on p (max a b) h2 = Some h3"
    "holds h3 ([p \<mapsto> xs2, q \<mapsto> []](p \<mapsto> xs2 @ [(w, FREE_INT)]))" "added w (max a b) h2 h3" by auto
  have m: "[p \<mapsto> xs2, q \<mapsto> []](p \<mapsto> xs2 @ [(w, FREE_INT)]) = [p \<mapsto> xs2 @ [(w, FREE_INT)], q \<mapsto> []]" using Q(2) by auto
  have "duel h3 p (xs2 @ [(w, FREE_INT)]) (vs @ [max a b]) q [] []"
    using h3(2,3) Q(2) added_vals(2) [OF h3(3) Q(5)] unfolding m by (simp add: duel_def added_def own_def)
  from duel_all_pairs [OF this] e show ?thesis using h1(1) h2(1) h3(1) by (simp add: enter_arena_max)
qed

lemma set_bracket_eval:
  assumes Q: "holds h [p \<mapsto> xs]" and ok: "cells_ok h" and vs: "vals_are h xs vs"
    and n: "3 \<le> length vs" "length vs mod 4 \<noteq> 0" "length vs < 2 ^ 30"
  shows "\<exists>h'. set_bracket p h = Some (hd (play (length (seeded vs) div 4 + 1) (seeded vs)), h')"
proof -
  obtain r where r: "queues h p = Some r" "q_size r = of_nat (length vs)"
    using holds_size [OF Q, of p xs] vals_are_length [OF vs] by auto
  have u: "unat (q_size r) = length vs" unfolding r(2) using n(3) by (intro unat_of_nat_32) simp
  have sz: "q_size r \<noteq> 1" "q_size r \<noteq> 2" "q_size r mod 4 \<noteq> 0" "q_size r mod 4 = 3 \<longleftrightarrow> length vs mod 4 = 3" "q_size r mod 4 = 2 \<longleftrightarrow> length vs mod 4 = 2"
    using n(1,2) by (auto simp: word_unat_eq_iff unat_mod u)
  obtain q h1 where h1: "m1_queue_create h = Some (q, h1)" "duel h1 p xs vs q [] []" using duel_start [OF Q ok vs] by blast
  obtain a b c ws where abc: "vs = a # b # c # ws" using n(1) by (cases vs; cases "tl vs"; cases "tl (tl vs)") auto
  note s = seeded_facts [OF n(1,2)]
  have fin: "\<exists>h'. do { (_, _, h) \<leftarrow> m1_queue_destroy call_free_int p h2; perfect_bracket q h }
      = Some (hd (play (length (seeded vs) div 4 + 1) (seeded vs)), h')" if "duel h2 p [] [] q ys (seeded vs)" for h2 ys
    using duel_finish [OF that s(2)] s(3) n(3) by simp
  have m: "length vs mod 4 = 3 \<or> length vs mod 4 = 2 \<or> length vs mod 4 = 1" using n(2) by presburger
  then show ?thesis
  proof (elim disjE)
    let ?X = "do { (b, h) \<leftarrow> take_bye p h1; (_, h) \<leftarrow> m1_queue_enqueue q b FREE_INT h; all_pairs p q h }"
    assume 3: "length vs mod 4 = 3"
    have "even (length (b # c # ws))" using 3 abc by simp presburger
    moreover have "seeded vs = a # winners (b # c # ws)" using 3 abc by (simp add: seeded_def)
    ultimately obtain h2 ys where h2: "?X = Some h2" "duel h2 p [] [] q ys (seeded vs)"
      using first_round_3 [OF h1(2) [unfolded abc]] n(3) abc by auto
    have "set_bracket p h = do { h \<leftarrow> ?X; (_, _, h) \<leftarrow> m1_queue_destroy call_free_int p h; perfect_bracket q h }"
      using r(1) sz 3 h1(1) by (simp add: set_bracket_def)
    then show ?thesis using fin [OF h2(2)] by (simp only: h2(1) bind.bind_lunit)
  next
    let ?X = "do {
       (frb1, h) \<leftarrow> take_bye p h1;
       (frb2, h) \<leftarrow> take_bye p h;
       (_, h) \<leftarrow> m1_queue_enqueue q frb1 FREE_INT h;
       (_, h) \<leftarrow> m1_queue_enqueue q frb2 FREE_INT h;
       h \<leftarrow> all_pairs p q h;
       _ \<leftarrow> print_queue q h;
       Some h
     }"
    assume 2: "length vs mod 4 = 2"
    have "even (length (c # ws))" using 2 abc by simp presburger
    moreover have "seeded vs = a # b # winners (c # ws)" using 2 abc by (simp add: seeded_def)
    ultimately obtain h2 ys where h2: "?X = Some h2" "duel h2 p [] [] q ys (seeded vs)"
      using first_round_2 [OF h1(2) [unfolded abc]] n(3) abc by auto
    have "set_bracket p h = do { h \<leftarrow> ?X; (_, _, h) \<leftarrow> m1_queue_destroy call_free_int p h; perfect_bracket q h }"
      using r(1) sz 2 h1(1) by (simp add: set_bracket_def)
    then show ?thesis using fin [OF h2(2)] by (simp only: h2(1) bind.bind_lunit)
  next
    let ?X = "do {
       (f1, h) \<leftarrow> take_fighter p h1;
       (f2, h) \<leftarrow> take_fighter p h;
       h \<leftarrow> send_on p (enter_arena f1 f2) h;
       all_pairs p q h
     }"
    assume 1: "length vs mod 4 = 1"
    have "odd (length (c # ws))" using 1 abc by simp presburger
    moreover have "seeded vs = winners ((c # ws) @ [max a b])" using 1 abc by (simp add: seeded_def)
    ultimately obtain h2 ys where h2: "?X = Some h2" "duel h2 p [] [] q ys (seeded vs)"
      using first_round_1 [OF h1(2) [unfolded abc]] n(3) abc by auto
    have "set_bracket p h = do { h \<leftarrow> ?X; (_, _, h) \<leftarrow> m1_queue_destroy call_free_int p h; perfect_bracket q h }"
      using r(1) sz 1 h1(1) by (simp add: set_bracket_def)
    then show ?thesis using fin [OF h2(2)] by (simp only: h2(1) bind.bind_lunit)
  qed
qed

end
