(* ===== verification/BracketProps.thy ===== *)
theory BracketProps
  imports BracketRuns
begin

text \<open>The properties of the tournament.\<close>

lemma set_bracket_one:
  assumes "holds h [p \<mapsto> xs]" "vals_are h xs [v]"
  shows "set_bracket p h = Some (v, h)"
proof -
  obtain x where x: "xs = [x]" "vals (cells h) (fst x) = Some v" using assms(2) by (auto simp: vals_are_def list_all2_Cons2)
  obtain r where "queues h p = Some r" "q_size r = 1" using holds_size [OF assms(1), of p xs] x(1) by auto
  moreover have "m1_queue_peek p h = Some (fst x)"
    using queue_peek_spec [of h p xs] assms(1) x(1) by (simp add: holds_single m1_queue_peek_def)
  ultimately show ?thesis using x(2) by (simp add: set_bracket_def read_int_def)
qed

lemma set_bracket_two:
  assumes "holds h [p \<mapsto> xs]" "vals_are h xs [a, b]"
  shows "\<exists>h'. set_bracket p h = Some (max a b, h')"
proof -
  obtain x y where x: "xs = [x, y]" "vals (cells h) (fst x) = Some a" "vals (cells h) (fst y) = Some b"
    using assms(2) by (auto simp: vals_are_def list_all2_Cons2)
  obtain r where r: "queues h p = Some r" "q_size r = 2" using holds_size [OF assms(1), of p xs] x(1) by auto
  obtain h1 where h1: "take_fighter p h = Some (a, h1)" "holds h1 [p \<mapsto> [y]]" "same_rest h h1"
    using take_fighter_ok [OF assms(1) _ x(2), of p "[y]"] x(1) by auto
  obtain h2 where "take_fighter p h1 = Some (b, h2)"
    using take_fighter_ok [OF h1(2), of p y "[]" b] x(3) same_rest_cells(1) [OF h1(3)] by auto
  then show ?thesis using r h1(1) by (simp add: set_bracket_def enter_arena_max)
qed

lemma set_bracket_four:
  assumes "holds h [p \<mapsto> xs]" "vals_are h xs vs" "length vs mod 4 = 0" "vs \<noteq> []" "length vs < 2 ^ 30"
  shows "set_bracket p h = perfect_bracket p h"
proof -
  obtain r where r: "queues h p = Some r" "q_size r = of_nat (length vs)"
    using holds_size [OF assms(1), of p xs] vals_are_length [OF assms(2)] by auto
  have u: "unat (q_size r) = length vs" unfolding r(2) using assms(5) by (intro unat_of_nat_32) simp
  have "q_size r \<noteq> 1" "q_size r \<noteq> 2" "q_size r mod 4 = 0"
    using assms(3) u by (auto simp: word_unat_eq_iff unat_mod)
  then show ?thesis using r(1) by (simp add: set_bracket_def)
qed

text \<open>The sizes after the first round for which \<open>perfect_bracket\<close> has too few rounds.\<close>

lemma seeded_size:
  assumes "m \<notin> {10, 11, 13, 18, 19, 21}" "3 \<le> m" "m mod 4 \<noteq> 0"
    and "l = (if m mod 4 = 3 then (m + 1) div 2 else if m mod 4 = 2 then m div 2 + 1 else (m - 1) div 2)"
  shows "l \<notin> {3, 5, 6, 7, 9, 10, 11 :: nat}"
proof -
  obtain q r where m: "m = 4 * q + r" "r < 4" using mult_div_mod_eq [of 4 m] mod_less_divisor [of 4 m] by (metis zero_less_numeral)
  then have r: "m mod 4 = r" by simp
  have "r = 1 \<or> r = 2 \<or> r = 3" using m(2) assms(3) r by linarith
  then show ?thesis
  proof (elim disjE)
    assume "r = 1"
    then have "l = 2 * q" "m = 4 * q + 1" using assms(4) m(1) r by simp_all
    then show ?thesis using assms(1) by auto presburger+
  next
    assume "r = 2"
    then have "l = 2 * q + 2" "m = 4 * q + 2" using assms(4) m(1) r by simp_all
    then show ?thesis using assms(1) by auto
  next
    assume "r = 3"
    then have "l = 2 * q + 2" "m = 4 * q + 3" using assms(4) m(1) r by simp_all
    then show ?thesis using assms(1) by auto
  qed
qed

lemma champion:
  assumes Q: "holds h [p \<mapsto> xs]" and ok: "cells_ok h" and vs: "vals_are h xs vs" and ne: "vs \<noteq> []" and len: "length vs < 2 ^ 30"
    and n: "length vs \<notin> {10, 11, 13, 18, 19, 21}" and o: "length vs mod 4 = 0 \<longrightarrow> own h xs"
  shows "\<exists>h'. set_bracket p h = Some (Max (set vs), h')"
proof -
  consider (1) "length vs = 1" | (2) "length vs = 2" | (4) "length vs mod 4 = 0" | (0) "3 \<le> length vs" "length vs mod 4 \<noteq> 0"
    using ne by (cases "length vs \<le> 2") (auto simp: le_Suc_eq numeral_2_eq_2)
  then show ?thesis
  proof cases
    case 1
    then obtain v where "vs = [v]" by (metis length_0_conv length_Suc_conv One_nat_def)
    then show ?thesis using set_bracket_one [OF Q] vs by simp
  next
    case 2
    then obtain a b where "vs = [a, b]" by (cases vs; cases "tl vs") auto
    then show ?thesis using set_bracket_two [OF Q] vs by simp
  next
    case 4
    then have t: "team h p xs vs" using Q ok vs o by (simp add: team_def own_def)
    have "length vs \<notin> {3, 5, 6, 7, 9, 10, 11}" using 4 by auto
    then have "play (length vs div 4 + 1) vs = [Max (set vs)]" by (rule play_champion [OF ne rounds_enough])
    then show ?thesis using perfect_bracket_eval [OF t ne] len set_bracket_four [OF Q vs 4 ne len] by auto
  next
    case 0
    note s = seeded_facts [OF 0]
    have "length (seeded vs) \<notin> {3, 5, 6, 7, 9, 10, 11}" by (rule seeded_size [OF n 0 s(4)])
    then have "play (length (seeded vs) div 4 + 1) (seeded vs) = [Max (set vs)]"
      unfolding s(1) [symmetric] by (rule play_champion [OF s(2) rounds_enough])
    then show ?thesis using set_bracket_eval [OF Q ok vs 0 len] by simp
  qed
qed

text \<open>C37: the tournament finds the champion. For at least one fighter in memory, fewer than \<open>2 ^ 30\<close> and none of
  10, 11, 13, 18, 19 and 21, when no allocation fails (\<open>cells_ok\<close>), \<open>set_bracket\<close> returns the greatest; if their number
  is a multiple of four the fighters must come from \<open>calloc\<close>, at different addresses, because they are freed.\<close>

theorem bracket_champion:
  assumes "qrep h p xs" "cells_ok h" "vals_are h xs vs" "vs \<noteq> []" "length vs < 2 ^ 30"
    and "length vs \<notin> {10, 11, 13, 18, 19, 21}" "length vs mod 4 = 0 \<longrightarrow> own h xs"
  shows "\<exists>h'. set_bracket p h = Some (Max (set vs), h')"
  using champion assms by (simp add: holds_single)

text \<open>A heap with an empty queue at 4, and integers at 8, 12, and so on.\<close>

definition ring0 :: "int list \<Rightarrow> bheap" where
  "ring0 vs = \<lparr>brk = 8 + 4 * length vs, allocs = 0, oom = \<lambda>_. False, qnodes = Map.empty,
     queues = [4 \<mapsto> \<lparr>q_head = NULL, q_tail = NULL, q_size = 0\<rparr>],
     \<dots> = \<lparr>vals = map_of (zip (map (\<lambda>i. 8 + 4 * i) [0..<length vs]) vs), owned = {}\<rparr>\<rparr>"

lemma enter_all_holds:
  assumes "holds h Q" "Q p = Some xs" "NULL \<notin> set as" "length xs + length as < 2 ^ 32" "plenty_of h"
  shows "\<exists>h'. enter_all p as h = Some h' \<and> holds h' (Q(p \<mapsto> xs @ map (\<lambda>a. (a, NULL)) as)) \<and> same_rest h h'"
  using assms
proof (induction as arbitrary: h Q xs)
  case Nil then show ?case by (simp add: same_rest_def fun_upd_idem)
next
  case (Cons a as)
  obtain h1 where h1: "m1_queue_enqueue p a NULL h = Some (True, h1)" "holds h1 (Q(p \<mapsto> xs @ [(a, NULL)]))" "same_rest h h1"
    using holds_enqueue [OF Cons.prems(1,2) _ _ Cons.prems(5), of a NULL] Cons.prems(3,4) by auto
  have "plenty_of h1" using same_rest_plenty [OF h1(3)] Cons.prems(5) by simp
  note pl = \<open>plenty_of h1\<close>
  have "\<exists>h'. enter_all p as h1 = Some h' \<and> holds h' ((Q(p \<mapsto> xs @ [(a, NULL)]))(p \<mapsto> (xs @ [(a, NULL)]) @ map (\<lambda>a. (a, NULL)) as)) \<and> same_rest h1 h'"
    by (rule Cons.IH [OF h1(2) fun_upd_same _ _ pl]) (use Cons.prems(3,4) in simp_all)
  then obtain h2 where "enter_all p as h1 = Some h2" "holds h2 (Q(p \<mapsto> xs @ (a, NULL) # map (\<lambda>a. (a, NULL)) as))" "same_rest h1 h2"
    unfolding fun_upd_upd append_assoc append.simps by blast
  moreover from this(3) h1(3) have "same_rest h h2" by (auto simp: same_rest_def)
  moreover have "enter_all p (a # as) h = enter_all p as h1" using h1(1) by simp
  ultimately show ?case unfolding list.map by metis
qed

lemma main_fighters_length: "length main_fighters = 8"
  by (simp add: main_fighters_def)

text \<open>\<open>main\<close> returns 21, as it expects.\<close>

lemma bracket_main_result:
  assumes "qheap_ok h" "cells_ok h" "length as = 8" "distinct as" "\<forall>a \<in> set as. 0 < a \<and> a < brk h"
  shows "\<exists>h'. bracket_main as h = Some (21, h')"
proof -
  let ?h = "qwith_more h ((cells h)\<lparr>vals := vals (cells h) ++ map_of (zip as main_fighters)\<rparr>)"
  have ok: "cells_ok ?h" "qheap_ok ?h"
    using assms set_zip_leftD [of _ _ as main_fighters]
    by (auto simp: cells_ok_def plenty_of_def qheap_ok_def dest!: map_of_SomeD)
  have "holds ?h Map.empty" using ok(2) by (simp add: holds_def holds_at_def)
  from holds_create [OF this] ok(1) obtain p h1 where h1: "m1_queue_create ?h = Some (p, h1)" "p \<noteq> NULL" "holds h1 [p \<mapsto> []]" "same_rest ?h h1"
    by (auto simp: cells_ok_def)
  have ok1: "cells_ok h1" by (rule same_rest_cells(2) [OF h1(4) ok(1)])
  have as: "NULL \<notin> set (take 6 as)" "length (take 6 as) = 6" using assms(3,5) by (auto dest: in_set_takeD)
  obtain h2 where h2: "enter_all p (take 6 as) h1 = Some h2" "holds h2 [p \<mapsto> map (\<lambda>a. (a, NULL)) (take 6 as)]" "same_rest h1 h2"
    using enter_all_holds [OF h1(3), of p "[]" "take 6 as"] as ok1 by (auto simp: cells_ok_def)
  have c: "cells h2 = cells ?h" using same_rest_cells(1) [OF h2(3)] same_rest_cells(1) [OF h1(4)] by simp
  have "vals (cells h2) (as ! i) = Some (main_fighters ! i)" if "i < 6" for i
    using that assms(3,4) c map_of_zip_nth [of as main_fighters i] by (simp add: main_fighters_def map_add_def)
  then have "vals_are h2 (map (\<lambda>a. (a, NULL)) (take 6 as)) (take 6 main_fighters)"
    using assms(3) main_fighters_length by (simp add: vals_are_def list_all2_conv_all_nth)
  then have v: "vals_are h2 (map (\<lambda>a. (a, NULL)) (take 6 as)) [1, 3, 15, 7, 5, 21]" by (simp add: main_fighters_def)
  obtain h3 where "set_bracket p h2 = Some (21, h3)"
    using champion [OF h2(2) same_rest_cells(2) [OF h2(3) ok1] v] by auto
  moreover have "print_queue p h2 = Some [1, 3, 15, 7, 5, 21]" by (rule print_queue_vals [OF _ v]) (use h2(2) in \<open>simp add: holds_single\<close>)
  ultimately show ?thesis using h1(1) h2(1) by (simp add: bracket_main_def Let_def)
qed

lemma ring0_ok: "holds (ring0 vs) [4 \<mapsto> []]" "cells_ok (ring0 vs)"
proof -
  show "holds (ring0 vs) [4 \<mapsto> []]" by (simp add: holds_single ring0_def qrep_def qheap_ok_def queue_at_def)
  show "cells_ok (ring0 vs)"
    by (auto simp: ring0_def cells_ok_def plenty_of_def dest!: map_of_SomeD set_zip_leftD)
qed

lemma ring0_entered:
  assumes "length vs < 2 ^ 30"
  shows "\<exists>h. enter_all 4 (map (\<lambda>i. 8 + 4 * i) [0..<length vs]) (ring0 vs) = Some h
    \<and> qrep h 4 (map (\<lambda>i. (8 + 4 * i, NULL)) [0..<length vs]) \<and> cells_ok h \<and> vals_are h (map (\<lambda>i. (8 + 4 * i, NULL)) [0..<length vs]) vs
    \<and> owned (cells h) = {}"
proof -
  let ?as = "map (\<lambda>i. 8 + 4 * i) [0..<length vs]"
  have nz: "NULL \<notin> set ?as" by auto
  have "plenty_of (ring0 vs)" using ring0_ok(2) by (simp add: cells_ok_def)
  from enter_all_holds [OF ring0_ok(1) _ _ _ this, of 4 "[]" ?as] nz assms obtain h where h: "enter_all 4 ?as (ring0 vs) = Some h"
    "holds h [4 \<mapsto> map (\<lambda>a. (a, NULL)) ?as]" "same_rest (ring0 vs) h" by (auto simp del: set_map)
  have c: "cells h = cells (ring0 vs)" by (rule same_rest_cells(1) [OF h(3)])
  have "distinct ?as" by (simp add: distinct_map inj_on_def)
  then have "vals (cells h) (?as ! i) = Some (vs ! i)" if "i < length vs" for i
    unfolding c using that map_of_zip_nth [of ?as vs i] by (simp add: ring0_def)
  then have "vals_are h (map (\<lambda>i. (8 + 4 * i, NULL)) [0..<length vs]) vs" by (simp add: vals_are_def list_all2_conv_all_nth)
  moreover have "owned (cells h) = {}" unfolding c by (simp add: ring0_def)
  ultimately show ?thesis using h(1,2) same_rest_cells(2) [OF h(3) ring0_ok(2)]
    by (intro exI [of _ h]) (simp add: holds_single comp_def)
qed

theorem bracket_champion_witness:
  "\<exists>h h'. enter_all 4 (map (\<lambda>i. 8 + 4 * i) [0..<6]) (ring0 [1, 3, 15, 7, 5, 21]) = Some h \<and> set_bracket 4 h = Some (21, h')"
proof -
  have len: "length [1, 3, 15, 7, 5, 21] = 6" and bound: "6 < (2::nat) ^ 30" by simp_all
  obtain h where h: "enter_all 4 (map (\<lambda>i. 8 + 4 * i) [0..<6]) (ring0 [1, 3, 15, 7, 5, 21]) = Some h"
    "qrep h 4 (map (\<lambda>i. (8 + 4 * i, NULL)) [0..<6])" "cells_ok h" "vals_are h (map (\<lambda>i. (8 + 4 * i, NULL)) [0..<6]) [1, 3, 15, 7, 5, 21]"
    using ring0_entered [of "[1, 3, 15, 7, 5, 21]", unfolded len, OF bound] by blast
  from bracket_champion [OF h(2,3,4)] h(1) show ?thesis by auto
qed

lemma bracket_ten:
  assumes Q: "holds h [p \<mapsto> xs]" and "cells_ok h" "vals_are h xs vs" and n: "length vs = 10"
  shows "\<exists>h'. set_bracket p h = Some (Max (set (drop 6 vs)), h')"
proof -
  obtain a b c d e f g i j k where vs: "vs = [a, b, c, d, e, f, g, i, j, k]"
    using n by (auto simp: length_Suc_conv numeral_eq_Suc)
  have "seeded vs = [a, b, max c d, max e f, max g i, max j k]" by (simp add: vs seeded_def)
  moreover have "play 2 [a, b, max c d, max e f, max g i, max j k] = [max (max g i) (max j k), max (max a b) (max (max c d) (max e f))]"
    using play.simps(2) [of 1 "[a, b, max c d, max e f, max g i, max j k]"] by (simp only: Suc_1 list.size) simp
  ultimately have "hd (play (length (seeded vs) div 4 + 1) (seeded vs)) = max (max g i) (max j k)" by (simp add: numeral_2_eq_2 del: play.simps)
  moreover have "Max (set (drop 6 vs)) = max (max g i) (max j k)" by (simp add: vs max.assoc)
  ultimately show ?thesis
    using set_bracket_eval [OF Q assms(2,3)] n by simp
qed

lemma bracket_stack:
  assumes Q: "holds h [p \<mapsto> xs]" and "cells_ok h" "vals_are h xs vs"
    and n: "length vs mod 4 = 0 \<and> vs \<noteq> [] \<and> length vs < 2 ^ 30 \<and> fst (hd xs) \<notin> owned (cells h)"
  shows "set_bracket p h = None"
proof -
  have "2 \<le> length vs" using n by (cases vs) (auto simp: Suc_le_eq)
  then obtain x y ys a b ws where xs: "xs = x # y # ys" "vs = a # b # ws" "vals (cells h) (fst x) = Some a" "vals (cells h) (fst y) = Some b"
    using assms(3) by (cases vs; cases "tl vs") (auto simp: vals_are_def list_all2_Cons2)
  obtain r where r: "queues h p = Some r" "q_size r = of_nat (length vs)"
    using holds_size [OF Q, of p xs] vals_are_length [OF assms(3)] by auto
  have u: "unat (q_size r) = length vs" unfolding r(2) using n by (intro unat_of_nat_32) simp
  then have s: "sint (q_size r) = int (length vs)" using sint_small [of "q_size r"] n by simp
  have "unat (q_size r div 4) = length vs div 4" using u by (simp add: unat_div)
  moreover have l4: "length vs div 4 < 2 ^ 30" using n div_le_dividend le_less_trans by blast
  ultimately have "unat (q_size r div 4 + 1) = Suc (length vs div 4)" using unat_add_1_32 [of "q_size r div 4"] n by simp
  then have rs: "sint (q_size r div 4 + 1) = int (Suc (length vs div 4))" using sint_small [of "q_size r div 4 + 1"] l4 by simp
  obtain h1 where h1: "m1_queue_dequeue p h = Some (fst x, h1)" "holds h1 [p \<mapsto> y # ys]" "same_rest h h1"
    using holds_dequeue [OF Q, of p x "y # ys"] xs(1) by auto
  obtain h2 where h2: "m1_queue_dequeue p h1 = Some (fst y, h2)" "holds h2 [p \<mapsto> ys]" "same_rest h1 h2"
    using holds_dequeue [OF h1(2), of p y ys] by auto
  note c = same_rest_cells(1) [OF h1(3)] same_rest_cells(1) [OF h2(3)]
  have ok2: "cells_ok h2" by (rule same_rest_cells(2) [OF h2(3) same_rest_cells(2) [OF h1(3) assms(2)]])
  obtain k h3 where k: "calloc_int h2 = (brk h2, k)" "\<And>a. a \<noteq> brk h2 \<Longrightarrow> vals (cells k) a = vals (cells h) a"
    and h3: "write_int (brk h2) (max a b) k = Some h3" "brk h2 \<notin> dom (vals (cells h))" "owned (cells h3) = insert (brk h2) (owned (cells h))"
    using new_int_ok [OF ok2 h2(2), of "max a b"] c by auto
  have ne: "fst x \<noteq> brk h2" "fst y \<noteq> brk h2" "fst x \<noteq> NULL" using xs(3,4) h3(2) assms(2) by (auto simp: cells_ok_def)
  then have "free_int (fst x) h3 = None" using n xs(1) h3(3) by (simp add: free_int_def free_cell_def)
  then have "bracket_fights p (Suc m) h = None" for m
    using h1(1) h2(1) k(1) k(2) [OF ne(1)] k(2) [OF ne(2)] h3(1) xs(3,4) by (simp add: read_int_def enter_arena_max)
  moreover obtain m where "length vs div 2 = Suc m" using \<open>2 \<le> length vs\<close> by (cases "length vs div 2") auto
  ultimately have "bracket_fights p (length vs div 2) h = None" by simp
  moreover have "nat (1 + int (length vs div 4)) = Suc (length vs div 4)" by simp
  ultimately have "perfect_bracket p h = None" using r(1) rs s by (simp add: perfect_bracket_def)
  then show ?thesis using set_bracket_four [OF Q assms(3)] n by simp
qed

text \<open>C40: brackets that go wrong. Of ten fighters \<open>set_bracket\<close> returns the greatest of the last four, whoever
  the other six are. When their number is a multiple of four and the first does not come from \<open>calloc\<close>, as in \<open>main\<close>,
  the program frees an address that is not the allocator's.\<close>

theorem bracket_errors:
  assumes "qrep h p xs" "cells_ok h" "vals_are h xs vs"
  shows "(length vs = 10 \<longrightarrow> (\<exists>h'. set_bracket p h = Some (Max (set (drop 6 vs)), h')))
    \<and> (length vs mod 4 = 0 \<and> vs \<noteq> [] \<and> length vs < 2 ^ 30 \<and> fst (hd xs) \<notin> owned (cells h) \<longrightarrow> set_bracket p h = None)"
  using bracket_ten bracket_stack assms by (simp add: holds_single)

theorem bracket_errors_witness:
  "\<exists>h h'. enter_all 4 (map (\<lambda>i. 8 + 4 * i) [0..<10]) (ring0 [10, 9, 8, 7, 6, 5, 4, 3, 2, 1]) = Some h \<and> set_bracket 4 h = Some (4, h')"
proof -
  have len: "length [10, 9, 8, 7, 6, 5, 4, 3, 2, 1] = 10" and bound: "10 < (2::nat) ^ 30" by simp_all
  obtain h where h: "enter_all 4 (map (\<lambda>i. 8 + 4 * i) [0..<10]) (ring0 [10, 9, 8, 7, 6, 5, 4, 3, 2, 1]) = Some h"
    "qrep h 4 (map (\<lambda>i. (8 + 4 * i, NULL)) [0..<10])" "cells_ok h"
    "vals_are h (map (\<lambda>i. (8 + 4 * i, NULL)) [0..<10]) [10, 9, 8, 7, 6, 5, 4, 3, 2, 1]"
    using ring0_entered [of "[10, 9, 8, 7, 6, 5, 4, 3, 2, 1]", unfolded len, OF bound] by blast
  from bracket_errors [OF h(2,3,4)] h(1) show ?thesis by auto
qed

end
