(* ===== verification/ArenaTypes.thy ===== *)
theory ArenaTypes
  imports ArenaText
begin

text \<open>
  The type of a fighter: a name of ten bytes that ends inside them. Every message that the
  server accepts gives one, whatever it contains, and the rest of the program relies on nothing else.
\<close>

definition fighter_ok :: "fighter_t \<Rightarrow> bool" where
  "fighter_ok f \<longleftrightarrow> length (name f) = 10 \<and> 0 \<in> set (name f)"

lemma arr_len_less: "0 \<in> set s \<Longrightarrow> arr_len s < length s"
  unfolding arr_len_def by (induction s) auto

lemma strncat_ok:
  assumes "strncat dst src n = Some dst'"
  shows "length dst' = length dst \<and> 0 \<in> set dst'"
  using assms by (auto simp: strncat_def Let_def split: if_splits)

lemma copy_name_ok:
  assumes "copy_name msg i k dst = Some dst'" "length dst = n" "0 \<in> set dst"
  shows "length dst' = n \<and> 0 \<in> set dst'"
  using assms
proof (induction msg i k dst rule: copy_name.induct)
  case (1 msg i k dst)
  show ?case
  proof (cases "i < k + 1")
    case True
    then obtain d where d: "strncat dst [msg ! nat i] 1 = Some d" "copy_name msg (i + 1) k d = Some dst'"
      using 1(2) copy_name_step [OF True] by (auto split: bind_splits)
    from strncat_ok [OF d(1)] 1(3) have "length d = n" "0 \<in> set d" by simp_all
    then show ?thesis using 1(1) [OF True refl _ ] d by blast
  next
    case False
    then show ?thesis using 1(2-4) copy_name_done by simp
  qed
qed

lemma read_fighter_ok: "read_fighter msg = Some f \<Longrightarrow> fighter_ok f"
  using copy_name_ok [of msg 1 "sint (msg ! 0) - 48" "replicate 10 0"]
  by (auto simp: read_fighter_def fighter_ok_def Let_def split: bind_splits)

text \<open>A name that is too long runs into the end of its array.\<close>

lemma strncat_full: "0 \<notin> set s \<Longrightarrow> c \<noteq> 0 \<Longrightarrow> strncat (s @ [0]) [c] 1 = None"
  using arr_len_nul [of s "[]"] by (simp add: strncat_def Let_def)

lemma strncat_char:
  assumes "0 \<notin> set s" "c \<noteq> 0"
  shows "strncat (s @ replicate (Suc (Suc m)) 0) [c] 1 = Some ((s @ [c]) @ replicate (Suc m) 0)"
  using strncat_zeros [of s 1 "[c]" "Suc m"] assms by simp

lemma copy_name_overflow:
  assumes "0 \<notin> set s" "\<And>j. j \<le> m \<Longrightarrow> msg ! nat (i + int j) \<noteq> 0" "i + int m \<le> k"
  shows "copy_name msg i k (s @ replicate (Suc m) 0) = None"
  using assms
proof (induction m arbitrary: i s)
  case 0
  have c: "msg ! nat i \<noteq> 0" using 0(2) [of 0] by simp
  have "strncat (s @ replicate (Suc 0) 0) [msg ! nat i] 1 = None" using strncat_full [OF 0(1) c] by simp
  then show ?case using copy_name_step [of i k msg] 0(3) by simp
next
  case (Suc m)
  have c: "msg ! nat i \<noteq> 0" using Suc.prems(2) [of 0] by simp
  have n: "msg ! nat (i + 1 + int j) \<noteq> 0" if "j \<le> m" for j using Suc.prems(2) [of "Suc j"] that by (simp add: add.assoc)
  have "copy_name msg (i + 1) k ((s @ [msg ! nat i]) @ replicate (Suc m) 0) = None"
    by (rule Suc.IH) (use Suc.prems c n in auto)
  then show ?case using copy_name_step [of i k msg] strncat_char [OF Suc.prems(1) c, of m] Suc.prems(3) by simp
qed

lemma read_fighter_long:
  assumes "10 \<le> sint (msg ! 0) - 48" "\<forall>j \<in> {1..10}. msg ! j \<noteq> 0"
  shows "read_fighter msg = None"
proof -
  have "copy_name msg 1 (sint (msg ! 0) - 48) ([] @ replicate (Suc 9) 0) = None"
  proof (rule copy_name_overflow)
    fix j :: nat assume "j \<le> 9"
    then have "nat (1 + int j) \<in> {1..10}" by auto
    then show "msg ! nat (1 + int j) \<noteq> 0" using assms(2) by blast
  qed (use assms(1) in simp_all)
  then show ?thesis by (simp add: read_fighter_def Let_def)
qed

lemma read_fighter_negative: "sint (msg ! 0) < 47 \<Longrightarrow> read_fighter msg = None"
  using copy_name_done [of 1 "sint (msg ! 0) - 48" msg] by (simp add: read_fighter_def read_number_def Let_def)

text \<open>The result of a fight between two such fighters fits its buffer.\<close>

lemma fighter_name:
  assumes "fighter_ok f"
  shows "\<exists>n. cstr (name f) = Some n \<and> arr_len (name f) = length n \<and> length n \<le> 9 \<and> 0 \<notin> set n"
proof -
  have "0 \<notin> set (takeWhile (\<lambda>c. c \<noteq> 0) (name f))" by (auto dest: set_takeWhileD)
  then show ?thesis using assms arr_len_less [of "name f"] by (auto simp: fighter_ok_def cstr_def arr_len_def)
qed

lemma result_msg_ok:
  assumes "fighter_ok f" "fighter_ok g"
  shows "\<exists>msg. result_msg f g = Some msg \<and> length msg \<le> 30"
proof -
  obtain m where m: "cstr (name f) = Some m" "arr_len (name f) = length m" "length m \<le> 9" using fighter_name [OF assms(1)] by blast
  obtain n where n: "cstr (name g) = Some n" "arr_len (name g) = length n" "length n \<le> 9" using fighter_name [OF assms(2)] by blast
  show ?thesis using result_msg_eq [OF m(1) n(1) m(2) n(2) m(3) n(3)] m(3) n(3) by (simp add: result_text_def TIE_def)
qed

text \<open>C38: what the server makes of any message. A fighter that it accepts has a name of ten bytes with its end
  among them, and between two such fighters the result always fits the buffer of 30 bytes, whatever
  their health. A message whose name is longer, or whose first character lies more than one before the
  digit zero, makes the server write or read outside its arrays.\<close>

theorem accepted_fighters:
  "(read_fighter msg = Some f \<longrightarrow> fighter_ok f)
   \<and> (fighter_ok g \<and> fighter_ok g' \<longrightarrow> (\<exists>r. result_msg (g\<lparr>health := x\<rparr>) (g'\<lparr>health := y\<rparr>) = Some r \<and> length r \<le> 30))
   \<and> (10 \<le> sint (msg' ! 0) - 48 \<and> (\<forall>j \<in> {1..10}. msg' ! j \<noteq> 0) \<longrightarrow> read_fighter msg' = None)
   \<and> (sint (msg'' ! 0) < 47 \<longrightarrow> read_fighter msg'' = None)"
  using read_fighter_ok read_fighter_long read_fighter_negative result_msg_ok by (simp add: fighter_ok_def)

theorem accepted_fighters_witness:
  "fighter_ok (new_fighter [65, 66] 60 20 20)
   \<and> (\<exists>r. result_msg ((new_fighter [65, 66] 60 20 20)\<lparr>health := 1\<rparr>) ((new_fighter [65, 66] 60 20 20)\<lparr>health := 1\<rparr>) = Some r \<and> length r \<le> 30)
   \<and> read_fighter (padded (58 # replicate 20 65)) = None \<and> read_fighter (padded [46]) = None"
proof -
  have f: "read_fighter (player_msg [65, 66] 60 20 20 @ []) = Some (new_fighter [65, 66] 60 20 20)"
    by (rule read_fighter_msg) (simp_all add: name_ok_def stat_ok_def)
  have l: "padded (58 # replicate 20 65) = 58 # replicate 20 65 @ replicate 1003 0" by (simp add: padded_def)
  have "padded (58 # replicate 20 65) ! j = 65" if "j \<in> {1..10}" for j
    unfolding l using that by (cases j) (auto simp: nth_append)
  moreover have "sint (padded (58 # replicate 20 65) ! 0) = 58" "sint (padded [46] ! 0) = 46" by (simp_all add: padded_def)
  moreover note accepted_fighters [of "player_msg [65, 66] 60 20 20 @ []" "new_fighter [65, 66] 60 20 20" "new_fighter [65, 66] 60 20 20"
     "new_fighter [65, 66] 60 20 20" 1 1 "padded (58 # replicate 20 65)" "padded [46]"]
  ultimately show ?thesis using f by simp
qed

end
