(* ===== verification/HelloServer.thy ===== *)
theory HelloServer
  imports CSocket CText
begin

text \<open>
  The small web server of WSNetworking (server.c, server.h and test.c). What \<open>socket\<close>, \<open>bind\<close> and
  \<open>listen\<close> return is given by functions of their arguments, what \<open>accept\<close> and \<open>read\<close> return by a list
  with one entry for each round of the loop of \<open>launch\<close>, which never ends: after the last entry
  \<open>accept\<close> waits. \<open>Inl\<close> is the status of a call of \<open>exit\<close>.
\<close>

record ws_server =
  ws_domain :: int
  ws_protocol :: int
  ws_service :: int
  ws_interface :: "32 word"
  ws_port :: int
  ws_backlog :: int
  ws_socket :: int
  ws_address :: sockaddr_in
  ws_launch :: fptr

definition htonl :: "32 word \<Rightarrow> 32 word" where
  "htonl x = of_nat (unat x mod 256 * 2 ^ 24 + unat x div 256 mod 256 * 2 ^ 16 + unat x div 2 ^ 16 mod 256 * 256 + unat x div 2 ^ 24)"

definition INADDR_ANY :: "32 word" where "INADDR_ANY = 0"
definition LAUNCH :: fptr where "LAUNCH = 1"

definition server_create ::
  "(int \<Rightarrow> int \<Rightarrow> int \<Rightarrow> int) \<Rightarrow> (int \<Rightarrow> sockaddr_in \<Rightarrow> int) \<Rightarrow> (int \<Rightarrow> int \<Rightarrow> int)
     \<Rightarrow> int \<Rightarrow> int \<Rightarrow> int \<Rightarrow> 32 word \<Rightarrow> int \<Rightarrow> int \<Rightarrow> fptr \<Rightarrow> int + ws_server" where
  "server_create socket_call bind_call listen_call domain protocol service interface port backlog launch =
     (let a = \<lparr>sin_family = domain, sin_port = htons (of_int port), sin_addr = htonl interface\<rparr>;
          sock = socket_call domain service protocol
      in if sock = 0 then Inl 1
         else if bind_call sock a < 0 then Inl 1
         else if listen_call sock backlog < 0 then Inl 1
         else Inr \<lparr>ws_domain = domain, ws_protocol = protocol, ws_service = service, ws_interface = interface,
           ws_port = port, ws_backlog = backlog, ws_socket = sock, ws_address = a, ws_launch = launch\<rparr>)"

section \<open>The loop\<close>

text \<open>A byte of the local buffer that was never written has no value; printing it is undefined.\<close>

type_synonym local_buffer = "byte option list"

fun print_buffer :: "local_buffer \<Rightarrow> byte list option" where
  "print_buffer [] = None"
| "print_buffer (None # bs) = None"
| "print_buffer (Some c # bs) = (if c = 0 then Some [] else map_option ((#) c) (print_buffer bs))"

datatype hello_event = Shown "byte list" | Wrote int "byte list" | Hung_up int

definition hello :: "byte list" where
  "hello = [72, 101, 108, 108, 111, 44, 32, 87, 111, 114, 108, 100, 33]"

text \<open>\<open>read\<close>: at most 1024 bytes over the start of the buffer, or an error that leaves it.\<close>

definition read_into :: "byte list option \<Rightarrow> local_buffer \<Rightarrow> local_buffer" where
  "read_into r buffer = (case r of None \<Rightarrow> buffer
     | Some bs \<Rightarrow> map Some (take 1024 bs) @ drop (length (take 1024 bs)) buffer)"

fun launch_loop :: "local_buffer \<Rightarrow> (int \<times> byte list option) list \<Rightarrow> hello_event list option" where
  "launch_loop buffer [] = Some []"
| "launch_loop buffer ((new_socket, r) # es) = do {
     let buffer = read_into r buffer;
     s \<leftarrow> print_buffer buffer;
     rest \<leftarrow> launch_loop buffer es;
     Some (Shown s # Wrote new_socket hello # Hung_up new_socket # rest)
   }"

definition launch :: "(int \<times> byte list option) list \<Rightarrow> hello_event list option" where
  "launch es = launch_loop (replicate 1024 None) es"

definition hello_main ::
  "(int \<Rightarrow> int \<Rightarrow> int \<Rightarrow> int) \<Rightarrow> (int \<Rightarrow> sockaddr_in \<Rightarrow> int) \<Rightarrow> (int \<Rightarrow> int \<Rightarrow> int)
     \<Rightarrow> (int \<times> byte list option) list \<Rightarrow> int + hello_event list option" where
  "hello_main socket_call bind_call listen_call es =
     (case server_create socket_call bind_call listen_call AF_INET SOCK_STREAM 0 INADDR_ANY 4433 10 LAUNCH of
        Inl status \<Rightarrow> Inl status | Inr p_server \<Rightarrow> Inr (launch es))"

section \<open>What it does\<close>

lemma print_buffer_string: "0 \<notin> set s \<Longrightarrow> print_buffer (map Some (s @ 0 # t) @ b) = Some s"
  by (induction s) auto

lemma print_buffer_unset: "0 \<notin> set s \<Longrightarrow> print_buffer (map Some s @ None # b) = None"
  by (induction s) auto

lemma launch_loop_strings:
  assumes "\<forall>(f, s) \<in> set rs. 0 \<notin> set s \<and> length s < 1024"
  shows "launch_loop b (map (\<lambda>(f, s). (f, Some (s @ [0]))) rs)
    = Some (concat (map (\<lambda>(f, s). [Shown s, Wrote f hello, Hung_up f]) rs))"
  using assms
proof (induction rs arbitrary: b)
  case (Cons r rs)
  obtain f s where r: "r = (f, s)" by (cases r)
  then have "0 \<notin> set s" "read_into (Some (s @ [0])) b = map Some (s @ 0 # []) @ drop (Suc (length s)) b"
    using Cons.prems by (auto simp: read_into_def)
  then show ?case using Cons r print_buffer_string [of s "[]"] by simp
qed simp

text \<open>
  A client that sends a terminated string is greeted and its string shown. The buffer is not cleared
  between clients: after a string, a shorter message without terminator is shown with the rest of the
  earlier client's string, and a first message without terminator has no defined output.
\<close>

theorem hello_replies:
  shows "(\<forall>(f, s) \<in> set rs. 0 \<notin> set s \<and> length s < 1024) \<longrightarrow>
      launch (map (\<lambda>(f, s). (f, Some (s @ [0]))) rs) = Some (concat (map (\<lambda>(f, s). [Shown s, Wrote f hello, Hung_up f]) rs))"
    and "0 \<notin> set s \<union> set t \<and> length t \<le> length s \<and> length s < 1024 \<longrightarrow>
      launch [(f, Some (s @ [0])), (g, Some t)]
        = Some [Shown s, Wrote f hello, Hung_up f, Shown (t @ drop (length t) s), Wrote g hello, Hung_up g]"
    and "0 \<notin> set t \<and> length t < 1024 \<longrightarrow> launch ((f, Some t) # es) = None"
proof -
  show "(\<forall>(f, s) \<in> set rs. 0 \<notin> set s \<and> length s < 1024) \<longrightarrow>
      launch (map (\<lambda>(f, s). (f, Some (s @ [0]))) rs) = Some (concat (map (\<lambda>(f, s). [Shown s, Wrote f hello, Hung_up f]) rs))"
    using launch_loop_strings by (simp add: launch_def)
next
  show "0 \<notin> set s \<union> set t \<and> length t \<le> length s \<and> length s < 1024 \<longrightarrow>
      launch [(f, Some (s @ [0])), (g, Some t)]
        = Some [Shown s, Wrote f hello, Hung_up f, Shown (t @ drop (length t) s), Wrote g hello, Hung_up g]"
  proof (intro impI)
    assume a: "0 \<notin> set s \<union> set t \<and> length t \<le> length s \<and> length s < 1024"
    let ?b = "map Some (s @ [0]) @ drop (Suc (length s)) (replicate 1024 None)"
    have "take 1024 (s @ [0]) = s @ [0]" using a by (intro take_all) simp
    then have 1: "read_into (Some (s @ [0])) (replicate 1024 None) = ?b" unfolding read_into_def option.case by simp
    have 2: "read_into (Some t) ?b = map Some ((t @ drop (length t) s) @ 0 # []) @ drop (Suc (length s)) (replicate 1024 None)"
      using a by (simp add: read_into_def drop_map)
    have "print_buffer ?b = Some s" using print_buffer_string [of s "[]"] a by simp
    moreover have "0 \<notin> set (t @ drop (length t) s)" using a by (auto dest: in_set_dropD)
    note print_buffer_string [OF this, of "[]"]
    ultimately show "launch [(f, Some (s @ [0])), (g, Some t)]
        = Some [Shown s, Wrote f hello, Hung_up f, Shown (t @ drop (length t) s), Wrote g hello, Hung_up g]"
      unfolding launch_def launch_loop.simps Let_def 1 2 by simp
  qed
next
  show "0 \<notin> set t \<and> length t < 1024 \<longrightarrow> launch ((f, Some t) # es) = None"
  proof (intro impI)
    assume a: "0 \<notin> set t \<and> length t < 1024"
    obtain k where "1024 - length t = Suc k" using a by (cases "1024 - length t") auto
    then have "read_into (Some t) (replicate 1024 None) = map Some t @ None # replicate k None" using a by (simp add: read_into_def)
    then show "launch ((f, Some t) # es) = None" using print_buffer_unset [of t] a by (simp add: launch_def)
  qed
qed

text \<open>
  test.c passes the type of the socket where \<open>server_create\<close> expects the protocol and the other way
  round. Where \<open>socket\<close> refuses the type 0 and \<open>bind\<close> a negative socket, with -1, the program exits before it accepts
  anyone: the failure of \<open>socket\<close> itself is not noticed, because it is compared with 0.
\<close>

theorem hello_main_exits:
  assumes "\<And>d p. socket_call d 0 p = -1" "\<And>a. bind_call (-1) a = -1"
  shows "hello_main socket_call bind_call listen_call es = Inl 1"
  using assms by (simp add: hello_main_def server_create_def Let_def)

text \<open>With the arguments in the order of the parameters it would serve.\<close>

theorem server_create_serves:
  assumes "socket_call d ty p = s" "0 < s" "\<And>a. bind_call s a = 0" "\<And>n. listen_call s n = 0"
  shows "\<exists>server. server_create socket_call bind_call listen_call d p ty i port n l = Inr server \<and> ws_socket server = s \<and> ws_launch server = l"
  using assms by (simp add: server_create_def Let_def)

end
