(* ===== verification/Exercises.thy ===== *)
theory Exercises
  imports CText
begin

text \<open>
  The exercises with code of their own in the root directory, of which src/Basics holds copies:
  practice.c, structs.c, fileio.c and multithreading.c. What they print is their result.
\<close>

section \<open>practice.c\<close>

text \<open>An array argument is \<open>None\<close> for \<open>NULL\<close>. Reading outside it and an overflow of \<open>int\<close> are undefined.\<close>

definition int_ok :: "int \<Rightarrow> bool" where
  "int_ok x \<longleftrightarrow> - (2 ^ 31) \<le> x \<and> x < 2 ^ 31"

fun printarray_loop :: "nat \<Rightarrow> nat \<Rightarrow> int list \<Rightarrow> (nat \<times> int) list option" where
  "printarray_loop 0 i array = Some []"
| "printarray_loop (Suc k) i array =
     (if i < length array then map_option ((#) (i, array ! i)) (printarray_loop k (Suc i) array) else None)"

definition printarray :: "int list option \<Rightarrow> int \<Rightarrow> (nat \<times> int) list option" where
  "printarray array elements =
     (case array of None \<Rightarrow> if 0 < elements then None else Some [] | Some xs \<Rightarrow> printarray_loop (nat elements) 0 xs)"

fun sum_loop :: "nat \<Rightarrow> nat \<Rightarrow> int list \<Rightarrow> int \<Rightarrow> int option" where
  "sum_loop 0 i array s = Some s"
| "sum_loop (Suc k) i array s =
     (if i < length array \<and> int_ok (s + array ! i) then sum_loop k (Suc i) array (s + array ! i) else None)"

text \<open>\<open>sum\<close> reports a null pointer and goes on; its result is what it prints last.\<close>

definition sum_array :: "int list option \<Rightarrow> int \<Rightarrow> int option" where
  "sum_array array elements =
     (case array of None \<Rightarrow> if 0 < elements then None else Some 0 | Some xs \<Rightarrow> sum_loop (nat elements) 0 xs 0)"

lemma printarray_loop_eval: "i + k = length xs \<Longrightarrow> printarray_loop k i xs = Some (zip [i..<length xs] (drop i xs))"
  by (induction k arbitrary: i) (simp_all add: Cons_nth_drop_Suc [symmetric] upt_conv_Cons)

lemma sum_loop_eval:
  assumes "i + k = length xs" "\<And>j. i < j \<Longrightarrow> j \<le> length xs \<Longrightarrow> int_ok (sum_list (take j xs))"
  shows "sum_loop k i xs (sum_list (take i xs)) = Some (sum_list xs)"
  using assms
proof (induction k arbitrary: i)
  case (Suc k)
  have "sum_list (take (Suc i) xs) = sum_list (take i xs) + xs ! i" using Suc.prems(1) by (simp add: take_Suc_conv_app_nth)
  then show ?case using Suc.IH [of "Suc i"] Suc.prems(1) Suc.prems(2) [of "Suc i"] Suc.prems(2) by simp
qed simp

lemma sum_loop_outside: "length xs < i + k \<Longrightarrow> i \<le> length xs \<Longrightarrow> sum_loop k i xs s = None"
  by (induction k arbitrary: i s) auto

text \<open>
  \<open>sum\<close> prints the sum of the array when no partial sum overflows; with too many elements, or any
  at a null pointer, it reads outside the array.
\<close>

theorem sum_array_correct:
  "((\<forall>j \<le> length xs. int_ok (sum_list (take j xs))) \<longrightarrow> sum_array (Some xs) (int (length xs)) = Some (sum_list xs))
   \<and> (int (length xs) < n \<longrightarrow> sum_array (Some xs) n = None) \<and> (0 < n \<longrightarrow> sum_array None n = None)"
  using sum_loop_eval [of 0 "length xs" xs] sum_loop_outside [of xs 0 "nat n" 0] by (auto simp: sum_array_def)

section \<open>structs.c\<close>

record coordinate =
  x_pos :: "32 word"
  y_pos :: "32 word"

definition print_position :: "coordinate \<Rightarrow> 32 word \<times> 32 word" where
  "print_position c = (x_pos c, y_pos c)"

definition structs_main :: "(32 word \<times> 32 word) list" where
  "structs_main = (let coord1 = \<lparr>x_pos = 500, y_pos = 125\<rparr>;
     c = coord1\<lparr>x_pos := x_pos coord1 + 10\<rparr>; c = c\<lparr>y_pos := y_pos c + 10\<rparr>
   in [(x_pos coord1, y_pos coord1), print_position c])"

section \<open>fileio.c\<close>

text \<open>
  The file is \<open>None\<close> until it is written. Parameters say whether \<open>fopen\<close> succeeds for writing and for
  reading and what the two \<open>fclose\<close> return. \<open>fread\<close> gets nine bytes at a time into a buffer of ten.
\<close>

definition outbuffer :: "byte list" where
  "outbuffer = [73, 32, 119, 97, 110, 116, 32, 116, 111, 32, 119, 114, 105, 116, 101, 32, 116, 111, 32, 97, 32, 102, 105, 108, 101, 33, 10]"

text \<open>Each round prints the number of bytes read and the string in the buffer.\<close>

function read_chunks :: "byte list \<Rightarrow> byte list \<Rightarrow> (nat \<times> byte list option) list" where
  "read_chunks inbuffer fp =
     (let got = take (length inbuffer - 1) fp; bytes = length got
      in if bytes = 0 then []
         else let inbuffer = (got @ drop bytes inbuffer)[bytes := 0]
              in (bytes, cstr inbuffer) # read_chunks inbuffer (drop bytes fp))"
  by pat_completeness auto
termination by (relation "measure (\<lambda>(b, f). length f)") (auto simp: min_def split: if_splits)

declare read_chunks.simps [simp del]

definition fileio_main :: "bool \<Rightarrow> bool \<Rightarrow> int \<Rightarrow> int \<Rightarrow> byte list option \<Rightarrow> int \<times> (nat \<times> byte list option) list \<times> byte list option" where
  "fileio_main can_write can_read status1 status2 file =
     (if \<not> can_write then (1, [], file)
      else let file = Some outbuffer
      in if status1 \<noteq> 0 then (1, [], file)
      else if \<not> can_read then (1, [], file)
      else let out = read_chunks (replicate 10 0) outbuffer
      in if status2 \<noteq> 0 then (1, out, file) else (0, out, file))"

text \<open>Whatever the file holds, the loop stays inside its buffer and shows all of it that is text.\<close>

lemma read_chunks_eval:
  assumes "length b = 10" "0 \<notin> set bs"
  shows "\<exists>cs. read_chunks b bs = map (\<lambda>c. (length c, Some c)) cs \<and> concat cs = bs \<and> (\<forall>c \<in> set cs. 0 < length c \<and> length c \<le> 9)"
  using assms
proof (induction b bs rule: read_chunks.induct)
  case (1 b bs)
  show ?case
  proof (cases "bs = []")
    case True then show ?thesis by (intro exI [of _ "[]"]) (simp add: read_chunks.simps)
  next
    case False
    let ?c = "take 9 bs" let ?n = "length ?c"
    let ?b = "(?c @ drop ?n b)[?n := 0]"
    have n: "0 < ?n" "?n \<le> 9" using False by auto
    have l: "length b - 1 = 9" "length ?b = 10" using 1(2) n by auto
    have "drop ?n b \<noteq> []" using 1(2) n by auto
    then obtain y ys where y: "drop ?n b = y # ys" by (cases "drop ?n b") auto
    have b: "?b = ?c @ 0 # ys" unfolding y by (simp add: list_update_append)
    have "0 \<notin> set ?c" using 1(3) by (auto dest: in_set_takeD)
    then have c: "cstr ?b = Some ?c" unfolding b by (simp add: cstr_nul)
    have d: "0 \<notin> set (drop ?n bs)" using 1(3) by (auto dest: in_set_dropD)
    note IH = 1(1) [OF refl refl _ refl, unfolded l(1)]
    from IH [OF _ l(2) d] n obtain cs where
      cs: "read_chunks ?b (drop ?n bs) = map (\<lambda>c. (length c, Some c)) cs" "concat cs = drop ?n bs" "\<forall>c \<in> set cs. 0 < length c \<and> length c \<le> 9"
      by blast
    have "read_chunks b bs = (?n, Some ?c) # read_chunks ?b (drop ?n bs)"
      using n c by (subst read_chunks.simps) (simp only: l Let_def, simp)
    moreover have "?c @ drop ?n bs = bs" by (simp add: min_def)
    ultimately show ?thesis using cs n by (intro exI [of _ "?c # cs"]) (simp del: length_take)
  qed
qed

theorem fileio_shows_file:
  "\<exists>cs. fileio_main True True 0 0 file = (0, map (\<lambda>c. (length c, Some c)) cs, Some outbuffer) \<and> concat cs = outbuffer"
  using read_chunks_eval [of "replicate 10 0" outbuffer] by (auto simp: fileio_main_def outbuffer_def)

section \<open>multithreading.c\<close>

text \<open>
  Each thread reads a file into a buffer of 200 bytes that \<open>calloc\<close> cleared; the main thread joins
  them in order, so their interleaving does not show. For a file that cannot be opened \<open>readfile\<close> passes
  the format where \<open>fprintf\<close> expects a stream, which is undefined. \<open>alloc i\<close> says whether \<open>calloc\<close> succeeds in
  thread \<open>i\<close>, \<open>created i\<close> whether \<open>pthread_create\<close> does; joining a thread that was not created is undefined.
\<close>

definition readfile :: "(string \<rightharpoonup> byte list) \<Rightarrow> bool \<Rightarrow> string \<Rightarrow> byte list option option" where
  "readfile fs alloc filename = do {
     bs \<leftarrow> fs filename;
     if \<not> alloc then Some None
     else Some (Some (take 199 bs @ replicate (200 - length (take 199 bs)) 0))
   }"

fun join_loop :: "(string \<rightharpoonup> byte list) \<Rightarrow> (nat \<Rightarrow> bool) \<Rightarrow> (nat \<Rightarrow> bool) \<Rightarrow> nat \<Rightarrow> string list \<Rightarrow> byte list list option" where
  "join_loop fs created alloc i [] = Some []"
| "join_loop fs created alloc i (name # names) =
     (if \<not> created i then None
      else do {
        result \<leftarrow> readfile fs (alloc i) name;
        out \<leftarrow> (case result of None \<Rightarrow> Some [] | Some b \<Rightarrow> map_option (\<lambda>s. [s]) (cstr b));
        rest \<leftarrow> join_loop fs created alloc (Suc i) names;
        Some (out @ rest)
      })"

definition multithreading_main ::
  "(string \<rightharpoonup> byte list) \<Rightarrow> (nat \<Rightarrow> bool) \<Rightarrow> (nat \<Rightarrow> bool) \<Rightarrow> bool \<Rightarrow> string list \<Rightarrow> (int \<times> byte list list) option" where
  "multithreading_main fs created alloc malloc_ok names =
     (if names = [] then Some (1, [])
      else if \<not> malloc_ok then Some (1, [])
      else map_option (\<lambda>out. (0, out)) (join_loop fs created alloc 0 names))"

lemma join_loop_files:
  assumes "\<forall>n \<in> set names. \<exists>bs. fs n = Some bs"
  shows "join_loop fs (\<lambda>_. True) (\<lambda>_. True) i names = Some (map (\<lambda>n. takeWhile (\<lambda>c. c \<noteq> 0) (take 199 (the (fs n)))) names)"
  using assms
proof (induction names arbitrary: i)
  case (Cons n names)
  obtain bs where bs: "fs n = Some bs" using Cons.prems by auto
  obtain k where "200 - length (take 199 bs) = Suc k" by (cases "200 - length (take 199 bs)") auto
  then have "readfile fs True n = Some (Some (take 199 bs @ 0 # replicate k 0))" using bs by (simp add: readfile_def)
  moreover have "cstr (take 199 bs @ 0 # replicate k 0) = Some (takeWhile (\<lambda>c. c \<noteq> 0) (take 199 bs))"
    by (cases "\<forall>x \<in> set (take 199 bs). x \<noteq> 0") (simp_all add: cstr_def takeWhile_append takeWhile_eq_all_conv [THEN iffD2])
  ultimately show ?case using Cons bs by simp
qed simp

text \<open>The files are shown in the order of the arguments, each up to its first zero byte or 199 bytes; a file that is missing makes the program undefined.\<close>

theorem multithreading_shows_files:
  "(names \<noteq> [] \<and> (\<forall>n \<in> set names. \<exists>bs. fs n = Some bs) \<longrightarrow> multithreading_main fs (\<lambda>_. True) (\<lambda>_. True) True names
      = Some (0, map (\<lambda>n. takeWhile (\<lambda>c. c \<noteq> 0) (take 199 (the (fs n)))) names))
   \<and> (fs n = None \<longrightarrow> multithreading_main fs created alloc True (n # names) = None)"
  using join_loop_files by (auto simp: multithreading_main_def readfile_def)

end
